(* ===== verification/Ryther_Prelude.thy ===== *)
theory Ryther_Prelude
  imports Main "HOL-Library.Word" "HOL-Library.AList" "HOL-Library.List_Lexorder"
    "HOL-Library.Multiset"
begin

text \<open>
  Shared vocabulary of the development: the machine types of the Rust sources, the parts of the
  Rust standard library they use (\<open>HashMap\<close>, \<open>HashSet\<close>, byte encodings of integers,
  \<open>slice::binary_search_by\<close>), and the generic lemmas on them that the component theories
  share.

  Integers are words of the source's width; \<open>+\<close>, \<open>-\<close> and \<open>*\<close> on them wrap around, which is
  what the release profile of the crate does (\<^verbatim>\<open>Cargo.toml\<close> sets no \<open>overflow-checks\<close>). Where a
  theorem excludes wrap-around by a hypothesis, it holds for the debug profile too.

  A \<open>HashMap\<close> (or \<open>DashMap\<close>) is an association list with distinct keys whose order is one
  iteration order of the map; a \<open>HashSet\<close> is a distinct list. Nothing may depend on that order
  without the theorem saying so.
\<close>

section \<open>Machine types\<close>

type_synonym u8 = "8 word"
type_synonym u16 = "16 word"
type_synonym u32 = "32 word"
type_synonym u64 = "64 word"
type_synonym i32 = "32 word"
type_synonym i64 = "64 word"
type_synonym bytes = "8 word list"

abbreviation u64_MAX :: u64 where
  "u64_MAX \<equiv> 0xFFFFFFFFFFFFFFFF"

text \<open>The run-time failures (panics) that the modelled code can reach.\<close>

datatype panic = RemByZero | IndexOutOfBounds | SliceLengthMismatch | AssertionFailed | UnwrapNone

text \<open>Sequencing of fallible steps: an error or panic ends the computation.\<close>

fun and_then :: "'e + 'a \<Rightarrow> ('a \<Rightarrow> 'e + 'b) \<Rightarrow> 'e + 'b" where
  "and_then (Inl e) f = Inl e"
| "and_then (Inr x) f = f x"

lemma and_then_eq_Inr: "and_then x f = Inr y \<longleftrightarrow> (\<exists>a. x = Inr a \<and> f a = Inr y)"
  by (cases x) auto

lemma u8_unat_bound: "unat b < 256" for b :: u8
  using unsigned_less [of b] by simp

lemma u64_unat_bound: "unat a < 2 ^ 64" for a :: u64
  using unsigned_less [of a] by simp

named_theorems u64_simps \<open>reading word arithmetic as arithmetic on natural numbers\<close>
named_theorems codec_simps \<open>lengths and inverses of the byte encodings\<close>
named_theorems hmap_simps \<open>lookups after updates of a hash map\<close>

section \<open>Hash maps and hash sets\<close>

type_synonym ('k, 'v) hmap = "('k \<times> 'v) list"
type_synonym 'k hset = "'k list"

abbreviation hm_get :: "('k, 'v) hmap \<Rightarrow> 'k \<Rightarrow> 'v option" where
  "hm_get m k \<equiv> map_of m k"

abbreviation hm_insert :: "'k \<Rightarrow> 'v \<Rightarrow> ('k, 'v) hmap \<Rightarrow> ('k, 'v) hmap" where
  "hm_insert k v m \<equiv> AList.update k v m"

abbreviation hm_remove :: "'k \<Rightarrow> ('k, 'v) hmap \<Rightarrow> ('k, 'v) hmap" where
  "hm_remove k m \<equiv> AList.delete k m"

abbreviation hm_contains :: "('k, 'v) hmap \<Rightarrow> 'k \<Rightarrow> bool" where
  "hm_contains m k \<equiv> map_of m k \<noteq> None"

abbreviation hm_wf :: "('k, 'v) hmap \<Rightarrow> bool" where
  "hm_wf m \<equiv> distinct (map fst m)"

lemmas hm_lookup [hmap_simps] = update_conv' delete_conv' distinct_update distinct_delete

lemma hm_contains_iff: "hm_contains m k \<longleftrightarrow> k \<in> fst ` set m"
  by (simp add: map_of_eq_None_iff)

lemma hm_contains_update [hmap_simps]:
  "hm_contains (hm_insert k v m) k' \<longleftrightarrow> k' = k \<or> hm_contains m k'"
  by (simp add: update_conv')

lemma set_hm_insert: "set (hm_insert k v m) \<subseteq> insert (k, v) (set m)"
  by (induction m) auto

lemma set_hm_remove: "set (hm_remove k m) = {(k', v) \<in> set m. k' \<noteq> k}"
  by (auto simp: AList.delete_eq)

lemma hm_insert_new: "\<not> hm_contains m k \<Longrightarrow> hm_insert k v m = m @ [(k, v)]"
  by (induction m) (auto split: if_splits)

lemma hm_insert_length:
  "length (hm_insert k v m) = (if hm_contains m k then length m else Suc (length m))"
  by (induction m) auto

lemma hm_remove_length:
  "hm_wf m \<Longrightarrow> length (hm_remove k m) = (if hm_contains m k then length m - 1 else length m)"
proof (induction m)
  case (Cons p m)
  obtain k' v' where p: "p = (k', v')" by (cases p)
  show ?case
  proof (cases "k = k'")
    case True
    with Cons.prems p have "k \<notin> fst ` set m" by simp
    then have "hm_remove k m = m" by simp
    with True p show ?thesis by simp
  next
    case False
    have "hm_contains m k \<Longrightarrow> m \<noteq> []" by auto
    with False p Cons show ?thesis by (cases m) auto
  qed
qed simp

text \<open>Changing every value (\<open>values_mut\<close>) and one value (\<open>get_mut\<close>, \<open>entry().and_modify\<close>).\<close>

definition hm_map_values :: "('v \<Rightarrow> 'v) \<Rightarrow> ('k, 'v) hmap \<Rightarrow> ('k, 'v) hmap" where
  "hm_map_values f m = map (\<lambda>(k, v). (k, f v)) m"

definition hm_modify :: "'k \<Rightarrow> ('v \<Rightarrow> 'v) \<Rightarrow> ('k, 'v) hmap \<Rightarrow> ('k, 'v) hmap" where
  "hm_modify k f m = (case hm_get m k of None \<Rightarrow> m | Some v \<Rightarrow> hm_insert k (f v) m)"

lemma hm_get_map_values [hmap_simps]:
  "hm_get (hm_map_values f m) k = map_option f (hm_get m k)"
  by (induction m) (auto simp: hm_map_values_def)

lemma hm_wf_map_values [hmap_simps]: "map fst (hm_map_values f m) = map fst m"
  by (induction m) (auto simp: hm_map_values_def)

lemma hm_get_modify [hmap_simps]:
  "hm_get (hm_modify k f m) k' = (if k' = k then map_option f (hm_get m k) else hm_get m k')"
  by (auto simp: hm_modify_def update_conv' split: option.splits)

lemma hm_modify_keys [hmap_simps]: "map fst (hm_modify k f m) = map fst m"
proof -
  have "map fst (hm_insert k v m) = map fst m" if "hm_contains m k" for v
    using that by (induction m) (auto split: if_splits)
  then show ?thesis by (auto simp: hm_modify_def split: option.splits)
qed

section \<open>Byte encodings of unsigned integers\<close>

text \<open>\<open>to_le_bytes\<close>, \<open>from_le_bytes\<close>, \<open>to_be_bytes\<close> and \<open>from_be_bytes\<close> of the integer types, on
  \<open>n\<close> bytes.\<close>

fun le_of_nat :: "nat \<Rightarrow> nat \<Rightarrow> bytes" where
  "le_of_nat 0 x = []"
| "le_of_nat (Suc n) x = word_of_nat (x mod 256) # le_of_nat n (x div 256)"

fun nat_of_le :: "bytes \<Rightarrow> nat" where
  "nat_of_le [] = 0"
| "nat_of_le (b # bs) = unat b + 256 * nat_of_le bs"

definition u64_to_le_bytes :: "u64 \<Rightarrow> bytes" where
  "u64_to_le_bytes w = le_of_nat 8 (unat w)"

definition u64_from_le_bytes :: "bytes \<Rightarrow> u64" where
  "u64_from_le_bytes bs = word_of_nat (nat_of_le bs)"

definition u64_to_be_bytes :: "u64 \<Rightarrow> bytes" where
  "u64_to_be_bytes w = rev (le_of_nat 8 (unat w))"

definition u64_from_be_bytes :: "bytes \<Rightarrow> u64" where
  "u64_from_be_bytes bs = word_of_nat (nat_of_le (rev bs))"

definition u32_to_be_bytes :: "u32 \<Rightarrow> bytes" where
  "u32_to_be_bytes w = rev (le_of_nat 4 (unat w))"

definition u32_from_be_bytes :: "bytes \<Rightarrow> u32" where
  "u32_from_be_bytes bs = word_of_nat (nat_of_le (rev bs))"

lemma length_le_of_nat [simp]: "length (le_of_nat n x) = n"
  by (induction n arbitrary: x) auto

lemma nat_of_le_of_nat: "nat_of_le (le_of_nat n x) = x mod 256 ^ n"
proof (induction n arbitrary: x)
  case (Suc n)
  have "unat (word_of_nat (x mod 256) :: u8) = x mod 256"
    by (simp add: unat_of_nat)
  then have "nat_of_le (le_of_nat (Suc n) x) = x mod 256 + 256 * (x div 256 mod 256 ^ n)"
    using Suc by simp
  also have "\<dots> = x mod (256 * 256 ^ n)"
    by (simp add: mod_mult2_eq)
  finally show ?case by simp
qed simp

lemma nat_of_le_bound: "nat_of_le bs < 256 ^ length bs"
proof (induction bs)
  case (Cons b bs)
  have "unat b < 256" by (rule u8_unat_bound)
  with Cons show ?case by simp
qed simp

lemma le_of_nat_of_le: "le_of_nat (length bs) (nat_of_le bs) = bs"
proof (induction bs)
  case (Cons b bs)
  have "unat b < 256" by (rule u8_unat_bound)
  with Cons show ?case by simp
qed simp

text \<open>
  The contract that the users of a fixed-width encoding rely on: it has a constant length and an
  inverse. Everything that is hashed or signed is a concatenation of such encodings, so the
  preimage determines its fields.
\<close>

locale fixed_codec =
  fixes enc :: "'a \<Rightarrow> bytes" and dec :: "bytes \<Rightarrow> 'a" and width :: nat
  assumes enc_length: "length (enc x) = width"
    and dec_enc: "dec (enc x) = x"
begin

lemma enc_inject: "enc x = enc y \<longleftrightarrow> x = y"
  by (metis dec_enc)

lemma enc_append_inject: "enc x @ xs = enc y @ ys \<longleftrightarrow> x = y \<and> xs = ys"
  by (auto simp: append_eq_append_conv enc_length enc_inject)

lemma dec_take: "dec (take width (enc x @ xs)) = x"
  by (simp add: enc_length dec_enc)

end

interpretation u64_le: fixed_codec u64_to_le_bytes u64_from_le_bytes 8
proof unfold_locales
  fix w :: u64
  have "unat w < 256 ^ 8" using u64_unat_bound [of w] by simp
  then show "u64_from_le_bytes (u64_to_le_bytes w) = w"
    by (simp add: u64_to_le_bytes_def u64_from_le_bytes_def nat_of_le_of_nat)
qed (simp add: u64_to_le_bytes_def)

interpretation u64_be: fixed_codec u64_to_be_bytes u64_from_be_bytes 8
proof unfold_locales
  fix w :: u64
  have "unat w < 256 ^ 8" using u64_unat_bound [of w] by simp
  then show "u64_from_be_bytes (u64_to_be_bytes w) = w"
    by (simp add: u64_to_be_bytes_def u64_from_be_bytes_def nat_of_le_of_nat)
qed (simp add: u64_to_be_bytes_def)

interpretation u32_be: fixed_codec u32_to_be_bytes u32_from_be_bytes 4
proof unfold_locales
  fix w :: u32
  have "unat w < 256 ^ 4" using unsigned_less [of w] by simp
  then show "u32_from_be_bytes (u32_to_be_bytes w) = w"
    by (simp add: u32_to_be_bytes_def u32_from_be_bytes_def nat_of_le_of_nat)
qed (simp add: u32_to_be_bytes_def)

lemmas codec_facts [codec_simps] =
  u64_le.enc_length u64_le.dec_enc u64_be.enc_length u64_be.dec_enc
  u32_be.enc_length u32_be.dec_enc

lemma u64_to_be_from_be: "length bs = 8 \<Longrightarrow> u64_to_be_bytes (u64_from_be_bytes bs) = bs"
proof -
  assume len: "length bs = 8"
  then have "nat_of_le (rev bs) < 2 ^ 64"
    using nat_of_le_bound [of "rev bs"] by simp
  then have "unat (word_of_nat (nat_of_le (rev bs)) :: u64) = nat_of_le (rev bs)"
    by (simp add: unat_of_nat)
  with len show ?thesis
    using le_of_nat_of_le [of "rev bs"] by (simp add: u64_to_be_bytes_def u64_from_be_bytes_def)
qed

section \<open>Binary search\<close>

text \<open>
  \<open>slice::binary_search_by\<close> of the standard library: the comparator says how an element compares
  to the wanted one. \<open>Inr\<close> is \<open>Ok\<close> (the index of a match), \<open>Inl\<close> is \<open>Err\<close> (the insertion
  point). Which of several matches is returned is left open by the library's documentation; the
  definition follows its implementation. The users below rely on \<open>binary_search_insertion_point\<close> only, except
  for what is said of three versions of a slot with the same sequence number, which rests on this choice.
\<close>

datatype cmp = Less | Equal | Greater

definition u64_cmp :: "u64 \<Rightarrow> u64 \<Rightarrow> cmp" where
  "u64_cmp a b = (if a < b then Less else if a = b then Equal else Greater)"

function bs_loop :: "('a \<Rightarrow> cmp) \<Rightarrow> 'a list \<Rightarrow> nat \<Rightarrow> nat \<Rightarrow> nat" where
  "bs_loop f xs base sz =
     (if sz \<le> 1 then base
      else let half = sz div 2; mid = base + half
           in bs_loop f xs (if f (xs ! mid) = Greater then base else mid) (sz - half))"
  by pat_completeness auto
termination
  by (relation "measure (\<lambda>(f, xs, base, sz). sz)") auto

declare bs_loop.simps [simp del]

definition binary_search_by :: "('a \<Rightarrow> cmp) \<Rightarrow> 'a list \<Rightarrow> nat + nat" where
  "binary_search_by f xs =
     (if xs = [] then Inl 0
      else let base = bs_loop f xs 0 (length xs)
           in case f (xs ! base) of
                Equal \<Rightarrow> Inr base
              | Less \<Rightarrow> Inl (base + 1)
              | Greater \<Rightarrow> Inl base)"

text \<open>The elements are ordered with respect to the comparator: none that is too great before one
  that is not, and none that is too small after one that is not.\<close>

definition partitioned :: "('a \<Rightarrow> cmp) \<Rightarrow> 'a list \<Rightarrow> bool" where
  "partitioned f xs \<longleftrightarrow>
     (\<forall>i j. i \<le> j \<longrightarrow> j < length xs \<longrightarrow>
        (f (xs ! i) = Greater \<longrightarrow> f (xs ! j) = Greater) \<and>
        (f (xs ! j) = Less \<longrightarrow> f (xs ! i) = Less))"

definition bs_window :: "('a \<Rightarrow> cmp) \<Rightarrow> 'a list \<Rightarrow> nat \<Rightarrow> nat \<Rightarrow> bool" where
  "bs_window f xs base sz \<longleftrightarrow> 0 < sz \<and> base + sz \<le> length xs \<and>
     (\<forall>i < base. f (xs ! i) \<noteq> Greater) \<and> (\<forall>i < length xs. base + sz \<le> i \<longrightarrow> f (xs ! i) = Greater)"

lemma bs_window_step:
  assumes part: "partitioned f xs" and win: "bs_window f xs base sz" and sz: "1 < sz"
  defines "half \<equiv> sz div 2"
  defines "mid \<equiv> base + half"
  shows "bs_window f xs (if f (xs ! mid) = Greater then base else mid) (sz - half)"
proof -
  have half: "0 < half" "half < sz" "half \<le> sz - half" using sz by (auto simp: half_def)
  have mid: "mid < length xs" using half win by (simp add: mid_def bs_window_def)
  show ?thesis
  proof (cases "f (xs ! mid) = Greater")
    case True
    have "f (xs ! i) = Greater" if "i < length xs" "base + (sz - half) \<le> i" for i
    proof -
      have "mid \<le> i" using that half by (simp add: mid_def)
      with True that part show ?thesis unfolding partitioned_def by blast
    qed
    with True half win show ?thesis by (auto simp: bs_window_def)
  next
    case False
    have "f (xs ! i) \<noteq> Greater" if "i < mid" for i
      using that False part mid unfolding partitioned_def by (auto dest: less_imp_le)
    with False half win show ?thesis by (auto simp: bs_window_def mid_def)
  qed
qed

lemma bs_loop_invariant:
  assumes "partitioned f xs" and "bs_window f xs base sz"
  shows "bs_window f xs (bs_loop f xs base sz) 1"
  using assms
proof (induction f xs base sz rule: bs_loop.induct)
  case (1 f xs base sz)
  show ?case
  proof (cases "sz \<le> 1")
    case True
    with "1.prems"(2) have "sz = 1" by (simp add: bs_window_def)
    with "1.prems"(2) show ?thesis by (subst bs_loop.simps) simp
  next
    case False
    then show ?thesis
      using "1.IH" [OF False refl refl "1.prems"(1) bs_window_step [OF "1.prems"]]
      by (subst bs_loop.simps) (simp add: Let_def)
  qed
qed

lemma bs_loop_whole:
  assumes "partitioned f xs" and "xs \<noteq> []"
  defines "b \<equiv> bs_loop f xs 0 (length xs)"
  shows "b < length xs" "\<forall>i < b. f (xs ! i) \<noteq> Greater" "\<forall>i < length xs. b < i \<longrightarrow> f (xs ! i) = Greater"
  using bs_loop_invariant [of f xs 0 "length xs"] assms by (auto simp: bs_window_def)

text \<open>The position (match or insertion point) separates what is not greater from what is not less.\<close>

lemma binary_search_insertion_point:
  assumes part: "partitioned f xs" and res: "binary_search_by f xs = r"
  defines "p \<equiv> (case r of Inl i \<Rightarrow> i | Inr i \<Rightarrow> i)"
  shows "p \<le> length xs \<and> (\<forall>i < p. f (xs ! i) \<noteq> Greater) \<and>
    (\<forall>i < length xs. p \<le> i \<longrightarrow> f (xs ! i) \<noteq> Less)"
proof (cases "xs = []")
  case True
  with res show ?thesis by (auto simp: binary_search_by_def p_def)
next
  case False
  define b where "b = bs_loop f xs 0 (length xs)"
  have inv: "b < length xs" "\<forall>i < b. f (xs ! i) \<noteq> Greater"
      "\<forall>i < length xs. b < i \<longrightarrow> f (xs ! i) = Greater"
    using bs_loop_whole [OF part False] by (simp_all add: b_def)
  have r: "r = (case f (xs ! b) of Equal \<Rightarrow> Inr b | Less \<Rightarrow> Inl (b + 1) | Greater \<Rightarrow> Inl b)"
    using res False by (auto simp: binary_search_by_def b_def Let_def split: cmp.splits)
  have after: "f (xs ! i) \<noteq> Less" if "b < i" "i < length xs" for i
    using inv(3) that by auto
  show ?thesis
  proof (cases "f (xs ! b)")
    case Less
    with r inv after show ?thesis by (auto simp: p_def less_Suc_eq)
  next
    case Equal
    then have "f (xs ! i) \<noteq> Less" if "b \<le> i" "i < length xs" for i
      using after that by (cases "b = i") auto
    with Equal r inv show ?thesis by (auto simp: p_def)
  next
    case Greater
    then have "f (xs ! i) \<noteq> Less" if "b \<le> i" "i < length xs" for i
      using after that by (cases "b = i") auto
    with Greater r inv show ?thesis by (auto simp: p_def)
  qed
qed

lemma binary_search_match:
  assumes "partitioned f xs" and "binary_search_by f xs = Inr i"
  shows "i < length xs \<and> f (xs ! i) = Equal"
proof (cases "xs = []")
  case True
  with assms show ?thesis by (simp add: binary_search_by_def)
next
  case False
  have "bs_loop f xs 0 (length xs) < length xs"
    by (rule bs_loop_whole(1) [OF assms(1) False])
  with assms(2) False show ?thesis
    by (auto simp: binary_search_by_def Let_def split: cmp.splits)
qed

lemma sorted_desc_distinct: "sorted_wrt (>) xs \<Longrightarrow> distinct xs" for xs :: "'a::order list"
  by (induction xs) auto

definition list_insert_at :: "nat \<Rightarrow> 'a \<Rightarrow> 'a list \<Rightarrow> 'a list" where
  "list_insert_at i x xs = take i xs @ x # drop i xs"

lemma set_list_insert_at [simp]: "set (list_insert_at i x xs) = insert x (set xs)"
  by (simp add: list_insert_at_def) (metis append_take_drop_id set_append)

lemma mset_list_insert_at [simp]: "mset (list_insert_at i x xs) = add_mset x (mset xs)"
  by (simp add: list_insert_at_def) (metis append_take_drop_id mset_append)

lemma length_list_insert_at [simp]: "length (list_insert_at i x xs) = Suc (length xs)"
  by (simp add: list_insert_at_def)

section \<open>Words as natural numbers\<close>

lemma u64_add_nowrap [u64_simps]:
  "unat a + unat b < 2 ^ 64 \<Longrightarrow> unat (a + b) = unat a + unat b" for a b :: u64
  by (simp add: unat_word_ariths)

lemma u64_sub_nowrap [u64_simps]: "b \<le> a \<Longrightarrow> unat (a - b) = unat a - unat b" for a b :: u64
  by (rule unat_sub)

lemma u64_less_iff [u64_simps]: "a < b \<longleftrightarrow> unat a < unat b" for a b :: u64
  by (rule word_less_nat_alt)

lemma u64_le_iff [u64_simps]: "a \<le> b \<longleftrightarrow> unat a \<le> unat b" for a b :: u64
  by (rule word_le_nat_alt)

lemma u64_le_MAX: "a \<le> u64_MAX"
  using u64_unat_bound [of a] by (simp add: word_le_nat_alt)

text \<open>The inclusive range \<open>a..=b\<close> of the source, in order.\<close>

definition u64_range_incl :: "u64 \<Rightarrow> u64 \<Rightarrow> u64 list" where
  "u64_range_incl a b = map word_of_nat [unat a ..< Suc (unat b)]"

lemma set_u64_range_incl: "set (u64_range_incl a b) = {a..b}"
proof (intro set_eqI iffI)
  fix x assume "x \<in> set (u64_range_incl a b)"
  then obtain n where n: "unat a \<le> n" "n \<le> unat b" "x = word_of_nat n"
    by (auto simp: u64_range_incl_def)
  then have "unat x = n"
    using u64_unat_bound [of b] by (simp add: unat_of_nat)
  with n show "x \<in> {a..b}" by (simp add: word_le_nat_alt)
next
  fix x assume "x \<in> {a..b}"
  then have "unat x \<in> set [unat a ..< Suc (unat b)]" and "x = word_of_nat (unat x)"
    by (auto simp: word_le_nat_alt simp del: upt_Suc)
  then show "x \<in> set (u64_range_incl a b)"
    unfolding u64_range_incl_def set_map by (rule rev_image_eqI)
qed

lemma set_map_filter: "set (List.map_filter f xs) = {y. \<exists>x \<in> set xs. f x = Some y}"
  by (induction xs) (auto simp: List.map_filter_def)

section \<open>Invariants of step relations\<close>

text \<open>A predicate that every step keeps holds in every state that steps can reach from one where it holds.\<close>

locale step_invariant =
  fixes step :: "'s \<Rightarrow> 's \<Rightarrow> bool" and inv :: "'s \<Rightarrow> bool"
  assumes step_inv: "step s t \<Longrightarrow> inv s \<Longrightarrow> inv t"
begin

lemma reachable_inv: "step\<^sup>*\<^sup>* s t \<Longrightarrow> inv s \<Longrightarrow> inv t"
  by (induction rule: rtranclp_induct) (auto intro: step_inv)

end

section \<open>Components and their operations\<close>

text \<open>A state that a sequence of operations leads to.\<close>

definition evolves :: "('o \<Rightarrow> 's \<Rightarrow> 's) \<Rightarrow> 's \<Rightarrow> 's \<Rightarrow> bool" where
  "evolves run_op s t \<longleftrightarrow> (\<exists>ops. t = fold run_op ops s)"

lemma evolves_refl [simp, intro]: "evolves run_op s s"
  unfolding evolves_def by (intro exI [of _ "[]"]) simp

lemma evolves_op [intro]: "evolves run_op s (run_op k s)"
  unfolding evolves_def by (intro exI [of _ "[k]"]) simp

lemma evolves_trans [trans]: "evolves run_op s t \<Longrightarrow> evolves run_op t u \<Longrightarrow> evolves run_op s u"
  unfolding evolves_def by (metis fold_append comp_apply)

lemma fold_preorder:
  assumes refl: "\<And>s. R s s" and trans: "\<And>s t u. R s t \<Longrightarrow> R t u \<Longrightarrow> R s u" and step: "\<And>x s. R s (f x s)"
  shows "R s (fold f xs s)"
proof (induction xs arbitrary: s)
  case (Cons x xs)
  from trans [OF step Cons] show ?case by simp
qed (simp add: refl)

text \<open>The contract of a component whose operations all keep an invariant.\<close>

locale component =
  fixes run_op :: "'o \<Rightarrow> 's \<Rightarrow> 's" and inv :: "'s \<Rightarrow> bool"
  assumes op_inv: "inv s \<Longrightarrow> inv (run_op k s)"
begin

lemma run_inv: "inv s \<Longrightarrow> inv (fold run_op ops s)"
  by (induction ops arbitrary: s) (simp_all add: op_inv)

lemma evolves_inv: "evolves run_op s t \<Longrightarrow> inv s \<Longrightarrow> inv t"
  by (auto simp: evolves_def run_inv)

end

end
