(* ===== verification/Page_Store.thy ===== *)
theory Page_Store
  imports Ryther_Prelude
begin

text \<open>
  Page storage, \<^verbatim>\<open>src/storage/page.rs\<close>. The backing file is its contents as a list of bytes: seeking fails
  past the largest signed 64-bit offset, writing past the end fills the gap with zeros, and an exact read
  fails where the file is too short. The operating system reports no other error. Sums of offsets and
  lengths are sums of words and wrap around; a slice whose start is behind its end panics.
\<close>

abbreviation PAGE_SIZE :: nat where "PAGE_SIZE \<equiv> 4096"

type_synonym page_id = u64

record page =
  pg_id :: page_id
  pg_data :: bytes
  pg_dirty :: bool

definition page_new :: "page_id \<Rightarrow> page" where
  "page_new pid = \<lparr>pg_id = pid, pg_data = replicate PAGE_SIZE 0, pg_dirty = False\<rparr>"

definition page_with_data :: "page_id \<Rightarrow> bytes \<Rightarrow> page" where
  "page_with_data pid data = \<lparr>pg_id = pid, pg_data = data, pg_dirty = False\<rparr>"

definition mark_dirty :: "page \<Rightarrow> page" where
  "mark_dirty p = p\<lparr>pg_dirty := True\<rparr>"

definition mark_clean :: "page \<Rightarrow> page" where
  "mark_clean p = p\<lparr>pg_dirty := False\<rparr>"

definition page_read :: "page \<Rightarrow> u64 \<Rightarrow> u64 \<Rightarrow> panic + bytes option" where
  "page_read p offset len =
     (if offset + len \<le> word_of_nat PAGE_SIZE
      then (if offset \<le> offset + len
            then Inr (Some (take (unat (offset + len) - unat offset) (drop (unat offset) (pg_data p))))
            else Inl IndexOutOfBounds)
      else Inr None)"

definition page_write :: "u64 \<Rightarrow> bytes \<Rightarrow> page \<Rightarrow> panic + bool \<times> page" where
  "page_write offset data p =
     (let stop = offset + word_of_nat (length data)
      in if stop \<le> word_of_nat PAGE_SIZE
         then (if offset \<le> stop
               then (if unat stop - unat offset = length data
                     then Inr (True, p\<lparr>pg_data := take (unat offset) (pg_data p) @ data @ drop (unat stop) (pg_data p),
                                      pg_dirty := True\<rparr>)
                     else Inl SliceLengthMismatch)
               else Inl IndexOutOfBounds)
         else Inr (False, p))"

section \<open>The backing file\<close>

definition file_seek :: "u64 \<Rightarrow> bool" where
  "file_seek offset = (unat offset < 2 ^ 63)"

definition file_write :: "nat \<Rightarrow> bytes \<Rightarrow> bytes \<Rightarrow> bytes" where
  "file_write offset data f =
     take offset f @ replicate (offset - length f) 0 @ data @ drop (offset + length data) f"

definition file_read_exact :: "nat \<Rightarrow> nat \<Rightarrow> bytes \<Rightarrow> bytes option" where
  "file_read_exact offset len f = (if offset + len \<le> length f then Some (take len (drop offset f)) else None)"

definition page_offset :: "page_id \<Rightarrow> u64" where
  "page_offset pid = (pid - 1) * word_of_nat PAGE_SIZE"

section \<open>The store\<close>

record page_store =
  ps_pages :: "(page_id, page) hmap"
  ps_next_id :: page_id
  ps_file :: "bytes option"

definition store_new :: page_store where
  "store_new = \<lparr>ps_pages = [], ps_next_id = 1, ps_file = None\<rparr>"

definition store_open :: "bytes \<Rightarrow> page_store" where
  "store_open f =
     (let len = word_of_nat (length f); page_count = len div word_of_nat PAGE_SIZE
      in \<lparr>ps_pages = [], ps_next_id = page_count + 1, ps_file = Some f\<rparr>)"

definition write_back :: "page \<Rightarrow> bytes option \<Rightarrow> bytes option" where
  "write_back p file =
     (case file of
        Some f \<Rightarrow>
          (let offset = page_offset (pg_id p)
           in if file_seek offset then Some (file_write (unat offset) (pg_data p) f) else Some f)
      | None \<Rightarrow> None)"

definition allocate :: "page_store \<Rightarrow> page_id \<times> page_store" where
  "allocate s =
     (let pid = ps_next_id s; p = page_new pid
      in (pid, s\<lparr>ps_next_id := pid + 1, ps_file := write_back p (ps_file s), ps_pages := hm_insert pid p (ps_pages s)\<rparr>))"

definition read_page :: "page_store \<Rightarrow> page_id \<Rightarrow> page option" where
  "read_page s pid =
     (case hm_get (ps_pages s) pid of
        Some p \<Rightarrow> Some p
      | None \<Rightarrow>
          (case ps_file s of
             Some f \<Rightarrow>
               (let offset = page_offset pid
                in if file_seek offset
                   then map_option (page_with_data pid) (file_read_exact (unat offset) PAGE_SIZE f)
                   else None)
           | None \<Rightarrow> None))"

definition write_page :: "page \<Rightarrow> page_store \<Rightarrow> page_store" where
  "write_page p s = s\<lparr>ps_pages := hm_insert (pg_id p) p (ps_pages s), ps_file := write_back p (ps_file s)\<rparr>"

definition page_exists :: "page_store \<Rightarrow> page_id \<Rightarrow> bool" where
  "page_exists s pid =
     (hm_contains (ps_pages s) pid \<or>
      (case ps_file s of
         Some f \<Rightarrow> pid * word_of_nat PAGE_SIZE \<le> word_of_nat (length f)
       | None \<Rightarrow> False))"

definition free_page :: "page_id \<Rightarrow> page_store \<Rightarrow> bool \<times> page_store" where
  "free_page pid s = (hm_contains (ps_pages s) pid, s\<lparr>ps_pages := hm_remove pid (ps_pages s)\<rparr>)"

definition dirty_pages :: "page_store \<Rightarrow> page_id list" where
  "dirty_pages s = map fst (filter (\<lambda>(pid, p). pg_dirty p) (ps_pages s))"

definition store_flush :: "page_store \<Rightarrow> page_store" where
  "store_flush s = s\<lparr>ps_pages := hm_map_values mark_clean (ps_pages s)\<rparr>"

definition store_page_count :: "page_store \<Rightarrow> u64" where
  "store_page_count s = ps_next_id s - 1"

text \<open>The asynchronous wrapper runs each operation on a blocking thread and returns its result.\<close>

record async_page_store =
  aps_inner :: page_store

definition async_new :: async_page_store where
  "async_new = \<lparr>aps_inner = store_new\<rparr>"

definition async_allocate :: "async_page_store \<Rightarrow> page_id \<times> async_page_store" where
  "async_allocate a = (let (pid, s) = allocate (aps_inner a) in (pid, a\<lparr>aps_inner := s\<rparr>))"

definition async_read_page :: "async_page_store \<Rightarrow> page_id \<Rightarrow> page option" where
  "async_read_page a pid = read_page (aps_inner a) pid"

definition async_write_page :: "page \<Rightarrow> async_page_store \<Rightarrow> async_page_store" where
  "async_write_page p a = a\<lparr>aps_inner := write_page p (aps_inner a)\<rparr>"

definition async_flush :: "async_page_store \<Rightarrow> async_page_store" where
  "async_flush a = a\<lparr>aps_inner := store_flush (aps_inner a)\<rparr>"

section \<open>Pages on disk\<close>

text \<open>A page whose place in the file can be addressed.\<close>

definition addressable :: "page_id \<Rightarrow> bool" where
  "addressable pid \<longleftrightarrow> 0 < unat pid \<and> unat pid * PAGE_SIZE \<le> 2 ^ 63"

definition page_ok :: "page \<Rightarrow> bool" where
  "page_ok p \<longleftrightarrow> addressable (pg_id p) \<and> length (pg_data p) = PAGE_SIZE"

lemma page_offset_val: "addressable pid \<Longrightarrow> unat (page_offset pid) = (unat pid - 1) * PAGE_SIZE \<and> file_seek (page_offset pid)"
proof -
  assume a: "addressable pid"
  define x where "x = pid - 1"
  have x: "unat x = unat pid - 1" using a by (simp add: x_def addressable_def u64_simps)
  then have "unat x * PAGE_SIZE < 2 ^ 64" using a by (auto simp: addressable_def)
  then have "unat (x * 4096) = unat x * PAGE_SIZE" by (simp add: unat_word_ariths(2))
  then have "unat (page_offset pid) = (unat pid - 1) * PAGE_SIZE" unfolding page_offset_def x_def [symmetric] x by simp
  with a show ?thesis by (auto simp: file_seek_def addressable_def)
qed

lemma file_write_same:
  "length data = n \<Longrightarrow> file_read_exact offset n (file_write offset data f) = Some data"
  by (simp add: file_read_exact_def file_write_def)

lemma file_write_other:
  assumes "offset + n \<le> offset' \<or> offset' + length data \<le> offset"
    and "file_read_exact offset n f = Some d"
  shows "file_read_exact offset n (file_write offset' data f) = Some d"
proof -
  have len: "offset + n \<le> length f" and d: "d = take n (drop offset f)" using assms(2) by (auto simp: file_read_exact_def split: if_splits)
  from assms(1) show ?thesis
  proof
    assume le: "offset + n \<le> offset'"
    then have "take n (drop offset (file_write offset' data f)) = d"
      using len by (simp add: file_write_def d drop_take min_def)
    then show ?thesis using le len by (simp add: file_read_exact_def file_write_def)
  next
    assume le: "offset' + length data \<le> offset"
    then obtain k where k: "offset = offset' + length data + k" by (metis le_add_diff_inverse)
    have "drop offset (file_write offset' data f) = drop offset f"
      using len k by (simp add: file_write_def add.commute add.left_commute)
    then show ?thesis using le len d by (simp add: file_read_exact_def file_write_def)
  qed
qed

definition disk_page :: "bytes \<Rightarrow> page_id \<Rightarrow> bytes option" where
  "disk_page f pid = file_read_exact (unat (page_offset pid)) PAGE_SIZE f"

lemma write_back_pages:
  assumes "page_ok p" and "addressable pid"
  shows "\<exists>f'. write_back p (Some f) = Some f' \<and> disk_page f' (pg_id p) = Some (pg_data p) \<and>
    (\<forall>d. pid \<noteq> pg_id p \<and> disk_page f pid = Some d \<longrightarrow> disk_page f' pid = Some d)"
proof -
  have p: "addressable (pg_id p)" "length (pg_data p) = PAGE_SIZE" using assms(1) by (simp_all add: page_ok_def)
  note off = page_offset_val [OF p(1)] page_offset_val [OF assms(2)]
  have apart: "unat (page_offset pid) + PAGE_SIZE \<le> unat (page_offset (pg_id p)) \<or>
      unat (page_offset (pg_id p)) + length (pg_data p) \<le> unat (page_offset pid)" if "pid \<noteq> pg_id p"
  proof -
    have "unat pid \<noteq> unat (pg_id p)" using that by (auto dest: unsigned_word_eqI)
    then have "unat pid < unat (pg_id p) \<or> unat (pg_id p) < unat pid" by linarith
    with off p assms(2) show ?thesis by (auto simp: addressable_def)
  qed
  show ?thesis
    using off p apart file_write_same [OF p(2)] file_write_other
    by (auto simp: write_back_def Let_def disk_page_def)
qed

lemma read_page_reopened:
  assumes "addressable pid"
  shows "read_page (store_open f) pid = map_option (page_with_data pid) (disk_page f pid)"
  using page_offset_val [OF assms] by (simp add: read_page_def store_open_def disk_page_def Let_def)

text \<open>Writing a list of pages, oldest first.\<close>

definition write_pages :: "page list \<Rightarrow> page_store \<Rightarrow> page_store" where
  "write_pages ps s = fold write_page ps s"

definition last_write :: "page list \<Rightarrow> page_id \<Rightarrow> bytes option" where
  "last_write ps pid = map_option pg_data (find (\<lambda>p. pg_id p = pid) (rev ps))"

definition disk_after :: "page list \<Rightarrow> bytes \<Rightarrow> page_id \<Rightarrow> bytes \<Rightarrow> bool" where
  "disk_after ps f pid f' \<longleftrightarrow>
     (case last_write ps pid of
        Some d \<Rightarrow> disk_page f' pid = Some d
      | None \<Rightarrow> \<forall>d. disk_page f pid = Some d \<longrightarrow> disk_page f' pid = Some d)"

lemma write_pages_disk:
  assumes "\<forall>p \<in> set ps. page_ok p" and "addressable pid" and "ps_file s = Some f"
  shows "\<exists>f'. ps_file (write_pages ps s) = Some f' \<and> disk_after ps f pid f'"
  using assms(1)
proof (induction ps rule: rev_induct)
  case Nil
  then show ?case using assms(3) by (simp add: write_pages_def last_write_def disk_after_def)
next
  case (snoc p ps)
  then obtain f1 where f1: "ps_file (write_pages ps s) = Some f1" "disk_after ps f pid f1" by auto
  have ok: "page_ok p" using snoc.prems by simp
  from write_back_pages [OF this assms(2), of f1]
  obtain f' where f': "write_back p (Some f1) = Some f'" "disk_page f' (pg_id p) = Some (pg_data p)"
      "\<forall>d. pid \<noteq> pg_id p \<and> disk_page f1 pid = Some d \<longrightarrow> disk_page f' pid = Some d"
    by (elim exE conjE)
  have "ps_file (write_pages (ps @ [p]) s) = Some f'"
    using f1(1) f'(1) by (simp add: write_pages_def write_page_def)
  moreover have "disk_after (ps @ [p]) f pid f'"
  proof (cases "pg_id p = pid")
    case True
    with f'(2) show ?thesis by (simp add: disk_after_def last_write_def)
  next
    case False
    then have "last_write (ps @ [p]) pid = last_write ps pid" by (simp add: last_write_def)
    with False f1(2) f'(3) show ?thesis unfolding disk_after_def by (cases "last_write ps pid") auto
  qed
  ultimately show ?case by blast
qed

section \<open>Properties\<close>

text \<open>Property C33: written pages survive a restart. After any sequence of page writes to a store over a file,
  a store that is opened on the resulting file reads, for every page that was written, the data of its last
  write, and for every other page what the old file held.\<close>

theorem reopened_store_reads_last_write:
  assumes pages: "\<forall>p \<in> set ps. page_ok p" and pid: "addressable pid" and backed: "ps_file s = Some f"
  shows "\<exists>f'. ps_file (write_pages ps s) = Some f' \<and>
    (case last_write ps pid of
       Some d \<Rightarrow> read_page (store_open f') pid = Some (page_with_data pid d)
     | None \<Rightarrow> \<forall>q. read_page (store_open f) pid = Some q \<longrightarrow> read_page (store_open f') pid = Some q)"
proof -
  from write_pages_disk [OF assms] obtain f' where "ps_file (write_pages ps s) = Some f'" "disk_after ps f pid f'"
    by (elim exE conjE)
  then show ?thesis
    by (cases "last_write ps pid") (auto simp: disk_after_def read_page_reopened [OF pid])
qed

theorem reopened_store_reads_last_write_witness:
  "\<exists>f'. ps_file (write_pages [page_with_data 2 (replicate PAGE_SIZE 7)] (store_open [])) = Some f' \<and>
     read_page (store_open f') 2 = Some (page_with_data 2 (replicate PAGE_SIZE 7))"
proof -
  let ?p = "page_with_data 2 (replicate PAGE_SIZE 7)"
  have "\<forall>p \<in> set [?p]. page_ok p" "addressable 2"
    by (simp_all add: page_ok_def addressable_def page_with_data_def)
  moreover have "ps_file (store_open []) = Some []" by (simp add: store_open_def Let_def)
  moreover have "last_write [?p] 2 = Some (replicate PAGE_SIZE 7)" by (simp add: last_write_def page_with_data_def)
  ultimately show ?thesis using reopened_store_reads_last_write [of "[?p]" 2 "store_open []" "[]"] by simp
qed

text \<open>Reading and writing inside a page. A write that fits replaces exactly its range and marks
  the page dirty, a later read of that range returns it, and a write or read that does not fit is refused;
  where offset and length together exceed 64 bits, both panic instead.\<close>

theorem page_write_then_read:
  assumes data: "length (pg_data p) = PAGE_SIZE" and small: "length d < 2 ^ 64"
  shows "if unat offset + length d \<le> PAGE_SIZE
    then \<exists>p'. page_write offset d p = Inr (True, p') \<and> pg_dirty p' \<and> pg_id p' = pg_id p \<and> length (pg_data p') = PAGE_SIZE \<and>
      page_read p' offset (word_of_nat (length d)) = Inr (Some d) \<and>
      take (unat offset) (pg_data p') = take (unat offset) (pg_data p) \<and>
      drop (unat offset + length d) (pg_data p') = drop (unat offset + length d) (pg_data p)
    else if unat offset + length d < 2 ^ 64
    then page_write offset d p = Inr (False, p) \<and> page_read p offset (word_of_nat (length d)) = Inr None
    else unat offset + length d \<le> 2 ^ 64 + PAGE_SIZE \<longrightarrow>
      page_write offset d p = Inl IndexOutOfBounds \<and> page_read p offset (word_of_nat (length d)) = Inl IndexOutOfBounds"
proof -
  let ?len = "word_of_nat (length d) :: u64"
  have len: "unat ?len = length d" using small by (simp add: unsigned_of_nat take_bit_nat_eq_self)
  have off: "unat offset < 2 ^ 64" by (rule u64_unat_bound)
  consider (fits) "unat offset + length d < 2 ^ 64" | (wraps) "2 ^ 64 \<le> unat offset + length d" by linarith
  then show ?thesis
  proof cases
    case fits
    then have sum: "unat (offset + ?len) = unat offset + length d"
      using u64_add_nowrap [of offset ?len] len by simp
    then show ?thesis
      using fits data
      by (auto simp: page_write_def page_read_def Let_def u64_simps)
  next
    case wraps
    have "unat (offset + ?len) = unat offset + length d - 2 ^ 64"
      using wraps off small by (simp add: unat_word_ariths len mod_if)
    then show ?thesis
      using wraps off small by (auto simp: page_write_def page_read_def Let_def u64_simps)
  qed
qed

theorem page_write_then_read_witness:
  "\<exists>p'. page_write 3 [1, 2] (page_new 1) = Inr (True, p') \<and> page_read p' 3 2 = Inr (Some [1, 2])"
  using page_write_then_read [of "page_new 1" "[1, 2]" 3] by (auto simp: page_new_def)

text \<open>Freeing a page of a store over a file has no effect on later reads beyond dropping unwritten changes:
  the page is read back from the file. And page 0, which cannot be read, always exists.\<close>

theorem freed_page_still_readable:
  assumes "page_ok p" and "ps_file s = Some f"
  shows "read_page (snd (free_page (pg_id p) (write_page p s))) (pg_id p) = Some (page_with_data (pg_id p) (pg_data p)) \<and>
    page_exists s 0 \<and> (hm_get (ps_pages s) 0 = None \<longrightarrow> read_page s 0 = None)"
proof -
  have a: "addressable (pg_id p)" using assms(1) by (simp add: page_ok_def)
  from write_back_pages [OF assms(1) a, of f]
  obtain f' where "write_back p (Some f) = Some f'" "disk_page f' (pg_id p) = Some (pg_data p)" by (elim exE conjE)
  with page_offset_val [OF a] assms(2)
  have "read_page (snd (free_page (pg_id p) (write_page p s))) (pg_id p) = Some (page_with_data (pg_id p) (pg_data p))"
    by (simp add: read_page_def free_page_def write_page_def disk_page_def hm_lookup)
  moreover have "\<not> file_seek (page_offset 0)" by (simp add: file_seek_def page_offset_def)
  ultimately show ?thesis using assms(2) by (simp add: page_exists_def read_page_def)
qed

end
