(* ===== verification/Text_Format.thy ===== *)
theory Text_Format
  imports Ryther_Prelude
begin

text \<open>
  Text as the Rust standard library writes and reads it: the bytes of a string, the formats \<^verbatim>\<open>{}\<close> and
  \<^verbatim>\<open>{:x}\<close> of an integer, \<open>char::to_digit\<close>, \<open>u64::from_str_radix\<close> with radix 16, and
  \<open>trim_start_matches("0x")\<close>. A \<open>string\<close> is the list of its UTF-8 bytes as characters. Byte strings are
  printed by the external \<open>hex\<close> crate, whose two functions are parameters of the definitions that use
  them.
\<close>

definition as_bytes :: "string \<Rightarrow> bytes" where
  "as_bytes s = map (\<lambda>c. word_of_nat (of_char c)) s"

definition hex_char :: "nat \<Rightarrow> char" where
  "hex_char d = char_of (if d < 10 then 48 + d else 87 + d)"

definition hex_value :: "char \<Rightarrow> nat option" where
  "hex_value c =
     (let n = of_char c :: nat
      in if 48 \<le> n \<and> n \<le> 57 then Some (n - 48)
         else if 97 \<le> n \<and> n \<le> 102 then Some (n - 87)
         else if 65 \<le> n \<and> n \<le> 70 then Some (n - 55)
         else None)"

definition to_digit :: "nat \<Rightarrow> char \<Rightarrow> nat option" where
  "to_digit radix c = (case hex_value c of Some d \<Rightarrow> if d < radix then Some d else None | None \<Rightarrow> None)"

fun radix_digits :: "nat \<Rightarrow> nat \<Rightarrow> string" where
  "radix_digits r n = (if n < r \<or> r < 2 then [hex_char n] else radix_digits r (n div r) @ [hex_char (n mod r)])"

declare radix_digits.simps [simp del]

abbreviation hex_digits :: "nat \<Rightarrow> string" where
  "hex_digits n \<equiv> radix_digits 16 n"

abbreviation decimal :: "nat \<Rightarrow> string" where
  "decimal n \<equiv> radix_digits 10 n"

fun parse_digits :: "nat \<Rightarrow> nat \<Rightarrow> string \<Rightarrow> nat option" where
  "parse_digits r acc [] = Some acc"
| "parse_digits r acc (c # cs) = (case to_digit r c of None \<Rightarrow> None | Some d \<Rightarrow> parse_digits r (acc * r + d) cs)"

definition u64_from_hex :: "string \<Rightarrow> u64 option" where
  "u64_from_hex s =
     (let digits = (case s of c # cs \<Rightarrow> if c = CHR ''+'' then cs else s | [] \<Rightarrow> [])
      in if digits = [] then None
         else case parse_digits 16 0 digits of
                None \<Rightarrow> None
              | Some n \<Rightarrow> if n < 2 ^ 64 then Some (word_of_nat n) else None)"

fun trim_0x :: "string \<Rightarrow> string" where
  "trim_0x (c # d # s) = (if c = CHR ''0'' \<and> d = CHR ''x'' then trim_0x s else c # d # s)"
| "trim_0x s = s"

definition format_0x :: "u64 \<Rightarrow> string" where
  "format_0x v = ''0x'' @ hex_digits (unat v)"

section \<open>Digits\<close>

lemma hex_value_char: "d < 16 \<Longrightarrow> hex_value (hex_char d) = Some d"
  by (auto simp: hex_value_def hex_char_def Let_def)

lemma to_digit_char: "d < r \<Longrightarrow> r \<le> 16 \<Longrightarrow> to_digit r (hex_char d) = Some d"
  by (simp add: to_digit_def hex_value_char)

lemma to_digit_SomeD: "to_digit r c = Some d \<Longrightarrow> d < r"
  by (auto simp: to_digit_def split: option.splits if_splits)

lemma parse_digits_append:
  "parse_digits r acc (xs @ ys) = (case parse_digits r acc xs of None \<Rightarrow> None | Some n \<Rightarrow> parse_digits r n ys)"
  by (induction r acc xs rule: parse_digits.induct) (auto split: option.splits)

lemma radix_digits_not_Nil [simp]: "radix_digits r n \<noteq> []"
  by (subst radix_digits.simps) simp

lemma parse_radix_digits: "2 \<le> r \<Longrightarrow> r \<le> 16 \<Longrightarrow> parse_digits r 0 (radix_digits r n) = Some n"
proof (induction r n rule: radix_digits.induct)
  case (1 r n)
  then show ?case by (subst radix_digits.simps) (auto simp: parse_digits_append to_digit_char)
qed

lemma radix_digits_inject: "2 \<le> r \<Longrightarrow> r \<le> 16 \<Longrightarrow> radix_digits r m = radix_digits r n \<longleftrightarrow> m = n"
  by (metis option.inject parse_radix_digits)

text \<open>Every character is a digit, and the first one of a longer numeral is not zero.\<close>

lemma radix_digits_chars:
  "2 \<le> r \<Longrightarrow> r \<le> 16 \<Longrightarrow> c \<in> set (radix_digits r n) \<Longrightarrow> \<exists>d < r. c = hex_char d"
proof (induction r n rule: radix_digits.induct)
  case (1 r n)
  have "set (radix_digits r n) = (if n < r then {hex_char n} else set (radix_digits r (n div r)) \<union> {hex_char (n mod r)})"
    using "1.prems"(1) by (subst radix_digits.simps) auto
  moreover have "\<exists>d < r. hex_char (n mod r) = hex_char d" using "1.prems"(1) by (intro exI [of _ "n mod r"]) simp
  ultimately show ?case using "1.prems" "1.IH" by (cases "n < r") auto
qed

lemma radix_digits_digit: "2 \<le> r \<Longrightarrow> r \<le> 16 \<Longrightarrow> c \<in> set (radix_digits r n) \<Longrightarrow> to_digit r c \<noteq> None"
  by (drule (2) radix_digits_chars) (auto simp: to_digit_char)

lemma radix_digits_hd: "2 \<le> r \<Longrightarrow> r \<le> 16 \<Longrightarrow> 0 < n \<Longrightarrow> hd (radix_digits r n) \<noteq> CHR ''0''"
proof (induction r n rule: radix_digits.induct)
  case (1 r n)
  show ?case
  proof (cases "n < r")
    case True
    with "1.prems" have "hex_value (hex_char n) = Some n" by (simp add: hex_value_char)
    then have "hex_char n \<noteq> CHR ''0''" using "1.prems"(3) by (auto simp: hex_value_def)
    with True show ?thesis by (subst radix_digits.simps) simp
  next
    case False
    with "1.prems" have "0 < n div r" by (simp add: div_greater_zero_iff)
    with False "1.IH" "1.prems" show ?thesis by (subst radix_digits.simps) simp
  qed
qed

lemma radix_digits_length: "2 \<le> r \<Longrightarrow> n < r ^ Suc k \<Longrightarrow> length (radix_digits r n) \<le> Suc k"
proof (induction k arbitrary: n)
  case 0
  then show ?case by (subst radix_digits.simps) simp
next
  case (Suc k)
  have "n div r < r ^ Suc k" using Suc.prems by (simp add: less_mult_imp_div_less mult.commute)
  with Suc.IH [OF Suc.prems(1)] show ?case by (subst radix_digits.simps) simp
qed

section \<open>Hexadecimal text\<close>

definition hex_text :: "string \<Rightarrow> bool" where
  "hex_text s \<longleftrightarrow> (\<forall>c \<in> set s. c \<noteq> CHR ''x'' \<and> c \<noteq> CHR ''+'')"

lemma hex_char_text: "d < 16 \<Longrightarrow> hex_char d \<noteq> CHR ''x'' \<and> hex_char d \<noteq> CHR ''+''"
proof -
  assume "d < 16"
  then have "of_char (hex_char d) \<noteq> (120 :: nat)" "of_char (hex_char d) \<noteq> (43 :: nat)"
    by (auto simp: hex_char_def)
  then show ?thesis by auto
qed

lemma radix_digits_text:
  assumes r: "2 \<le> r" "r \<le> 16"
  shows "hex_text (radix_digits r n)"
  unfolding hex_text_def
proof
  fix c assume "c \<in> set (radix_digits r n)"
  then obtain d where "d < r" "c = hex_char d" using radix_digits_chars [OF r] by blast
  then show "c \<noteq> CHR ''x'' \<and> c \<noteq> CHR ''+''" using hex_char_text [of d] r(2) by simp
qed

lemma trim_0x_text: "hex_text s \<Longrightarrow> trim_0x s = s"
  by (induction s rule: trim_0x.induct) (auto simp: hex_text_def)

lemma trim_0x_prefixed: "hex_text s \<Longrightarrow> trim_0x (''0x'' @ s) = s"
  by (simp add: trim_0x_text)

lemma u64_hex_roundtrip: "u64_from_hex (trim_0x (format_0x v)) = Some v"
proof -
  have t: "hex_text (hex_digits (unat v))" by (simp add: radix_digits_text)
  then obtain c cs where c: "hex_digits (unat v) = c # cs" "c \<noteq> CHR ''+''"
    by (cases "hex_digits (unat v)") (auto simp: hex_text_def)
  have "trim_0x (format_0x v) = hex_digits (unat v)" unfolding format_0x_def by (rule trim_0x_prefixed [OF t])
  then show ?thesis
    using parse_radix_digits [of 16 "unat v"] u64_unat_bound [of v] c by (simp add: u64_from_hex_def Let_def)
qed

lemma length_format_0x: "length (format_0x v) \<le> 18"
  using radix_digits_length [of 16 "unat v" 15] u64_unat_bound [of v] by (simp add: format_0x_def)

lemma as_bytes_inject: "as_bytes s = as_bytes t \<longleftrightarrow> s = t"
proof -
  have "c = d" if "(word_of_nat (of_char c) :: u8) = word_of_nat (of_char d)" for c d
  proof -
    have "(of_char c :: nat) < 256" "(of_char d :: nat) < 256" by (rule nat_of_char_less_256)+
    then have "(of_char c :: nat) = of_char d" using that by (simp add: word_of_nat_eq_iff take_bit_nat_def)
    then show ?thesis by simp
  qed
  then have "inj (\<lambda>c. word_of_nat (of_char c) :: u8)" by (rule injI)
  then show ?thesis by (simp add: as_bytes_def inj_map_eq_map)
qed

section \<open>The \<open>hex\<close> crate\<close>

text \<open>What the \<open>hex\<close> crate documents: decoding inverts encoding, and encoding writes hexadecimal digits only.\<close>

definition hex_crate :: "(bytes \<Rightarrow> string) \<Rightarrow> (string \<Rightarrow> bytes option) \<Rightarrow> bool" where
  "hex_crate hex_encode hex_decode \<longleftrightarrow>
     (\<forall>bs. hex_decode (hex_encode bs) = Some bs) \<and> (\<forall>bs. \<forall>c \<in> set (hex_encode bs). hex_value c \<noteq> None)"

text \<open>An instance of it.\<close>

definition plain_encode :: "bytes \<Rightarrow> string" where
  "plain_encode bs = concat (map (\<lambda>b. [hex_char (unat b div 16), hex_char (unat b mod 16)]) bs)"

fun plain_decode :: "string \<Rightarrow> bytes option" where
  "plain_decode [] = Some []"
| "plain_decode [c] = None"
| "plain_decode (c # d # s) =
     (case (hex_value c, hex_value d, plain_decode s) of
        (Some h, Some l, Some bs) \<Rightarrow> Some (word_of_nat (16 * h + l) # bs)
      | _ \<Rightarrow> None)"

lemma plain_decode_encode: "plain_decode (plain_encode bs) = Some bs"
proof (induction bs)
  case (Cons b bs)
  have "unat b div 16 < 16" using u8_unat_bound [of b] by (simp add: div_less_iff_less_mult)
  moreover have "word_of_nat (16 * (unat b div 16) + unat b mod 16) = b"
    by (simp add: mult_div_mod_eq del: of_nat_add of_nat_mult)
  ultimately show ?case using Cons by (simp add: plain_encode_def hex_value_char)
qed (simp add: plain_encode_def)

lemma hex_crate_plain: "hex_crate plain_encode plain_decode"
proof -
  have "hex_value (hex_char (unat b div 16)) \<noteq> None" "hex_value (hex_char (unat b mod 16)) \<noteq> None" for b :: u8
    using u8_unat_bound [of b] by (simp_all add: hex_value_char div_less_iff_less_mult)
  then have "\<forall>c \<in> set (plain_encode bs). hex_value c \<noteq> None" for bs by (auto simp: plain_encode_def)
  with plain_decode_encode show ?thesis unfolding hex_crate_def by blast
qed

lemma hex_crate_inject: "hex_crate hex_encode hex_decode \<Longrightarrow> hex_encode a = hex_encode b \<longleftrightarrow> a = b"
  unfolding hex_crate_def by (metis option.inject)

lemma hex_crate_text: "hex_crate hex_encode hex_decode \<Longrightarrow> hex_text (hex_encode bs)"
proof -
  have "hex_value (CHR ''x'') = None" "hex_value (CHR ''+'') = None" by (simp_all add: hex_value_def)
  then show "hex_crate hex_encode hex_decode \<Longrightarrow> ?thesis" unfolding hex_crate_def hex_text_def by metis
qed

text \<open>What it documents of decoding alone: exactly the texts of an even number of hexadecimal digits are decoded, two
  digits to a byte.\<close>

definition hex_decoder :: "(string \<Rightarrow> bytes option) \<Rightarrow> bool" where
  "hex_decoder hex_decode \<longleftrightarrow>
     (\<forall>s. hex_decode s \<noteq> None \<longleftrightarrow> even (length s) \<and> (\<forall>c \<in> set s. hex_value c \<noteq> None)) \<and>
     (\<forall>s bs. hex_decode s = Some bs \<longrightarrow> length s = 2 * length bs)"

lemma hex_decoder_plain: "hex_decoder plain_decode"
proof -
  have "plain_decode s \<noteq> None \<longleftrightarrow> even (length s) \<and> (\<forall>c \<in> set s. hex_value c \<noteq> None)" for s
    by (induction s rule: plain_decode.induct) (auto split: option.splits)
  moreover have "plain_decode s = Some bs \<Longrightarrow> length s = 2 * length bs" for s bs
    by (induction s arbitrary: bs rule: plain_decode.induct) (auto split: option.splits)
  ultimately show ?thesis unfolding hex_decoder_def by blast
qed

lemma length_trim_0x: "length (trim_0x s) \<le> length s" "even (length (trim_0x s)) \<longleftrightarrow> even (length s)"
  by (induction s rule: trim_0x.induct) auto

end
