(* ===== verification/Core_Types.thy ===== *)
theory Core_Types
  imports Text_Format
begin

text \<open>
  The fundamental types of \<^verbatim>\<open>src/types/mod.rs\<close>: addresses, identifiers, the 256-bit integer
  \<open>U256\<close> (four 64-bit limbs, least significant first) and the state keys built from them. Fixed-size
  byte arrays are byte lists; the newtypes around them are synonyms.

  \<open>sha256\<close> and \<open>keccak256\<close> only call the crates \<open>sha2\<close> and \<open>sha3\<close>: wherever the code hashes, the
  hash function is an argument of type \<open>hash_fn\<close>.
\<close>

type_synonym hash_fn = "bytes \<Rightarrow> bytes"
type_synonym address = bytes
type_synonym event_id = bytes
type_synonym validator_id = bytes
type_synonym bls_signature = bytes

section \<open>Addresses and identifiers\<close>

definition address_zero :: address where
  "address_zero = replicate 20 0"

definition address_from_slice :: "bytes \<Rightarrow> address" where
  "address_from_slice s =
     (let len = min (length s) 20
      in replicate (20 - len) 0 @ drop (length s - len) s)"

definition validator_id_default :: validator_id where
  "validator_id_default = replicate 48 0"

definition bls_signature_default :: bls_signature where
  "bls_signature_default = replicate 96 0"

text \<open>The length checks of the two hand-written deserializers; \<open>Inl\<close> carries the error message.\<close>

definition validator_id_deserialize :: "bytes \<Rightarrow> string + validator_id" where
  "validator_id_deserialize bs =
     (if length bs \<noteq> 48 then Inl ''ValidatorId must be 48 bytes'' else Inr bs)"

definition bls_signature_deserialize :: "bytes \<Rightarrow> string + bls_signature" where
  "bls_signature_deserialize bs =
     (if length bs \<noteq> 96 then Inl ''BlsSignature must be 96 bytes'' else Inr bs)"

lemma address_from_slice_length [simp]: "length (address_from_slice s) = 20"
  by (simp add: address_from_slice_def Let_def)

lemma address_from_slice_exact [simp]: "length a = 20 \<Longrightarrow> address_from_slice a = a"
  by (simp add: address_from_slice_def)

section \<open>U256\<close>

datatype u256 = U256 (limb0: u64) (limb1: u64) (limb2: u64) (limb3: u64)

definition U256_ZERO :: u256 where "U256_ZERO = U256 0 0 0 0"
definition U256_ONE :: u256 where "U256_ONE = U256 1 0 0 0"

definition u256_from_u64 :: "u64 \<Rightarrow> u256" where
  "u256_from_u64 v = U256 v 0 0 0"

definition u256_limbs :: "u256 \<Rightarrow> u64 list" where
  "u256_limbs x = [limb0 x, limb1 x, limb2 x, limb3 x]"

definition u256_to_be_bytes :: "u256 \<Rightarrow> bytes" where
  "u256_to_be_bytes x = concat (map u64_to_be_bytes (rev (u256_limbs x)))"

definition u256_from_be_bytes :: "bytes \<Rightarrow> u256" where
  "u256_from_be_bytes bs =
     (let limb = (\<lambda>i. u64_from_be_bytes (take 8 (drop (i * 8) bs)))
      in U256 (limb 3) (limb 2) (limb 1) (limb 0))"

definition overflowing_add :: "u64 \<Rightarrow> u64 \<Rightarrow> u64 \<times> bool" where
  "overflowing_add a b = (a + b, 2 ^ 64 \<le> unat a + unat b)"

definition overflowing_sub :: "u64 \<Rightarrow> u64 \<Rightarrow> u64 \<times> bool" where
  "overflowing_sub a b = (a - b, a < b)"

text \<open>One iteration of the limb loop of \<open>wrapping_add\<close>: the sum and the carry out.\<close>

definition add_limb :: "u64 \<Rightarrow> u64 \<Rightarrow> u64 \<Rightarrow> u64 \<times> u64" where
  "add_limb a b carry =
     (let (sum, c1) = overflowing_add a b;
          (sum', c2) = overflowing_add sum carry
      in (sum', of_bool c1 + of_bool c2))"

definition u256_wrapping_add :: "u256 \<Rightarrow> u256 \<Rightarrow> u256" where
  "u256_wrapping_add x y =
     (let (r0, c0) = add_limb (limb0 x) (limb0 y) 0;
          (r1, c1) = add_limb (limb1 x) (limb1 y) c0;
          (r2, c2) = add_limb (limb2 x) (limb2 y) c1;
          (r3, c3) = add_limb (limb3 x) (limb3 y) c2
      in U256 r0 r1 r2 r3)"

text \<open>The derived \<open>Ord\<close> compares the limb arrays lexicographically, from index 0 on.\<close>

definition u256_le :: "u256 \<Rightarrow> u256 \<Rightarrow> bool" where
  "u256_le x y \<longleftrightarrow> u256_limbs x \<le> u256_limbs y"

instantiation u256 :: linorder
begin

definition less_eq_u256 :: "u256 \<Rightarrow> u256 \<Rightarrow> bool" where
  "less_eq_u256 = u256_le"

definition less_u256 :: "u256 \<Rightarrow> u256 \<Rightarrow> bool" where
  "less_u256 x y \<longleftrightarrow> u256_le x y \<and> \<not> u256_le y x"

instance
proof
  fix x y :: u256
  assume "x \<le> y" "y \<le> x"
  then show "x = y"
    by (cases x; cases y) (auto simp: less_eq_u256_def u256_le_def u256_limbs_def)
qed (auto simp: less_eq_u256_def less_u256_def u256_le_def)

end

text \<open>The number a \<open>U256\<close> stands for.\<close>

definition u256_val :: "u256 \<Rightarrow> nat" where
  "u256_val x = unat (limb0 x) + 2 ^ 64 * unat (limb1 x) + 2 ^ 128 * unat (limb2 x)
     + 2 ^ 192 * unat (limb3 x)"

lemma u256_val_from_u64 [simp]: "u256_val (u256_from_u64 v) = unat v"
  by (simp add: u256_val_def u256_from_u64_def)

lemma u256_val_ZERO [simp]: "u256_val U256_ZERO = 0"
  by (simp add: u256_val_def U256_ZERO_def)

lemma u256_val_bound: "u256_val x < 2 ^ 256"
proof -
  have "unat (limb0 x) < 2 ^ 64" "unat (limb1 x) < 2 ^ 64"
    "unat (limb2 x) < 2 ^ 64" "unat (limb3 x) < 2 ^ 64"
    by (rule u64_unat_bound)+
  then show ?thesis by (simp add: u256_val_def)
qed

lemma unat_eq_iff: "a = b \<longleftrightarrow> unat a = unat b" for a b :: u64
  by (auto dest: unsigned_word_eqI)

text \<open>Splitting a number at a limb boundary: quotient and remainder determine each other.\<close>

lemma limb_split_unique:
  assumes "a + 2 ^ 64 * b = a' + 2 ^ 64 * (b' :: nat)" and "a < 2 ^ 64" and "a' < 2 ^ 64"
  shows "a = a' \<and> b = b'"
proof -
  from assms have "(a + 2 ^ 64 * b) mod 2 ^ 64 = (a' + 2 ^ 64 * b') mod 2 ^ 64" by simp
  with assms(2,3) have "a = a'" by (simp add: mod_mult_self2)
  with assms(1) show ?thesis by simp
qed

lemma u256_val_nested:
  "u256_val x = unat (limb0 x) + 2 ^ 64 * (unat (limb1 x) + 2 ^ 64 *
     (unat (limb2 x) + 2 ^ 64 * unat (limb3 x)))"
  by (simp add: u256_val_def algebra_simps)

lemma u256_val_inject: "u256_val x = u256_val y \<longleftrightarrow> x = y"
proof
  assume eq: "u256_val x = u256_val y"
  note bounds = u64_unat_bound
  from eq have 0: "unat (limb0 x) = unat (limb0 y)"
    and "unat (limb1 x) + 2 ^ 64 * (unat (limb2 x) + 2 ^ 64 * unat (limb3 x)) =
         unat (limb1 y) + 2 ^ 64 * (unat (limb2 y) + 2 ^ 64 * unat (limb3 y))"
    unfolding u256_val_nested using limb_split_unique bounds by blast+
  then have 1: "unat (limb1 x) = unat (limb1 y)"
    and r: "unat (limb2 x) + 2 ^ 64 * unat (limb3 x) = unat (limb2 y) + 2 ^ 64 * unat (limb3 y)"
    using limb_split_unique bounds by blast+
  from r have 2: "unat (limb2 x) = unat (limb2 y)" and 3: "unat (limb3 x) = unat (limb3 y)"
    using limb_split_unique bounds by blast+
  from 0 1 2 3 show "x = y" by (cases x; cases y) (simp add: unat_eq_iff)
qed simp

lemma add_limb_correct:
  assumes "unat carry \<le> 1"
  shows "unat (fst (add_limb a b carry)) + 2 ^ 64 * unat (snd (add_limb a b carry)) =
      unat a + unat b + unat carry"
    and "unat (snd (add_limb a b carry)) \<le> 1"
proof -
  have a: "unat a < 2 ^ 64" and b: "unat b < 2 ^ 64" by (rule u64_unat_bound)+
  have s1: "unat (a + b) = (if 2 ^ 64 \<le> unat a + unat b then unat a + unat b - 2 ^ 64
      else unat a + unat b)"
    using a b by (simp add: unat_word_ariths mod_if)
  have s2: "unat (a + b + carry) = (if 2 ^ 64 \<le> unat (a + b) + unat carry
      then unat (a + b) + unat carry - 2 ^ 64 else unat (a + b) + unat carry)"
    using assms u64_unat_bound [of "a + b"] by (simp add: unat_word_ariths(1) [of "a + b"] mod_if)
  show "unat (fst (add_limb a b carry)) + 2 ^ 64 * unat (snd (add_limb a b carry)) =
      unat a + unat b + unat carry"
    using a b s1 s2 assms
    by (auto simp: add_limb_def overflowing_add_def Let_def of_bool_def)
  show "unat (snd (add_limb a b carry)) \<le> 1"
    using a b s1 s2 assms
    by (auto simp: add_limb_def overflowing_add_def Let_def of_bool_def)
qed

lemma u256_wrapping_add_carry:
  "\<exists>c \<le> 1. u256_val (u256_wrapping_add x y) + 2 ^ 256 * c = u256_val x + u256_val y"
proof -
  define p0 where "p0 = add_limb (limb0 x) (limb0 y) 0"
  define p1 where "p1 = add_limb (limb1 x) (limb1 y) (snd p0)"
  define p2 where "p2 = add_limb (limb2 x) (limb2 y) (snd p1)"
  define p3 where "p3 = add_limb (limb3 x) (limb3 y) (snd p2)"
  have r: "u256_wrapping_add x y = U256 (fst p0) (fst p1) (fst p2) (fst p3)"
    by (simp add: u256_wrapping_add_def p0_def p1_def p2_def p3_def Let_def case_prod_beta)
  have c0: "unat (fst p0) + 2 ^ 64 * unat (snd p0) = unat (limb0 x) + unat (limb0 y)"
    "unat (snd p0) \<le> 1"
    using add_limb_correct [of 0] by (simp_all add: p0_def)
  have c1: "unat (fst p1) + 2 ^ 64 * unat (snd p1) = unat (limb1 x) + unat (limb1 y) + unat (snd p0)"
    "unat (snd p1) \<le> 1"
    using add_limb_correct c0(2) by (simp_all add: p1_def)
  have c2: "unat (fst p2) + 2 ^ 64 * unat (snd p2) = unat (limb2 x) + unat (limb2 y) + unat (snd p1)"
    "unat (snd p2) \<le> 1"
    using add_limb_correct c1(2) by (simp_all add: p2_def)
  have c3: "unat (fst p3) + 2 ^ 64 * unat (snd p3) = unat (limb3 x) + unat (limb3 y) + unat (snd p2)"
    "unat (snd p3) \<le> 1"
    using add_limb_correct c2(2) by (simp_all add: p3_def)
  have "u256_val (u256_wrapping_add x y) + 2 ^ 256 * unat (snd p3) = u256_val x + u256_val y"
    using c0(1) c1(1) c2(1) c3(1) by (simp add: r u256_val_def)
  with c3(2) show ?thesis by blast
qed

lemma u256_wrapping_add_val:
  "u256_val (u256_wrapping_add x y) = (u256_val x + u256_val y) mod 2 ^ 256"
proof -
  obtain c where "u256_val (u256_wrapping_add x y) + 2 ^ 256 * c = u256_val x + u256_val y"
    using u256_wrapping_add_carry by blast
  then have "(u256_val x + u256_val y) mod 2 ^ 256 = u256_val (u256_wrapping_add x y) mod 2 ^ 256"
    by (metis mod_mult_self2)
  then show ?thesis using u256_val_bound [of "u256_wrapping_add x y"] by simp
qed

lemma u256_wrapping_add_nowrap:
  "u256_val x + u256_val y < 2 ^ 256 \<Longrightarrow>
    u256_val (u256_wrapping_add x y) = u256_val x + u256_val y"
  by (simp add: u256_wrapping_add_val)

lemma u256_to_be_bytes_length [simp]: "length (u256_to_be_bytes x) = 32"
  by (simp add: u256_to_be_bytes_def u256_limbs_def codec_simps)

interpretation u256_be: fixed_codec u256_to_be_bytes u256_from_be_bytes 32
  by unfold_locales
    (simp_all add: u256_from_be_bytes_def u256_to_be_bytes_def u256_limbs_def codec_simps)

lemma u256_to_be_from_be:
  assumes "length bs = 32"
  shows "u256_to_be_bytes (u256_from_be_bytes bs) = bs"
proof -
  have "take 8 bs @ take 8 (drop 8 bs) @ take 8 (drop 16 bs) @ drop 24 bs = bs"
    using append_take_drop_id [of 8 bs] append_take_drop_id [of 8 "drop 8 bs"]
      append_take_drop_id [of 8 "drop 16 bs"]
    by (simp only: drop_drop) simp
  moreover have "u64_to_be_bytes (u64_from_be_bytes (take 8 (drop n bs))) = take 8 (drop n bs)"
    if "n \<le> 24" for n
    using assms that by (intro u64_to_be_from_be) simp
  from this [of 0] this [of 8] this [of 16] this [of 24] assms
  have "u64_to_be_bytes (u64_from_be_bytes (take 8 bs)) = take 8 bs"
    "u64_to_be_bytes (u64_from_be_bytes (take 8 (drop 8 bs))) = take 8 (drop 8 bs)"
    "u64_to_be_bytes (u64_from_be_bytes (take 8 (drop 16 bs))) = take 8 (drop 16 bs)"
    "u64_to_be_bytes (u64_from_be_bytes (drop 24 bs)) = drop 24 bs"
    by simp_all
  ultimately show ?thesis
    using assms by (simp add: u256_from_be_bytes_def u256_to_be_bytes_def u256_limbs_def)
qed

section \<open>State keys\<close>

record state_key =
  sk_address :: bytes
  sk_slot :: u256

definition state_key_new :: "address \<Rightarrow> u256 \<Rightarrow> state_key" where
  "state_key_new a s = \<lparr>sk_address = a, sk_slot = s\<rparr>"

definition state_key_to_bytes :: "state_key \<Rightarrow> bytes" where
  "state_key_to_bytes k = sk_address k @ u256_to_be_bytes (sk_slot k)"

text \<open>The storage form of a state key determines the key: two slots never share a key hash by
  construction of the preimage.\<close>

lemma state_key_to_bytes_inject:
  assumes "length (sk_address k) = 20" and "length (sk_address k') = 20"
  shows "state_key_to_bytes k = state_key_to_bytes k' \<longleftrightarrow> k = k'"
  using assms
  by (auto simp: state_key_to_bytes_def u256_be.enc_inject intro: state_key.equality)

section \<open>Text forms\<close>

text \<open>The \<open>Display\<close> and \<open>Debug\<close> forms; the two of an address are the same. Long identifiers are cut.\<close>

definition address_text :: "(bytes \<Rightarrow> string) \<Rightarrow> address \<Rightarrow> string" where
  "address_text hex_encode a = ''0x'' @ hex_encode a"

definition validator_id_debug :: "(bytes \<Rightarrow> string) \<Rightarrow> validator_id \<Rightarrow> string" where
  "validator_id_debug hex_encode v = ''ValidatorId('' @ hex_encode (take 4 v) @ ''...)''"

definition bls_signature_debug :: "(bytes \<Rightarrow> string) \<Rightarrow> bls_signature \<Rightarrow> string" where
  "bls_signature_debug hex_encode sg = ''BlsSignature('' @ hex_encode (take 8 sg) @ ''...)''"

definition u256_debug :: "(bytes \<Rightarrow> string) \<Rightarrow> u256 \<Rightarrow> string" where
  "u256_debug hex_encode x = ''U256(0x'' @ hex_encode (u256_to_be_bytes x) @ '')''"

text \<open>Decimal where the number fits the lowest limb, hexadecimal otherwise.\<close>

definition u256_text :: "(bytes \<Rightarrow> string) \<Rightarrow> u256 \<Rightarrow> string" where
  "u256_text hex_encode x =
     (if limb1 x = 0 \<and> limb2 x = 0 \<and> limb3 x = 0 then decimal (unat (limb0 x))
      else ''0x'' @ hex_encode (u256_to_be_bytes x))"

definition state_key_debug :: "(bytes \<Rightarrow> string) \<Rightarrow> state_key \<Rightarrow> string" where
  "state_key_debug hex_encode k =
     ''StateKey('' @ [CHR 0x22] @ hex_encode (take 4 (sk_address k)) @ [CHR 0x22] @ '':'' @ u256_text hex_encode (sk_slot k) @ '')''"

lemma u256_text_inject:
  assumes hex: "hex_crate hex_encode hex_decode"
  shows "u256_text hex_encode x = u256_text hex_encode y \<longleftrightarrow> x = y"
proof
  assume eq: "u256_text hex_encode x = u256_text hex_encode y"
  have "CHR ''x'' \<notin> set (decimal n)" for n using radix_digits_text [of 10 n] by (auto simp: hex_text_def)
  then have apart: "decimal n \<noteq> ''0x'' @ s" for n s by (metis append_Cons in_set_conv_decomp list.set_intros(1,2))
  have dec: "decimal (unat a) = decimal (unat b) \<longleftrightarrow> a = b" for a b :: u64
    by (simp add: radix_digits_inject unat_eq_iff)
  show "x = y"
    using eq apart apart [symmetric] hex_crate_inject [OF hex] u256_be.enc_inject
    by (auto simp: u256_text_def dec u256.expand split: if_splits)
qed simp

lemma address_text_inject:
  "hex_crate hex_encode hex_decode \<Longrightarrow> address_text hex_encode a = address_text hex_encode b \<longleftrightarrow> a = b"
  by (simp add: address_text_def hex_crate_inject)

end
