(* ===== verification/Blocks.thy ===== *)
theory Blocks
  imports Core_Types
begin

text \<open>
  Blocks, receipts and logs as the RPC interface returns them, \<^verbatim>\<open>src/types/block.rs\<close>, with their hexadecimal
  text forms. A deserializer returns \<open>None\<close> where the source returns an error. The functions of the \<open>hex\<close>
  crate are the parameters \<open>hex_encode\<close> and \<open>hex_decode\<close>.
\<close>

type_synonym tx_hash = bytes

record block =
  blk_number :: u64
  blk_hash :: bytes
  blk_parent_hash :: bytes
  blk_state_root :: bytes
  blk_transactions_root :: bytes
  blk_receipts_root :: bytes
  blk_logs_bloom :: bytes
  blk_miner :: address
  blk_difficulty :: u64
  blk_total_difficulty :: u64
  blk_extra_data :: bytes
  blk_size :: u64
  blk_gas_limit :: u64
  blk_gas_used :: u64
  blk_timestamp :: u64
  blk_transactions :: "tx_hash list"
  blk_uncles :: "tx_hash list"
  blk_base_fee_per_gas :: u64
  blk_dag_events :: "event_id list"

definition block_genesis :: "u64 \<Rightarrow> block" where
  "block_genesis chain_id =
     \<lparr>blk_number = 0, blk_hash = replicate 32 0, blk_parent_hash = replicate 32 0, blk_state_root = replicate 32 0,
      blk_transactions_root = replicate 32 0, blk_receipts_root = replicate 32 0, blk_logs_bloom = replicate 256 0,
      blk_miner = address_zero, blk_difficulty = 0, blk_total_difficulty = 0,
      blk_extra_data = as_bytes (''Ryther Genesis - Chain '' @ decimal (unat chain_id)),
      blk_size = 0, blk_gas_limit = 30000000, blk_gas_used = 0, blk_timestamp = 0, blk_transactions = [],
      blk_uncles = [], blk_base_fee_per_gas = 1000000000, blk_dag_events = []\<rparr>"

definition block_hash_input :: "u64 \<Rightarrow> bytes \<Rightarrow> bytes \<Rightarrow> bytes" where
  "block_hash_input number parent_hash state_root = u64_to_le_bytes number @ parent_hash @ state_root"

definition block_from_round ::
    "hash_fn \<Rightarrow> u64 \<Rightarrow> bytes \<Rightarrow> bytes \<Rightarrow> bytes list \<Rightarrow> event_id list \<Rightarrow> address \<Rightarrow> u64 \<Rightarrow> u64 \<Rightarrow> block" where
  "block_from_round sha number parent_hash state_root transactions dag_events leader gas_used timestamp =
     (let hash = sha (block_hash_input number parent_hash state_root);
          tx_root = (if transactions = [] then replicate 32 0 else sha (concat transactions))
      in \<lparr>blk_number = number, blk_hash = hash, blk_parent_hash = parent_hash, blk_state_root = state_root,
          blk_transactions_root = tx_root, blk_receipts_root = replicate 32 0, blk_logs_bloom = replicate 256 0,
          blk_miner = leader, blk_difficulty = 0, blk_total_difficulty = 0, blk_extra_data = [],
          blk_size = word_of_nat (length transactions * 32), blk_gas_limit = 30000000, blk_gas_used = gas_used,
          blk_timestamp = timestamp, blk_transactions = transactions, blk_uncles = [],
          blk_base_fee_per_gas = 1000000000, blk_dag_events = dag_events\<rparr>)"

record receipt_log =
  rl_address :: address
  rl_topics :: "tx_hash list"
  rl_data :: bytes
  rl_block_number :: u64
  rl_transaction_hash :: tx_hash
  rl_transaction_index :: u64
  rl_block_hash :: tx_hash
  rl_log_index :: u64
  rl_removed :: bool

record transaction_receipt =
  tr_transaction_hash :: tx_hash
  tr_transaction_index :: u64
  tr_block_hash :: tx_hash
  tr_block_number :: u64
  tr_from :: address
  tr_to :: "address option"
  tr_cumulative_gas_used :: u64
  tr_gas_used :: u64
  tr_contract_address :: "address option"
  tr_logs :: "receipt_log list"
  tr_logs_bloom :: bytes
  tr_status :: u64
  tr_effective_gas_price :: u64
  tr_tx_type :: u64

datatype block_ident = BlockNumber u64 | BlockHash tx_hash | BlockTag string

definition block_ident_default :: block_ident where
  "block_ident_default = BlockTag ''latest''"

record log_filter =
  lf_from_block :: "block_ident option"
  lf_to_block :: "block_ident option"
  lf_address :: "address list option"
  lf_topics :: "tx_hash list option list option"

section \<open>Text forms\<close>

definition hex_u64_serialize :: "u64 \<Rightarrow> string" where
  "hex_u64_serialize v = format_0x v"

definition hex_u64_deserialize :: "string \<Rightarrow> u64 option" where
  "hex_u64_deserialize s = u64_from_hex (trim_0x s)"

definition hex_bytes_serialize :: "(bytes \<Rightarrow> string) \<Rightarrow> bytes \<Rightarrow> string" where
  "hex_bytes_serialize hex_encode bs = ''0x'' @ hex_encode bs"

definition hex_bytes_deserialize :: "(string \<Rightarrow> bytes option) \<Rightarrow> string \<Rightarrow> bytes option" where
  "hex_bytes_deserialize hex_decode s = hex_decode (trim_0x s)"

definition hex_array_deserialize :: "nat \<Rightarrow> (string \<Rightarrow> bytes option) \<Rightarrow> string \<Rightarrow> bytes option" where
  "hex_array_deserialize n hex_decode s =
     (case hex_decode (trim_0x s) of None \<Rightarrow> None | Some bs \<Rightarrow> if length bs \<noteq> n then None else Some bs)"

definition hex_bytes32_serialize :: "(bytes \<Rightarrow> string) \<Rightarrow> bytes \<Rightarrow> string" where
  "hex_bytes32_serialize hex_encode bs = ''0x'' @ hex_encode bs"

definition hex_bytes256_serialize :: "(bytes \<Rightarrow> string) \<Rightarrow> bytes \<Rightarrow> string" where
  "hex_bytes256_serialize hex_encode bs = ''0x'' @ hex_encode bs"

definition hex_bytes32_deserialize :: "(string \<Rightarrow> bytes option) \<Rightarrow> string \<Rightarrow> bytes option" where
  "hex_bytes32_deserialize hex_decode s = hex_array_deserialize 32 hex_decode s"

definition hex_bytes256_deserialize :: "(string \<Rightarrow> bytes option) \<Rightarrow> string \<Rightarrow> bytes option" where
  "hex_bytes256_deserialize hex_decode s = hex_array_deserialize 256 hex_decode s"

definition tx_hash_serialize :: "(bytes \<Rightarrow> string) \<Rightarrow> tx_hash \<Rightarrow> string" where
  "tx_hash_serialize hex_encode h = ''0x'' @ hex_encode h"

definition tx_hash_deserialize :: "(string \<Rightarrow> bytes option) \<Rightarrow> string \<Rightarrow> tx_hash option" where
  "tx_hash_deserialize hex_decode s = hex_array_deserialize 32 hex_decode s"

section \<open>Properties\<close>

text \<open>Text round trips. Every 64-bit number, every byte string and every array or hash of the
  right length is read back from the text it is written as, whatever encoder of the documented behaviour the
  \<open>hex\<close> crate is.\<close>

theorem block_text_roundtrip:
  assumes "hex_crate hex_encode hex_decode"
  shows "hex_u64_deserialize (hex_u64_serialize v) = Some v \<and>
    hex_bytes_deserialize hex_decode (hex_bytes_serialize hex_encode bs) = Some bs \<and>
    hex_bytes32_deserialize hex_decode (hex_bytes32_serialize hex_encode bs) = (if length bs = 32 then Some bs else None) \<and>
    hex_bytes256_deserialize hex_decode (hex_bytes256_serialize hex_encode bs) = (if length bs = 256 then Some bs else None) \<and>
    tx_hash_deserialize hex_decode (tx_hash_serialize hex_encode bs) = (if length bs = 32 then Some bs else None)"
proof -
  have "trim_0x (''0x'' @ hex_encode bs) = hex_encode bs" by (rule trim_0x_prefixed [OF hex_crate_text [OF assms]])
  moreover have "hex_decode (hex_encode bs) = Some bs" using assms by (simp add: hex_crate_def)
  ultimately show ?thesis
    by (simp add: hex_u64_deserialize_def hex_u64_serialize_def u64_hex_roundtrip hex_bytes_deserialize_def
        hex_bytes_serialize_def hex_bytes32_serialize_def hex_bytes256_serialize_def hex_bytes32_deserialize_def hex_bytes256_deserialize_def hex_array_deserialize_def
        tx_hash_deserialize_def tx_hash_serialize_def)
qed

theorem block_text_roundtrip_witness:
  "hex_bytes_deserialize plain_decode (hex_bytes_serialize plain_encode [1, 171]) = Some [1, 171]"
  using block_text_roundtrip [OF hex_crate_plain, of _ "[1, 171]"] by simp

text \<open>The block hash identifies number, parent and state root, and nothing else: blocks with different
  transactions, events, leader and gas have the same hash.\<close>

theorem block_hash_omits_transactions:
  assumes "length parent = 32" "length parent' = 32" and "inj_on sha {block_hash_input n parent root, block_hash_input n' parent' root'}"
  shows "blk_hash (block_from_round sha n parent root txs evs leader gas ts) = blk_hash (block_from_round sha n' parent' root' txs' evs' leader' gas' ts')
    \<longleftrightarrow> n = n' \<and> parent = parent' \<and> root = root'"
proof -
  have "sha (block_hash_input n parent root) = sha (block_hash_input n' parent' root') \<longleftrightarrow>
      block_hash_input n parent root = block_hash_input n' parent' root'"
    by (rule inj_on_eq_iff [OF assms(3)]) simp_all
  then show ?thesis
    using assms(1,2) by (auto simp: block_from_round_def Let_def block_hash_input_def u64_le.enc_append_inject)
qed

end
