(* ===== verification/Block_Store.thy ===== *)
theory Block_Store
  imports Blocks
begin

text \<open>
  Block storage for queries, \<^verbatim>\<open>src/node/blocks.rs\<close>.
\<close>

record block_store =
  bs_by_number :: "(u64, block) hmap"
  bs_by_hash :: "(bytes, block) hmap"
  bs_receipts :: "(bytes, transaction_receipt) hmap"
  bs_tx_to_block :: "(bytes, u64) hmap"
  bs_logs_by_block :: "(u64, receipt_log list) hmap"
  bs_latest :: u64

definition bstore_new :: block_store where
  "bstore_new = \<lparr>bs_by_number = [], bs_by_hash = [], bs_receipts = [], bs_tx_to_block = [],
     bs_logs_by_block = [], bs_latest = 0\<rparr>"

definition insert_block :: "block \<Rightarrow> block_store \<Rightarrow> block_store" where
  "insert_block b s =
     s\<lparr>bs_tx_to_block := fold (\<lambda>tx. hm_insert tx (blk_number b)) (blk_transactions b) (bs_tx_to_block s),
       bs_by_number := hm_insert (blk_number b) b (bs_by_number s),
       bs_by_hash := hm_insert (blk_hash b) b (bs_by_hash s),
       bs_latest := (if bs_latest s < blk_number b then blk_number b else bs_latest s)\<rparr>"

definition get_by_number :: "block_store \<Rightarrow> u64 \<Rightarrow> block option" where
  "get_by_number s number = hm_get (bs_by_number s) number"

definition get_by_hash :: "block_store \<Rightarrow> bytes \<Rightarrow> block option" where
  "get_by_hash s hash = hm_get (bs_by_hash s) hash"

definition latest_number :: "block_store \<Rightarrow> u64" where
  "latest_number s = bs_latest s"

definition latest_block :: "block_store \<Rightarrow> block option" where
  "latest_block s = get_by_number s (latest_number s)"

definition insert_receipt :: "bytes \<Rightarrow> transaction_receipt \<Rightarrow> block_store \<Rightarrow> block_store" where
  "insert_receipt tx_hash receipt s =
     (let block_num = tr_block_number receipt;
          entry = (case hm_get (bs_logs_by_block s) block_num of Some logs \<Rightarrow> logs | None \<Rightarrow> [])
      in s\<lparr>bs_logs_by_block := hm_insert block_num (entry @ tr_logs receipt) (bs_logs_by_block s),
           bs_receipts := hm_insert tx_hash receipt (bs_receipts s)\<rparr>)"

definition get_receipt :: "block_store \<Rightarrow> bytes \<Rightarrow> transaction_receipt option" where
  "get_receipt s tx_hash = hm_get (bs_receipts s) tx_hash"

definition get_tx_block :: "block_store \<Rightarrow> bytes \<Rightarrow> u64 option" where
  "get_tx_block s tx_hash = hm_get (bs_tx_to_block s) tx_hash"

text \<open>The loop over the topic filters, with the position reached: a filter is absent, or lists the topics it
  allows at its position.\<close>

fun topics_match :: "nat \<Rightarrow> bytes list option list \<Rightarrow> receipt_log \<Rightarrow> bool" where
  "topics_match i [] log = True"
| "topics_match i (topic_filter # topic_filters) log =
     (case topic_filter of
        None \<Rightarrow> topics_match (i + 1) topic_filters log
      | Some allowed \<Rightarrow>
          if length (rl_topics log) \<le> i then False
          else if rl_topics log ! i \<notin> set allowed then False
          else topics_match (i + 1) topic_filters log)"

definition log_matches :: "address list option \<Rightarrow> bytes list option list option \<Rightarrow> receipt_log \<Rightarrow> bool" where
  "log_matches addresses topics log =
     ((case addresses of None \<Rightarrow> True | Some addrs \<Rightarrow> rl_address log \<in> set addrs) \<and>
      (case topics of None \<Rightarrow> True | Some topic_filters \<Rightarrow> topics_match 0 topic_filters log))"

definition get_logs ::
    "block_store \<Rightarrow> u64 \<Rightarrow> u64 \<Rightarrow> address list option \<Rightarrow> bytes list option list option \<Rightarrow> receipt_log list" where
  "get_logs s from_block to_block addresses topics =
     concat (map (\<lambda>block_num.
        case hm_get (bs_logs_by_block s) block_num of
          Some block_logs \<Rightarrow> filter (log_matches addresses topics) block_logs
        | None \<Rightarrow> []) (u64_range_incl from_block to_block))"

definition block_count :: "block_store \<Rightarrow> nat" where
  "block_count s = length (bs_by_number s)"

section \<open>Contents of a store\<close>

definition insert_blocks :: "block list \<Rightarrow> block_store \<Rightarrow> block_store" where
  "insert_blocks bs s = fold insert_block bs s"

definition insert_receipts :: "(bytes \<times> transaction_receipt) list \<Rightarrow> block_store \<Rightarrow> block_store" where
  "insert_receipts rs s = fold (\<lambda>(h, r). insert_receipt h r) rs s"

lemma insert_blocks_snoc [simp]: "insert_blocks (bs @ [b]) s = insert_block b (insert_blocks bs s)"
  by (simp add: insert_blocks_def)

lemma insert_receipts_snoc [simp]: "insert_receipts (rs @ [(h, r)]) s = insert_receipt h r (insert_receipts rs s)"
  by (simp add: insert_receipts_def)

lemma tx_index_fold:
  "hm_get (fold (\<lambda>tx. hm_insert tx n) txs m) tx = (if tx \<in> set txs then Some n else hm_get m tx)"
  by (induction txs arbitrary: m) (auto simp: hm_lookup)

definition topic_ok :: "receipt_log \<Rightarrow> nat \<Rightarrow> bytes list option \<Rightarrow> bool" where
  "topic_ok log k topic_filter \<longleftrightarrow>
     (case topic_filter of None \<Rightarrow> True | Some allowed \<Rightarrow> k < length (rl_topics log) \<and> rl_topics log ! k \<in> set allowed)"

lemma topics_match_iff: "topics_match i filters log \<longleftrightarrow> (\<forall>j < length filters. topic_ok log (i + j) (filters ! j))"
proof (induction i filters log rule: topics_match.induct)
  case (2 i f fs log)
  then show ?case by (cases f) (auto simp: All_less_Suc2 topic_ok_def [of log i])
qed simp

lemma log_matches_iff:
  "log_matches addresses topics = (\<lambda>log. (\<forall>addrs. addresses = Some addrs \<longrightarrow> rl_address log \<in> set addrs) \<and>
     (\<forall>filters j allowed. topics = Some filters \<and> j < length filters \<and> filters ! j = Some allowed \<longrightarrow>
        j < length (rl_topics log) \<and> rl_topics log ! j \<in> set allowed))"
proof
  fix log
  have "(case topics of None \<Rightarrow> True | Some fs \<Rightarrow> topics_match 0 fs log) \<longleftrightarrow>
      (\<forall>filters j allowed. topics = Some filters \<and> j < length filters \<and> filters ! j = Some allowed \<longrightarrow>
        j < length (rl_topics log) \<and> rl_topics log ! j \<in> set allowed)"
    by (auto simp: topics_match_iff topic_ok_def split: option.splits)
  then show "log_matches addresses topics log = ((\<forall>addrs. addresses = Some addrs \<longrightarrow> rl_address log \<in> set addrs) \<and>
     (\<forall>filters j allowed. topics = Some filters \<and> j < length filters \<and> filters ! j = Some allowed \<longrightarrow>
        j < length (rl_topics log) \<and> rl_topics log ! j \<in> set allowed))"
    unfolding log_matches_def by (simp split: option.split)
qed

lemma logs_of_receipts:
  "hm_get (bs_logs_by_block (insert_receipts rs bstore_new)) n =
     (let rs' = filter (\<lambda>(h, r). tr_block_number r = n) rs
      in if rs' = [] then None else Some (concat (map (\<lambda>(h, r). tr_logs r) rs')))"
proof (induction rs rule: rev_induct)
  case Nil
  then show ?case by (simp add: insert_receipts_def bstore_new_def)
next
  case (snoc x rs)
  obtain h r where x: "x = (h, r)" by (cases x)
  show ?case by (cases "tr_block_number r = n") (simp_all add: x insert_receipt_def Let_def hm_lookup snoc)
qed

lemma get_by_number_blocks: "get_by_number (insert_blocks bs bstore_new) n = find (\<lambda>b. blk_number b = n) (rev bs)"
  by (induction bs rule: rev_induct)
    (auto simp: get_by_number_def insert_block_def hm_lookup, simp add: insert_blocks_def bstore_new_def)

section \<open>Properties\<close>

text \<open>The store answers from what was put in. After inserting blocks into a fresh store, a lookup
  by number, by hash or by transaction gives the last inserted block with that number or hash or the number
  of the last inserted block that lists the transaction; the latest number is the largest one; and the latest
  block is found unless no block was inserted.\<close>

theorem block_store_answers:
  "get_by_number (insert_blocks bs bstore_new) n = find (\<lambda>b. blk_number b = n) (rev bs) \<and>
   get_by_hash (insert_blocks bs bstore_new) h = find (\<lambda>b. blk_hash b = h) (rev bs) \<and>
   get_tx_block (insert_blocks bs bstore_new) tx = map_option blk_number (find (\<lambda>b. tx \<in> set (blk_transactions b)) (rev bs)) \<and>
   latest_number (insert_blocks bs bstore_new) = fold max (map blk_number bs) 0 \<and>
   (latest_block (insert_blocks bs bstore_new) = None \<longleftrightarrow> bs = [])"
proof (induction bs rule: rev_induct)
  case Nil
  then show ?case
    by (simp add: insert_blocks_def bstore_new_def get_by_number_def get_by_hash_def get_tx_block_def latest_number_def latest_block_def)
next
  case (snoc b bs)
  let ?s = "insert_blocks bs bstore_new"
  have max: "bs_latest (insert_block b ?s) = max (bs_latest ?s) (blk_number b)"
    by (auto simp: insert_block_def max_def)
  have "latest_block (insert_block b ?s) \<noteq> None"
  proof (cases "bs_latest ?s < blk_number b")
    case True
    then show ?thesis by (simp add: latest_block_def latest_number_def get_by_number_def insert_block_def hm_lookup)
  next
    case False
    show ?thesis
    proof (cases "bs = []")
      case True
      with False have "blk_number b = 0" by (simp add: insert_blocks_def bstore_new_def word_gt_0)
      with True show ?thesis
        by (simp add: latest_block_def latest_number_def get_by_number_def insert_block_def insert_blocks_def bstore_new_def)
    next
      case nonempty: False
      with snoc obtain l where "latest_block ?s = Some l" by blast
      with False show ?thesis
        by (simp add: latest_block_def latest_number_def get_by_number_def insert_block_def hm_lookup)
    qed
  qed
  with snoc max show ?case
    by (simp add: get_by_number_def get_by_hash_def get_tx_block_def latest_number_def insert_block_def hm_lookup
        tx_index_fold max.commute)
qed

text \<open>Property C35: log queries. After inserting receipts into a fresh store, a query returns, block by block in
  ascending order and within a block in insertion order, exactly the logs of the receipts in the range whose
  address is one of the given addresses, if any are given, and whose topics pass the filter, if one is given: every
  position that the filter constrains exists and holds one of the topics allowed there.\<close>

theorem get_logs_exact:
  "get_logs (insert_receipts rs bstore_new) lo hi addresses topics =
     concat (map (\<lambda>n. filter
         (\<lambda>log. (\<forall>addrs. addresses = Some addrs \<longrightarrow> rl_address log \<in> set addrs) \<and>
            (\<forall>filters j allowed. topics = Some filters \<and> j < length filters \<and> filters ! j = Some allowed \<longrightarrow>
               j < length (rl_topics log) \<and> rl_topics log ! j \<in> set allowed))
         (concat (map (\<lambda>(h, r). tr_logs r) (filter (\<lambda>(h, r). tr_block_number r = n) rs)))) (u64_range_incl lo hi))"
proof -
  have "(case hm_get (bs_logs_by_block (insert_receipts rs bstore_new)) n of
        Some logs \<Rightarrow> filter (log_matches addresses topics) logs | None \<Rightarrow> []) =
      filter (log_matches addresses topics) (concat (map (\<lambda>(h, r). tr_logs r) (filter (\<lambda>(h, r). tr_block_number r = n) rs)))" for n
    by (simp add: logs_of_receipts Let_def)
  then show ?thesis unfolding get_logs_def log_matches_iff by simp
qed

definition example_receipt :: transaction_receipt where
  "example_receipt = \<lparr>tr_transaction_hash = [1], tr_transaction_index = 0, tr_block_hash = [2], tr_block_number = 4,
     tr_from = [], tr_to = None, tr_cumulative_gas_used = 0, tr_gas_used = 0, tr_contract_address = None,
     tr_logs = [\<lparr>rl_address = [9], rl_topics = [[7]], rl_data = [], rl_block_number = 4, rl_transaction_hash = [1],
       rl_transaction_index = 0, rl_block_hash = [2], rl_log_index = 0, rl_removed = False\<rparr>],
     tr_logs_bloom = [], tr_status = 1, tr_effective_gas_price = 0, tr_tx_type = 0\<rparr>"

theorem get_logs_exact_witness:
  "get_logs (insert_receipts [([1], example_receipt)] bstore_new) 3 4 (Some [[9]]) (Some [Some [[7], [8]]]) = tr_logs example_receipt \<and>
   get_logs (insert_receipts [([1], example_receipt)] bstore_new) 3 4 (Some [[8]]) None = [] \<and>
   get_logs (insert_receipts [([1], example_receipt)] bstore_new) 3 4 (Some [[9]]) (Some [None, Some [[7]]]) = []"
proof -
  have "u64_range_incl 3 4 = [3, 4]" by (simp add: u64_range_incl_def upt_rec)
  then show ?thesis unfolding get_logs_exact by (auto simp: example_receipt_def less_Suc_eq)
qed

text \<open>Storing the receipt of a transaction again, as after a restart or a repeated commit, appends its logs a
  second time.\<close>

theorem repeated_receipt_duplicates_logs:
  "get_logs (insert_receipts [(h, r), (h, r)] bstore_new) (tr_block_number r) (tr_block_number r) None None = tr_logs r @ tr_logs r"
proof -
  have "u64_range_incl n n = [n]" for n by (simp add: u64_range_incl_def)
  then show ?thesis
    by (simp add: get_logs_def insert_receipts_def insert_receipt_def bstore_new_def hm_lookup Let_def log_matches_def)
qed

end
