(* ===== verification/Validator_Set.thy ===== *)
theory Validator_Set
  imports Core_Types
begin

text \<open>
  The stake-weighted validator set and the quorum tracker of \<^verbatim>\<open>src/types/validator.rs\<close>, with the
  quorum arithmetic at its 64-bit width.
\<close>

section \<open>The validator set\<close>

record validator_data =
  vd_stake :: u64
  vd_address :: address

record validator_set =
  vs_validators :: "(validator_id, validator_data) hmap"
  vs_total_stake :: u64

definition vs_new :: validator_set where
  "vs_new = \<lparr>vs_validators = [], vs_total_stake = 0\<rparr>"

definition vs_add :: "validator_id \<Rightarrow> u64 \<Rightarrow> address \<Rightarrow> validator_set \<Rightarrow> validator_set" where
  "vs_add i s a vs =
     (if s = 0 then vs
      else let vals = hm_insert i \<lparr>vd_stake = s, vd_address = a\<rparr> (vs_validators vs)
           in case hm_get (vs_validators vs) i of
                Some existing \<Rightarrow>
                  vs\<lparr>vs_validators := vals,
                     vs_total_stake := vs_total_stake vs - vd_stake existing + s\<rparr>
              | None \<Rightarrow> vs\<lparr>vs_validators := vals, vs_total_stake := vs_total_stake vs + s\<rparr>)"

definition vs_from_validators :: "(validator_id \<times> u64 \<times> address) list \<Rightarrow> validator_set" where
  "vs_from_validators l = fold (\<lambda>(i, s, a) vs. vs_add i s a vs) l vs_new"

definition vs_remove :: "validator_id \<Rightarrow> validator_set \<Rightarrow> u64 option \<times> validator_set" where
  "vs_remove i vs =
     (case hm_get (vs_validators vs) i of
        Some d \<Rightarrow>
          (Some (vd_stake d),
           vs\<lparr>vs_validators := hm_remove i (vs_validators vs),
              vs_total_stake := vs_total_stake vs - vd_stake d\<rparr>)
      | None \<Rightarrow> (None, vs))"

definition vs_contains :: "validator_set \<Rightarrow> validator_id \<Rightarrow> bool" where
  "vs_contains vs i = hm_contains (vs_validators vs) i"

definition vs_stake :: "validator_set \<Rightarrow> validator_id \<Rightarrow> u64 option" where
  "vs_stake vs i = map_option vd_stake (hm_get (vs_validators vs) i)"

definition vs_get_address :: "validator_set \<Rightarrow> validator_id \<Rightarrow> address option" where
  "vs_get_address vs i = map_option vd_address (hm_get (vs_validators vs) i)"

definition vs_len :: "validator_set \<Rightarrow> nat" where
  "vs_len vs = length (vs_validators vs)"

definition vs_is_empty :: "validator_set \<Rightarrow> bool" where
  "vs_is_empty vs = (vs_validators vs = [])"

definition vs_iter :: "validator_set \<Rightarrow> (validator_id \<times> u64) list" where
  "vs_iter vs = map (\<lambda>(k, v). (k, vd_stake v)) (vs_validators vs)"

definition vs_validator_ids :: "validator_set \<Rightarrow> validator_id list" where
  "vs_validator_ids vs = map fst (vs_validators vs)"

definition vs_quorum_threshold :: "validator_set \<Rightarrow> u64" where
  "vs_quorum_threshold vs = vs_total_stake vs * 2 div 3 + 1"

definition vs_fault_threshold :: "validator_set \<Rightarrow> u64" where
  "vs_fault_threshold vs = vs_total_stake vs div 3"

definition vs_stake_for :: "validator_set \<Rightarrow> validator_id hset \<Rightarrow> u64" where
  "vs_stake_for vs voters = sum_list (List.map_filter (vs_stake vs) voters)"

definition vs_has_quorum :: "validator_set \<Rightarrow> validator_id hset \<Rightarrow> bool" where
  "vs_has_quorum vs voters \<longleftrightarrow>
     vs_quorum_threshold vs \<le> sum_list (List.map_filter (vs_stake vs) voters)"

section \<open>The quorum tracker\<close>

definition vs_quorum_intersection_guaranteed :: "validator_set \<Rightarrow> bool" where
  "vs_quorum_intersection_guaranteed vs = True"

record quorum_tracker =
  qt_target :: bytes
  qt_supporters :: "validator_id hset"
  qt_validator_set :: validator_set

definition qt_new :: "bytes \<Rightarrow> validator_set \<Rightarrow> quorum_tracker" where
  "qt_new target vs = \<lparr>qt_target = target, qt_supporters = [], qt_validator_set = vs\<rparr>"

definition qt_has_quorum :: "quorum_tracker \<Rightarrow> bool" where
  "qt_has_quorum q = vs_has_quorum (qt_validator_set q) (qt_supporters q)"

definition qt_add_support :: "validator_id \<Rightarrow> quorum_tracker \<Rightarrow> bool \<times> quorum_tracker" where
  "qt_add_support v q =
     (let was_quorum = qt_has_quorum q;
          q' = q\<lparr>qt_supporters := List.insert v (qt_supporters q)\<rparr>
      in (\<not> was_quorum \<and> qt_has_quorum q', q'))"

definition qt_current_stake :: "quorum_tracker \<Rightarrow> u64" where
  "qt_current_stake q = vs_stake_for (qt_validator_set q) (qt_supporters q)"

definition qt_stake_needed :: "quorum_tracker \<Rightarrow> u64" where
  "qt_stake_needed q =
     (let threshold = vs_quorum_threshold (qt_validator_set q); current = qt_current_stake q
      in if threshold < current then 0 else threshold - current)"

definition qt_supporter_count :: "quorum_tracker \<Rightarrow> nat" where
  "qt_supporter_count q = length (qt_supporters q)"

section \<open>Invariant\<close>

text \<open>The stake of all validators as a number, and of one validator (0 outside the set).\<close>

definition stake_sum :: "validator_set \<Rightarrow> nat" where
  "stake_sum vs = sum_list (map (\<lambda>(k, v). unat (vd_stake v)) (vs_validators vs))"

definition stake_of :: "validator_set \<Rightarrow> validator_id \<Rightarrow> nat" where
  "stake_of vs i = (case vs_stake vs i of None \<Rightarrow> 0 | Some s \<Rightarrow> unat s)"

text \<open>The two invariants the source states for the type: the cached total is the sum of the stakes
  (in 64-bit arithmetic), and all stakes are positive.\<close>

definition vs_inv :: "validator_set \<Rightarrow> bool" where
  "vs_inv vs \<longleftrightarrow> hm_wf (vs_validators vs) \<and>
     (\<forall>(k, d) \<in> set (vs_validators vs). 0 < vd_stake d) \<and>
     vs_total_stake vs = word_of_nat (stake_sum vs)"

lemma sum_list_update:
  fixes f :: "'v \<Rightarrow> nat"
  assumes "hm_wf m"
  shows "sum_list (map (\<lambda>(k, v). f v) (hm_insert i d m)) + (case hm_get m i of None \<Rightarrow> 0 | Some e \<Rightarrow> f e)
    = sum_list (map (\<lambda>(k, v). f v) m) + f d"
  using assms by (induction m) (auto split: option.splits)

lemma sum_list_delete:
  fixes f :: "'v \<Rightarrow> nat"
  assumes "hm_wf m"
  shows "sum_list (map (\<lambda>(k, v). f v) (hm_remove i m)) + (case hm_get m i of None \<Rightarrow> 0 | Some e \<Rightarrow> f e)
    = sum_list (map (\<lambda>(k, v). f v) m)"
  using assms
proof (induction m)
  case (Cons p m)
  from Cons show ?case by (cases p) (auto split: option.splits)
qed simp

lemma word_of_nat_sub: "a + c = b \<Longrightarrow> (word_of_nat a :: u64) = word_of_nat b - word_of_nat c"
  by auto

lemma vs_inv_new: "vs_inv vs_new"
  by (simp add: vs_inv_def vs_new_def stake_sum_def)

lemma vs_inv_add: "vs_inv vs \<Longrightarrow> vs_inv (vs_add i s a vs)"
proof (cases "s = 0")
  case False
  assume inv: "vs_inv vs"
  let ?m = "vs_validators vs" and ?d = "\<lparr>vd_stake = s, vd_address = a\<rparr>"
  have wf: "hm_wf ?m" using inv by (simp add: vs_inv_def)
  have sum: "stake_sum (vs\<lparr>vs_validators := hm_insert i ?d ?m, vs_total_stake := t\<rparr>) +
      (case hm_get ?m i of None \<Rightarrow> 0 | Some e \<Rightarrow> unat (vd_stake e)) = stake_sum vs + unat s" for t
    using sum_list_update [OF wf, of "\<lambda>d. unat (vd_stake d)" i ?d] by (simp add: stake_sum_def)
  have pos: "\<forall>(k, d) \<in> set (hm_insert i ?d ?m). 0 < vd_stake d"
    using set_hm_insert [of i ?d ?m] inv False by (fastforce simp: vs_inv_def word_neq_0_conv)
  show ?thesis
  proof (cases "hm_get ?m i")
    case None
    with sum have "stake_sum (vs_add i s a vs) = stake_sum vs + unat s"
      using False by (simp add: vs_add_def)
    with None False inv pos wf show ?thesis
      by (simp add: vs_inv_def vs_add_def distinct_update)
  next
    case (Some e)
    with sum have "stake_sum (vs_add i s a vs) + unat (vd_stake e) = stake_sum vs + unat s"
      using False by (simp add: vs_add_def)
    then have "word_of_nat (stake_sum (vs_add i s a vs)) =
        (word_of_nat (stake_sum vs) - vd_stake e + s :: u64)"
      using word_of_nat_sub by fastforce
    with Some False inv pos wf show ?thesis
      by (simp add: vs_inv_def vs_add_def distinct_update)
  qed
qed (simp add: vs_add_def)

lemma vs_inv_remove: "vs_inv vs \<Longrightarrow> vs_inv (snd (vs_remove i vs))"
proof (cases "hm_get (vs_validators vs) i")
  case (Some d)
  assume inv: "vs_inv vs"
  then have wf: "hm_wf (vs_validators vs)" by (simp add: vs_inv_def)
  have "stake_sum (snd (vs_remove i vs)) + unat (vd_stake d) = stake_sum vs"
    using sum_list_delete [OF wf, of "\<lambda>d. unat (vd_stake d)" i] Some
    by (simp add: stake_sum_def vs_remove_def)
  then have "word_of_nat (stake_sum (snd (vs_remove i vs))) =
      (word_of_nat (stake_sum vs) - vd_stake d :: u64)"
    using word_of_nat_sub by fastforce
  with Some inv wf show ?thesis
    by (auto simp: vs_inv_def vs_remove_def distinct_delete set_hm_remove)
qed (simp add: vs_remove_def)

lemma vs_inv_from_validators: "vs_inv (vs_from_validators l)"
proof -
  have "vs_inv vs \<Longrightarrow> vs_inv (fold (\<lambda>(i, s, a) vs. vs_add i s a vs) l vs)" for vs
    by (induction l arbitrary: vs) (auto intro: vs_inv_add)
  then show ?thesis by (simp add: vs_from_validators_def vs_inv_new)
qed

lemma vs_stake_add:
  "vs_stake (vs_add i s a vs) j =
     (if s \<noteq> 0 \<and> j = i then Some s else vs_stake vs j)"
  by (auto simp: vs_stake_def vs_add_def Let_def hmap_simps split: option.splits)

lemma vs_stake_remove:
  "vs_stake (snd (vs_remove i vs)) j = (if j = i then None else vs_stake vs j)"
  by (auto simp: vs_stake_def vs_remove_def hmap_simps split: option.splits)

section \<open>Stake as a number\<close>

lemma stake_of_sum:
  assumes "hm_wf (vs_validators vs)" and "finite S"
  shows "(\<Sum>v \<in> S. stake_of vs v) \<le> stake_sum vs"
proof -
  let ?m = "vs_validators vs"
  have out: "stake_of vs v = 0" if "v \<notin> fst ` set ?m" for v
    using that by (simp add: stake_of_def vs_stake_def flip: map_of_eq_None_iff)
  have "stake_sum vs = (\<Sum>p \<leftarrow> ?m. stake_of vs (fst p))"
    unfolding stake_sum_def
    using assms(1) by (intro arg_cong [where f = sum_list] map_cong)
      (auto simp: stake_of_def vs_stake_def)
  also have "\<dots> = (\<Sum>v \<leftarrow> map fst ?m. stake_of vs v)"
    by (simp add: comp_def)
  also have "\<dots> = (\<Sum>v \<in> fst ` set ?m. stake_of vs v)"
    using sum_list_distinct_conv_sum_set [OF assms(1), of "stake_of vs"] by (simp only: set_map)
  finally have "stake_sum vs = (\<Sum>v \<in> fst ` set ?m. stake_of vs v)" .
  moreover have "(\<Sum>v \<in> S. stake_of vs v) = (\<Sum>v \<in> S \<inter> fst ` set ?m. stake_of vs v)"
    using assms(2) out by (intro sum.mono_neutral_right) auto
  moreover have "(\<Sum>v \<in> S \<inter> fst ` set ?m. stake_of vs v) \<le> (\<Sum>v \<in> fst ` set ?m. stake_of vs v)"
    by (rule sum_mono2) auto
  ultimately show ?thesis by simp
qed

lemma stake_for_word:
  "distinct voters \<Longrightarrow> vs_stake_for vs voters = word_of_nat (\<Sum>v \<in> set voters. stake_of vs v)"
proof (induction voters)
  case (Cons v voters)
  then show ?case
    by (auto simp: vs_stake_for_def List.map_filter_simps stake_of_def split: option.splits)
qed (simp add: vs_stake_for_def List.map_filter_simps)

lemma unat_stake_for:
  assumes "vs_inv vs" and "stake_sum vs < 2 ^ 64" and "distinct voters"
  shows "unat (vs_stake_for vs voters) = (\<Sum>v \<in> set voters. stake_of vs v)"
proof -
  have "(\<Sum>v \<in> set voters. stake_of vs v) \<le> stake_sum vs"
    using assms(1) by (intro stake_of_sum) (auto simp: vs_inv_def)
  then show ?thesis
    unfolding stake_for_word [OF assms(3)] unat_of_nat using assms(2) by simp
qed

lemma unat_total_stake:
  "vs_inv vs \<Longrightarrow> stake_sum vs < 2 ^ 64 \<Longrightarrow> unat (vs_total_stake vs) = stake_sum vs"
  by (simp add: vs_inv_def unat_of_nat)

lemma unat_quorum_threshold:
  assumes "vs_inv vs" and "stake_sum vs < 2 ^ 63"
  shows "unat (vs_quorum_threshold vs) = 2 * stake_sum vs div 3 + 1"
proof -
  have t: "unat (vs_total_stake vs) = stake_sum vs"
    using assms by (intro unat_total_stake) auto
  have "unat (vs_total_stake vs * 2) = stake_sum vs * 2"
    using assms(2) t by (simp add: unat_word_ariths)
  then have "unat (vs_total_stake vs * 2 div 3) = stake_sum vs * 2 div 3"
    by (simp add: unat_div)
  then show ?thesis
    using assms(2) unfolding vs_quorum_threshold_def
    by (subst u64_add_nowrap) (auto simp: mult.commute)
qed

lemma has_quorum_iff:
  assumes "vs_inv vs" and "stake_sum vs < 2 ^ 63" and "distinct voters"
  shows "vs_has_quorum vs voters \<longleftrightarrow> 2 * stake_sum vs < 3 * (\<Sum>v \<in> set voters. stake_of vs v)"
proof -
  have "vs_has_quorum vs voters \<longleftrightarrow> unat (vs_quorum_threshold vs) \<le> unat (vs_stake_for vs voters)"
    by (simp add: vs_has_quorum_def vs_stake_for_def word_le_nat_alt)
  also have "\<dots> \<longleftrightarrow> 2 * stake_sum vs div 3 + 1 \<le> (\<Sum>v \<in> set voters. stake_of vs v)"
    using assms by (simp add: unat_quorum_threshold unat_stake_for)
  finally show ?thesis by linarith
qed

text \<open>What the clients of a validator set rely on: a quorum is more than two thirds of the weight.
  Growing a quorum keeps it one, and two quorums share more weight than a third of the total.\<close>

locale weighted_quorums =
  fixes valid :: "'s \<Rightarrow> bool"
    and quorum :: "'s \<Rightarrow> 'v list \<Rightarrow> bool"
    and weight :: "'s \<Rightarrow> 'v \<Rightarrow> nat"
    and total :: "'s \<Rightarrow> nat"
  assumes quorum_iff: "valid s \<Longrightarrow> distinct q \<Longrightarrow> quorum s q \<longleftrightarrow> 2 * total s < 3 * (\<Sum>v \<in> set q. weight s v)"
    and weight_le_total: "valid s \<Longrightarrow> finite S \<Longrightarrow> (\<Sum>v \<in> S. weight s v) \<le> total s"
begin

lemma quorum_mono:
  assumes "valid s" and "distinct q" and "distinct q'" and "set q \<subseteq> set q'" and "quorum s q"
  shows "quorum s q'"
proof -
  have "(\<Sum>v \<in> set q. weight s v) \<le> (\<Sum>v \<in> set q'. weight s v)"
    using assms(4) by (intro sum_mono2) auto
  with assms show ?thesis by (simp add: quorum_iff)
qed

lemma quorums_share_third:
  assumes "valid s" and "distinct q1" and "distinct q2" and "quorum s q1" and "quorum s q2"
  shows "total s < 3 * (\<Sum>v \<in> set q1 \<inter> set q2. weight s v)"
proof -
  let ?s = "\<lambda>S. \<Sum>v \<in> S. weight s v"
  have "?s (set q1) + ?s (set q2) = ?s (set q1 \<union> set q2) + ?s (set q1 \<inter> set q2)"
    by (simp add: sum.union_inter)
  moreover have "?s (set q1 \<union> set q2) \<le> total s"
    using assms(1) by (intro weight_le_total) auto
  moreover have "2 * total s < 3 * ?s (set q1)" "2 * total s < 3 * ?s (set q2)"
    using assms quorum_iff by auto
  ultimately show ?thesis by linarith
qed

lemma quorums_share_outside:
  assumes "valid s" and "distinct q1" and "distinct q2" and "quorum s q1" and "quorum s q2"
    and "finite B" and "3 * (\<Sum>v \<in> B. weight s v) \<le> total s"
  shows "\<exists>v. v \<in> set q1 \<and> v \<in> set q2 \<and> v \<notin> B \<and> weight s v \<noteq> 0"
proof (rule ccontr)
  let ?s = "\<lambda>S. \<Sum>v \<in> S. weight s v"
  assume "\<not> ?thesis"
  then have "?s (set q1 \<inter> set q2) = ?s (set q1 \<inter> set q2 \<inter> B)"
    by (intro sum.mono_neutral_right) auto
  also have "\<dots> \<le> ?s B" using assms(6) by (intro sum_mono2) auto
  finally show False using quorums_share_third [OF assms(1-5)] assms(7) by simp
qed

end

definition vs_ok :: "validator_set \<Rightarrow> bool" where
  "vs_ok vs \<longleftrightarrow> vs_inv vs \<and> stake_sum vs < 2 ^ 63"

interpretation vq: weighted_quorums vs_ok vs_has_quorum stake_of stake_sum
  by unfold_locales (auto simp: vs_ok_def has_quorum_iff vs_inv_def intro: stake_of_sum)

definition qt_wf :: "quorum_tracker \<Rightarrow> bool" where
  "qt_wf q \<longleftrightarrow> vs_ok (qt_validator_set q) \<and> distinct (qt_supporters q)"

fun qt_add_all :: "validator_id list \<Rightarrow> quorum_tracker \<Rightarrow> bool list \<times> quorum_tracker" where
  "qt_add_all [] q = ([], q)"
| "qt_add_all (v # vs) q =
     (let (r, q') = qt_add_support v q; (rs, q'') = qt_add_all vs q' in (r # rs, q''))"

lemma qt_add_support_wf: "qt_wf q \<Longrightarrow> qt_wf (snd (qt_add_support v q))"
  by (simp add: qt_wf_def qt_add_support_def Let_def)

lemma qt_add_support_keeps:
  assumes "qt_wf q" and "qt_has_quorum q"
  shows "qt_add_support v q = (False, snd (qt_add_support v q)) \<and> qt_has_quorum (snd (qt_add_support v q))"
  using assms
  by (auto simp: qt_wf_def qt_add_support_def qt_has_quorum_def Let_def
      intro: vq.quorum_mono [where q = "qt_supporters q"])

lemma qt_add_all_after_quorum:
  assumes "qt_wf q" and "qt_has_quorum q" and "qt_add_all vs q = (rs, q')"
  shows "True \<notin> set rs \<and> qt_has_quorum q'"
  using assms
proof (induction vs arbitrary: q rs)
  case (Cons v vs)
  obtain r q1 where 1: "qt_add_support v q = (r, q1)" by (cases "qt_add_support v q")
  obtain rs1 where 2: "qt_add_all vs q1 = (rs1, q')" and rs: "rs = r # rs1"
    using Cons.prems(3) 1 by (auto split: prod.splits)
  have "qt_wf q1" "qt_has_quorum q1" "r = False"
    using qt_add_support_wf [OF Cons.prems(1), of v] qt_add_support_keeps [OF Cons.prems(1,2), of v] 1
    by auto
  with Cons.IH [OF _ _ 2] rs show ?case by simp
qed simp

section \<open>Properties\<close>

text \<open>Property C9: Byzantine quorum intersection. Two sets of voters that both pass \<open>has_quorum\<close> share
  more than a third of the total stake, so they share a validator outside any set whose stake is at
  most the \<open>fault_threshold\<close>. (The total stake must be below \<open>2 ^ 63\<close>: the threshold computation
  doubles it.)\<close>

theorem quorum_intersection:
  assumes inv: "vs_inv vs" and bound: "stake_sum vs < 2 ^ 63"
    and d1: "distinct q1" and d2: "distinct q2"
    and 1: "vs_has_quorum vs q1" and 2: "vs_has_quorum vs q2"
    and byz: "finite B" "(\<Sum>v \<in> B. stake_of vs v) \<le> unat (vs_fault_threshold vs)"
  shows "stake_sum vs < 3 * (\<Sum>v \<in> set q1 \<inter> set q2. stake_of vs v) \<and>
    (\<exists>v. v \<in> set q1 \<and> v \<in> set q2 \<and> v \<notin> B \<and> vs_contains vs v)"
proof -
  have ok: "vs_ok vs" using inv bound by (simp add: vs_ok_def)
  have "unat (vs_fault_threshold vs) = stake_sum vs div 3"
    using inv bound by (simp add: vs_fault_threshold_def unat_div unat_total_stake)
  with byz(2) have "3 * (\<Sum>v \<in> B. stake_of vs v) \<le> stake_sum vs" by linarith
  from vq.quorums_share_outside [OF ok d1 d2 1 2 byz(1) this]
  have "\<exists>v. v \<in> set q1 \<and> v \<in> set q2 \<and> v \<notin> B \<and> vs_contains vs v"
    by (auto simp: stake_of_def vs_stake_def vs_contains_def split: option.splits)
  with vq.quorums_share_third [OF ok d1 d2 1 2] show ?thesis by blast
qed

definition example_set :: validator_set where
  "example_set = vs_from_validators [([1], 34, []), ([2], 33, []), ([3], 33, [])]"

lemma example_set_eval:
  "example_set = \<lparr>vs_validators = [([1], \<lparr>vd_stake = 34, vd_address = []\<rparr>),
     ([2], \<lparr>vd_stake = 33, vd_address = []\<rparr>), ([3], \<lparr>vd_stake = 33, vd_address = []\<rparr>)],
     vs_total_stake = 100\<rparr>"
  by (simp add: example_set_def vs_from_validators_def vs_add_def vs_new_def)

theorem quorum_intersection_witness:
  "vs_has_quorum example_set [[1], [2]] \<and> vs_has_quorum example_set [[3], [1]] \<and>
   (\<exists>v. v \<in> set [[1], [2]] \<and> v \<in> set [[3], [1]] \<and> v \<notin> {[2]} \<and> vs_contains example_set v)"
proof -
  have inv: "vs_inv example_set" unfolding example_set_def by (rule vs_inv_from_validators)
  have b: "stake_sum example_set < 2 ^ 63" by (simp add: example_set_eval stake_sum_def)
  have q: "vs_has_quorum example_set [[1], [2]]" "vs_has_quorum example_set [[3], [1]]"
    by (simp_all add: example_set_eval vs_has_quorum_def vs_quorum_threshold_def vs_stake_def
        List.map_filter_simps)
  have f: "(\<Sum>v \<in> {[2]}. stake_of example_set v) \<le> unat (vs_fault_threshold example_set)"
    by (simp add: example_set_eval stake_of_def vs_stake_def vs_fault_threshold_def)
  show ?thesis
    using quorum_intersection [OF inv b _ _ q _ f] q by simp
qed

text \<open>In any sequence of \<open>add_support\<close> calls on a fresh tracker, quorum is announced at
  most once, and it has been announced at the end exactly if the supporters hold a quorum.\<close>

theorem tracker_announces_quorum_once:
  assumes "vs_inv vals" and "stake_sum vals < 2 ^ 63"
    and run: "qt_add_all voters (qt_new target vals) = (rs, q)"
  shows "count_list rs True \<le> 1 \<and> (True \<in> set rs \<longleftrightarrow> qt_has_quorum q)"
proof -
  have "count_list rs True \<le> 1 \<and> (True \<in> set rs \<longleftrightarrow> qt_has_quorum q)"
    if "qt_wf t" "\<not> qt_has_quorum t" "qt_add_all voters t = (rs, q)" for t
    using that
  proof (induction voters arbitrary: t rs)
    case (Cons v voters)
    obtain r q1 where 1: "qt_add_support v t = (r, q1)" by (cases "qt_add_support v t")
    obtain rs1 where 2: "qt_add_all voters q1 = (rs1, q)" and rs: "rs = r # rs1"
      using Cons.prems(3) 1 by (auto split: prod.splits)
    have wf: "qt_wf q1" using qt_add_support_wf [OF Cons.prems(1), of v] 1 by simp
    have r: "r = qt_has_quorum q1"
      using 1 Cons.prems(2) by (auto simp: qt_add_support_def Let_def)
    show ?case
    proof (cases r)
      case True
      with r qt_add_all_after_quorum [OF wf _ 2] have "True \<notin> set rs1" "qt_has_quorum q" by auto
      with True rs show ?thesis by (simp add: count_list_0_iff)
    next
      case False
      with r Cons.IH [OF wf _ 2] rs show ?thesis by simp
    qed
  qed simp
  moreover have "qt_wf (qt_new target vals)" using assms by (simp add: qt_wf_def qt_new_def vs_ok_def)
  moreover have "\<not> qt_has_quorum (qt_new target vals)"
    using has_quorum_iff [OF assms(1,2), of "[]"] by (simp add: qt_has_quorum_def qt_new_def)
  ultimately show ?thesis using run by blast
qed

theorem tracker_announces_quorum_once_witness:
  "fst (qt_add_all [[1], [1], [2], [3]] (qt_new [] example_set)) = [False, False, True, False] \<and>
   count_list (fst (qt_add_all [[1], [1], [2], [3]] (qt_new [] example_set))) True \<le> 1"
proof -
  have inv: "vs_inv example_set" unfolding example_set_def by (rule vs_inv_from_validators)
  have b: "stake_sum example_set < 2 ^ 63" by (simp add: example_set_eval stake_sum_def)
  obtain rs q where run: "qt_add_all [[1], [1], [2], [3]] (qt_new [] example_set) = (rs, q)"
    by (cases "qt_add_all [[1], [1], [2], [3]] (qt_new [] example_set)")
  have "rs = [False, False, True, False]"
    using run by (auto simp: example_set_eval qt_new_def qt_add_support_def qt_has_quorum_def
        vs_has_quorum_def vs_quorum_threshold_def vs_stake_def List.map_filter_simps List.insert_def)
  with tracker_announces_quorum_once [OF inv b run] run show ?thesis by simp
qed

text \<open>The invariant the source states for the quorum threshold,
  \<open>quorum_threshold > 2 * total_stake / 3\<close>, holds for every set built by \<open>add\<close> and \<open>remove\<close> whose
  stake is below \<open>2 ^ 63\<close>, and fails from there on: with a total stake of exactly \<open>2 ^ 63\<close> the
  doubling wraps around and one unit of stake is a quorum.\<close>

theorem quorum_threshold_bound:
  "(\<forall>vs. vs_inv vs \<and> stake_sum vs < 2 ^ 63 \<longrightarrow>
      2 * stake_sum vs < 3 * unat (vs_quorum_threshold vs)) \<and>
   (\<exists>vs. vs_inv vs \<and> stake_sum vs = 2 ^ 63 \<and> vs_quorum_threshold vs = 1)"
proof (intro conjI allI impI)
  fix vs assume "vs_inv vs \<and> stake_sum vs < 2 ^ 63"
  then show "2 * stake_sum vs < 3 * unat (vs_quorum_threshold vs)"
    by (simp add: unat_quorum_threshold)
next
  let ?vs = "vs_from_validators [([1], 0x8000000000000000, [])]"
  have "stake_sum ?vs = 2 ^ 63" "vs_quorum_threshold ?vs = 1"
    by (simp_all add: vs_from_validators_def vs_add_def vs_new_def stake_sum_def
        vs_quorum_threshold_def)
  with vs_inv_from_validators
  show "\<exists>vs. vs_inv vs \<and> stake_sum vs = 2 ^ 63 \<and> vs_quorum_threshold vs = 1" by blast
qed

theorem quorum_threshold_bound_witness:
  "vs_inv example_set \<and> vs_quorum_threshold example_set = 67 \<and>
   2 * stake_sum example_set < 3 * unat (vs_quorum_threshold example_set)"
proof -
  have inv: "vs_inv example_set" unfolding example_set_def by (rule vs_inv_from_validators)
  have b: "stake_sum example_set < 2 ^ 63" by (simp add: example_set_eval stake_sum_def)
  have "vs_quorum_threshold example_set = 67"
    by (simp add: example_set_eval vs_quorum_threshold_def)
  with quorum_threshold_bound inv b show ?thesis by blast
qed

text \<open>The source guarantees the intersection of quorums unconditionally, which is too much: from a total stake of
  \<open>2 ^ 63\<close> on there are sets with two disjoint quorums.\<close>

theorem quorum_intersection_overclaimed:
  "\<exists>vs q1 q2. vs_inv vs \<and> vs_quorum_intersection_guaranteed vs \<and> vs_has_quorum vs q1 \<and> vs_has_quorum vs q2 \<and>
     distinct q1 \<and> distinct q2 \<and> set q1 \<inter> set q2 = {}"
proof -
  let ?vs = "vs_from_validators [([1], 0x4000000000000000, []), ([2], 0x4000000000000000, [])]"
  have "vs_has_quorum ?vs [[1]]" "vs_has_quorum ?vs [[2]]"
    by (simp_all add: vs_from_validators_def vs_add_def vs_new_def vs_has_quorum_def vs_quorum_threshold_def
        vs_stake_def List.map_filter_simps)
  moreover have "vs_inv ?vs" by (rule vs_inv_from_validators)
  moreover have "vs_quorum_intersection_guaranteed ?vs" by (simp add: vs_quorum_intersection_guaranteed_def)
  ultimately show ?thesis by (intro exI [of _ ?vs] exI [of _ "[[1]]"] exI [of _ "[[2]]"]) simp
qed

end
