(* ===== verification/Leader_Election.thy ===== *)
theory Leader_Election
  imports Validator_Set
begin

text \<open>
  Leader election, \<^verbatim>\<open>src/consensus/leader.rs\<close>. SHA-256 is the parameter \<open>sha\<close>; the remainder by the
  total stake panics when the (64-bit) total is 0.
\<close>

definition leader_input :: "u64 \<Rightarrow> bytes \<Rightarrow> bytes" where
  "leader_input round seed = u64_to_le_bytes round @ seed"

fun pick_leader :: "(validator_id \<times> u64) list \<Rightarrow> u64 \<Rightarrow> u64 \<Rightarrow> validator_id option" where
  "pick_leader [] cumulative target = None"
| "pick_leader ((v, stake) # validators) cumulative target =
     (let cumulative' = cumulative + stake in
      if target < cumulative' then Some v else pick_leader validators cumulative' target)"

definition elect_leader :: "hash_fn \<Rightarrow> validator_set \<Rightarrow> u64 \<Rightarrow> bytes \<Rightarrow> panic + validator_id option" where
  "elect_leader sha vs round seed =
     (if vs_is_empty vs then Inr None
      else let validators = sort_key fst (vs_iter vs);
               hash = sha (leader_input round seed);
               random_value = u64_from_le_bytes (take 8 hash)
           in if vs_total_stake vs = 0 then Inl RemByZero
              else Inr (pick_leader validators 0 (random_value mod vs_total_stake vs)))"

definition derive_next_seed :: "hash_fn \<Rightarrow> event_id \<Rightarrow> bytes" where
  "derive_next_seed sha anchor_id = sha anchor_id"

section \<open>The weighted choice\<close>

definition stakes :: "(validator_id \<times> u64) list \<Rightarrow> nat" where
  "stakes l = sum_list (map (unat \<circ> snd) l)"

lemma stakes_simps [simp]: "stakes [] = 0" "stakes ((v, s) # l) = unat s + stakes l"
  by (simp_all add: stakes_def)

lemma pick_leader_covers:
  assumes "unat c + stakes l < 2 ^ 64" and "unat t < unat c + stakes l" and "c \<le> t"
  shows "\<exists>v s. pick_leader l c t = Some v \<and> (v, s) \<in> set l"
  using assms
proof (induction l c t rule: pick_leader.induct)
  case (2 v s l c t)
  have c: "unat (c + s) = unat c + unat s" using "2.prems"(1) by (intro u64_add_nowrap) simp
  show ?case
  proof (cases "t < c + s")
    case False
    then have "c + s \<le> t" by simp
    with "2.IH" [OF refl False] "2.prems" c obtain w r
      where "pick_leader l (c + s) t = Some w" "(w, r) \<in> set l" by (auto simp: add.assoc)
    with False show ?thesis by (auto simp: Let_def)
  qed (auto simp: Let_def)
qed (simp add: u64_le_iff)

text \<open>The targets from the cumulative stake up to the end of the list that select a given validator.\<close>

definition targets_for :: "(validator_id \<times> u64) list \<Rightarrow> u64 \<Rightarrow> validator_id \<Rightarrow> nat set" where
  "targets_for l c v = {n. unat c \<le> n \<and> n < unat c + stakes l \<and> pick_leader l c (word_of_nat n) = Some v}"

lemma targets_for_Cons:
  assumes "unat c + stakes ((w, s) # l) < 2 ^ 64"
  shows "targets_for ((w, s) # l) c v =
    (if w = v then {unat c ..< unat c + unat s} else {}) \<union> targets_for l (c + s) v"
proof -
  have c: "unat (c + s) = unat c + unat s" using assms by (intro u64_add_nowrap) simp
  have "word_of_nat n < c + s \<longleftrightarrow> n < unat c + unat s" if "n < unat c + stakes ((w, s) # l)" for n
    using that assms c by (simp add: u64_less_iff unat_of_nat)
  then show ?thesis
    using c by (auto simp: targets_for_def Let_def split: if_splits)
qed

lemma card_targets_for:
  assumes "unat c + stakes l < 2 ^ 64"
  shows "card (targets_for l c v) = sum_list (map (unat \<circ> snd) (filter (\<lambda>p. fst p = v) l))"
  using assms
proof (induction l arbitrary: c)
  case (Cons p l)
  obtain w s where p: "p = (w, s)" by (cases p)
  have c: "unat (c + s) = unat c + unat s" using Cons.prems p by (intro u64_add_nowrap) simp
  have fin: "finite (targets_for l (c + s) v)" by (simp add: targets_for_def)
  have disj: "{unat c ..< unat c + unat s} \<inter> targets_for l (c + s) v = {}"
    by (auto simp: targets_for_def c)
  have "card (targets_for l (c + s) v) = sum_list (map (unat \<circ> snd) (filter (\<lambda>p. fst p = v) l))"
    using Cons.prems p c by (intro Cons.IH) simp
  with Cons.prems show ?case
    unfolding p by (subst targets_for_Cons) (auto simp: card_Un_disjoint fin disj)
qed (simp add: targets_for_def)

lemma sort_key_same_set:
  fixes f :: "'a \<Rightarrow> 'b :: linorder"
  assumes "distinct (map f xs)" and "distinct (map f ys)" and "set xs = set ys"
  shows "sort_key f xs = sort_key f ys"
proof (rule sort_key_inj_key_eq)
  show "mset xs = mset (sort_key f ys)"
    using assms by (simp add: distinct_map set_eq_iff_mset_eq_distinct [symmetric])
  show "inj_on f (set xs)" using assms(1) by (simp add: distinct_map)
qed simp

lemma sum_list_key:
  "distinct (map fst l) \<Longrightarrow> sum_list (map (unat \<circ> snd) (filter (\<lambda>p. fst p = v) l)) =
     (case hm_get l v of None \<Rightarrow> 0 | Some s \<Rightarrow> unat s)"
  by (induction l) (auto simp: filter_empty_conv rev_image_eqI split: option.splits)

lemma vs_iter_fst: "map fst (vs_iter vs) = map fst (vs_validators vs)"
  by (simp add: vs_iter_def case_prod_unfold)

lemma stakes_vs_iter: "stakes (sort_key fst (vs_iter vs)) = stake_sum vs"
proof -
  have "stakes l = sum_mset (image_mset (unat \<circ> snd) (mset l))" for l
    by (simp add: stakes_def sum_mset_sum_list flip: mset_map)
  then have "stakes (sort_key fst (vs_iter vs)) = stakes (vs_iter vs)" by simp
  then show ?thesis by (simp add: stakes_def vs_iter_def stake_sum_def comp_def case_prod_unfold)
qed

lemma elect_leader_target:
  assumes "vs_inv vs" and "stake_sum vs < 2 ^ 64" and "\<not> vs_is_empty vs"
  shows "0 < vs_total_stake vs" "unat (r mod vs_total_stake vs) < stake_sum vs"
proof -
  have t: "unat (vs_total_stake vs) = stake_sum vs" using assms by (simp add: unat_total_stake)
  obtain k d m where m: "vs_validators vs = (k, d) # m"
    using assms(3) by (cases "vs_validators vs") (auto simp: vs_is_empty_def)
  then have "0 < unat (vd_stake d)" using assms(1) by (auto simp: vs_inv_def word_less_nat_alt)
  then have pos: "0 < stake_sum vs" by (simp add: stake_sum_def m)
  then show "0 < vs_total_stake vs" using t by (simp add: word_less_nat_alt)
  show "unat (r mod vs_total_stake vs) < stake_sum vs" using pos t by (simp add: unat_mod)
qed

section \<open>Properties\<close>

text \<open>Property C13: with at least one validator and a total stake that fits 64 bits, every round and
  seed elects exactly one leader, and it is a member of the set: neither the remainder by zero nor the
  fall-through at the end of the loop is ever reached.\<close>

theorem elect_leader_elects_member:
  assumes inv: "vs_inv vs" and bound: "stake_sum vs < 2 ^ 64" and ne: "\<not> vs_is_empty vs"
  shows "\<exists>v. elect_leader sha vs round seed = Inr (Some v) \<and> vs_contains vs v"
proof -
  let ?t = "u64_from_le_bytes (take 8 (sha (leader_input round seed))) mod vs_total_stake vs"
  note t = elect_leader_target [OF inv bound ne]
  obtain v s where v: "pick_leader (sort_key fst (vs_iter vs)) 0 ?t = Some v"
      "(v, s) \<in> set (vs_iter vs)"
    using pick_leader_covers [of 0 "sort_key fst (vs_iter vs)" ?t] t(2) bound
    by (auto simp: stakes_vs_iter)
  then have "vs_contains vs v"
    unfolding vs_contains_def hm_contains_iff map_of_eq_None_iff vs_iter_def by force
  with v(1) t(1) ne show ?thesis by (auto simp: elect_leader_def Let_def)
qed

theorem elect_leader_elects_member_witness:
  "\<exists>v. elect_leader (\<lambda>b. b) example_set 7 [1, 2, 3] = Inr (Some v) \<and> vs_contains example_set v"
proof (rule elect_leader_elects_member)
  show "vs_inv example_set" unfolding example_set_def by (rule vs_inv_from_validators)
qed (simp_all add: example_set_eval stake_sum_def vs_is_empty_def)

text \<open>Property C14: the choice is weighted by stake. Among the targets below the total stake, exactly as
  many select a validator as that validator has stake.\<close>

theorem leader_chance_is_stake:
  assumes inv: "vs_inv vs" and bound: "stake_sum vs < 2 ^ 64"
  shows "card {n. n < stake_sum vs \<and>
      pick_leader (sort_key fst (vs_iter vs)) 0 (word_of_nat n) = Some v} = stake_of vs v"
proof -
  let ?l = "sort_key fst (vs_iter vs)"
  have "mset (map fst ?l) = mset (map fst (vs_validators vs))" by (simp flip: vs_iter_fst)
  from mset_eq_imp_distinct_iff [OF this] have d: "distinct (map fst ?l)" using inv by (simp add: vs_inv_def)
  have "card (targets_for ?l 0 v) = sum_list (map (unat \<circ> snd) (filter (\<lambda>p. fst p = v) ?l))"
    using bound by (intro card_targets_for) (simp add: stakes_vs_iter)
  also have "\<dots> = (case hm_get ?l v of None \<Rightarrow> 0 | Some s \<Rightarrow> unat s)"
    using d by (rule sum_list_key)
  also have "hm_get ?l v = hm_get (vs_iter vs) v"
    using d by (intro map_of_inject_set [THEN iffD2, THEN fun_cong]) (use inv vs_iter_fst [of vs] in \<open>simp_all add: vs_inv_def\<close>)
  also have "\<dots> = vs_stake vs v"
    by (simp add: vs_iter_def vs_stake_def map_of_map)
  finally show ?thesis
    using stakes_vs_iter [of vs] by (simp add: targets_for_def stake_of_def)
qed

theorem leader_chance_is_stake_witness:
  "card {n. n < stake_sum example_set \<and>
     pick_leader (sort_key fst (vs_iter example_set)) 0 (word_of_nat n) = Some [2]} = 33"
proof -
  have "vs_inv example_set" unfolding example_set_def by (rule vs_inv_from_validators)
  moreover have "stake_sum example_set < 2 ^ 64" by (simp add: example_set_eval stake_sum_def)
  ultimately show ?thesis
    using leader_chance_is_stake [of example_set "[2]"]
    by (simp add: stake_of_def vs_stake_def example_set_eval)
qed

text \<open>All nodes compute the same leader. Two validator sets with the same entries elect the
  same leader, whatever order their hash maps iterate in.\<close>

theorem elect_leader_order_independent:
  assumes "vs_inv vs" and "vs_inv vs'" and "set (vs_validators vs) = set (vs_validators vs')"
  shows "elect_leader sha vs round seed = elect_leader sha vs' round seed"
proof -
  have d: "distinct (map fst (vs_iter vs))" "distinct (map fst (vs_iter vs'))"
    using assms by (simp_all add: vs_iter_fst vs_inv_def)
  have s: "sort_key fst (vs_iter vs) = sort_key fst (vs_iter vs')"
    using assms(3) by (intro sort_key_same_set d) (simp add: vs_iter_def)
  moreover have "vs_total_stake vs = vs_total_stake vs'"
    using assms s stakes_vs_iter [of vs] stakes_vs_iter [of vs'] by (simp add: vs_inv_def)
  moreover have "vs_is_empty vs = vs_is_empty vs'"
    using assms(3) by (cases "vs_validators vs"; cases "vs_validators vs'") (auto simp: vs_is_empty_def)
  ultimately show ?thesis by (simp add: elect_leader_def)
qed

theorem elect_leader_order_independent_witness:
  "elect_leader (\<lambda>b. b) (vs_from_validators [([1], 5, []), ([2], 7, [])]) 3 [0] =
   elect_leader (\<lambda>b. b) (vs_from_validators [([2], 7, []), ([1], 5, [])]) 3 [0]"
  by (rule elect_leader_order_independent [OF vs_inv_from_validators vs_inv_from_validators])
    (simp add: vs_from_validators_def vs_add_def vs_new_def insert_commute)

end
