(* ===== verification/Transactions.thy ===== *)
theory Transactions
  imports Core_Types
begin

text \<open>
  The transaction types of \<^verbatim>\<open>src/types/transaction.rs\<close>: encrypted transactions and their batches with
  the Merkle root over the commitments, decrypted transactions with their commitment hash, and ordered
  batches with their sequence numbers. The hash functions are parameters.
\<close>

section \<open>Encrypted transactions\<close>

record threshold_capsule =
  ephemeral_pubkey :: bytes
  encrypted_shares :: bytes

record encrypted_transaction =
  et_ciphertext :: bytes
  et_capsule :: threshold_capsule
  et_commitment :: bytes

record encrypted_batch =
  eb_transactions :: "encrypted_transaction list"
  eb_batch_root :: bytes

definition batch_empty :: encrypted_batch where
  "batch_empty = \<lparr>eb_transactions = [], eb_batch_root = replicate 32 0\<rparr>"

text \<open>One round of the \<open>while\<close> loop: the layer is hashed in chunks of two, an odd element with
  itself.\<close>

fun merkle_layer :: "hash_fn \<Rightarrow> bytes list \<Rightarrow> bytes list" where
  "merkle_layer sha [] = []"
| "merkle_layer sha [a] = [sha (a @ a)]"
| "merkle_layer sha (a # b # rest) = sha (a @ b) # merkle_layer sha rest"

lemma length_merkle_layer: "length (merkle_layer sha l) = (length l + 1) div 2"
  by (induction sha l rule: merkle_layer.induct) auto

function merkle_loop :: "hash_fn \<Rightarrow> bytes list \<Rightarrow> bytes list" where
  "merkle_loop sha layer = (if 1 < length layer then merkle_loop sha (merkle_layer sha layer) else layer)"
  by pat_completeness auto
termination
  by (relation "measure (\<lambda>(sha, l). length l)") (auto simp: length_merkle_layer)

declare merkle_loop.simps [simp del]

definition compute_merkle_root :: "hash_fn \<Rightarrow> encrypted_transaction list \<Rightarrow> bytes" where
  "compute_merkle_root sha txs =
     (case txs of
        [] \<Rightarrow> replicate 32 0
      | [tx] \<Rightarrow> et_commitment tx
      | _ \<Rightarrow> hd (merkle_loop sha (map et_commitment txs)))"

definition batch_from_transactions :: "hash_fn \<Rightarrow> encrypted_transaction list \<Rightarrow> encrypted_batch" where
  "batch_from_transactions sha txs =
     \<lparr>eb_transactions = txs, eb_batch_root = compute_merkle_root sha txs\<rparr>"

definition batch_len :: "encrypted_batch \<Rightarrow> nat" where
  "batch_len b = length (eb_transactions b)"

definition batch_is_empty :: "encrypted_batch \<Rightarrow> bool" where
  "batch_is_empty b = (eb_transactions b = [])"

section \<open>Decrypted transactions\<close>

record decrypted_transaction =
  dt_from :: address
  dt_to :: "address option"
  dt_value :: u256
  dt_gas_limit :: u64
  dt_gas_price :: u256
  dt_nonce :: u64
  dt_data :: bytes
  dt_source_commitment :: bytes
  dt_sequence_number :: u64

definition tx_preimage :: "decrypted_transaction \<Rightarrow> bytes" where
  "tx_preimage tx =
     dt_from tx @ (case dt_to tx of Some to \<Rightarrow> 1 # to | None \<Rightarrow> [0]) @
     u256_to_be_bytes (dt_value tx) @ u64_to_le_bytes (dt_gas_limit tx) @
     u256_to_be_bytes (dt_gas_price tx) @ u64_to_le_bytes (dt_nonce tx) @ dt_data tx"

definition tx_compute_hash :: "hash_fn \<Rightarrow> decrypted_transaction \<Rightarrow> bytes" where
  "tx_compute_hash keccak tx = keccak (tx_preimage tx)"

definition tx_verify_commitment :: "hash_fn \<Rightarrow> decrypted_transaction \<Rightarrow> bool" where
  "tx_verify_commitment keccak tx = (tx_compute_hash keccak tx = dt_source_commitment tx)"

definition tx_is_create :: "decrypted_transaction \<Rightarrow> bool" where
  "tx_is_create tx = (dt_to tx = None)"

section \<open>Ordered batches\<close>

record ordered_batch =
  ob_transactions :: "decrypted_transaction list"
  ob_start_sequence :: u64
  ob_round :: u64

definition ordered_batch_new :: "decrypted_transaction list \<Rightarrow> u64 \<Rightarrow> u64 \<Rightarrow> ordered_batch" where
  "ordered_batch_new txs start_seq round =
     \<lparr>ob_transactions =
        map (\<lambda>(i, tx). tx\<lparr>dt_sequence_number := start_seq + word_of_nat i\<rparr>) (enumerate 0 txs),
      ob_start_sequence = start_seq,
      ob_round = round\<rparr>"

definition ob_end_sequence :: "ordered_batch \<Rightarrow> u64" where
  "ob_end_sequence b = ob_start_sequence b + word_of_nat (length (ob_transactions b))"

section \<open>The Merkle root binds the commitments\<close>

text \<open>The inputs that are hashed on the way from a layer to its root.\<close>

fun layer_inputs :: "bytes list \<Rightarrow> bytes list" where
  "layer_inputs [] = []"
| "layer_inputs [a] = [a @ a]"
| "layer_inputs (a # b # rest) = (a @ b) # layer_inputs rest"

function merkle_inputs :: "hash_fn \<Rightarrow> bytes list \<Rightarrow> bytes list" where
  "merkle_inputs sha layer =
     (if 1 < length layer then layer_inputs layer @ merkle_inputs sha (merkle_layer sha layer) else [])"
  by pat_completeness auto
termination
  by (relation "measure (\<lambda>(sha, l). length l)") (auto simp: length_merkle_layer)

declare merkle_inputs.simps [simp del]

lemma merkle_layer_map: "merkle_layer sha l = map sha (layer_inputs l)"
  by (induction sha l rule: merkle_layer.induct) auto

lemma layer_inputs_inject:
  assumes "length l = length l'" and "\<forall>x \<in> set l \<union> set l'. length x = 32"
    and "layer_inputs l = layer_inputs l'"
  shows "l = l'"
  using assms
proof (induction l arbitrary: l' rule: layer_inputs.induct)
  case (2 a)
  then obtain a' where "l' = [a']" by (cases l') auto
  with 2 show ?case by simp
next
  case (3 a b rest)
  then obtain a' b' rest' where l': "l' = a' # b' # rest'"
    by (metis length_Suc_conv list.size(4) One_nat_def add_Suc_right)
  with 3 show ?case by auto
qed simp

lemma merkle_layer_length32:
  "(\<forall>x. length (sha x) = 32) \<Longrightarrow> \<forall>y \<in> set (merkle_layer sha l). length y = 32"
  by (auto simp: merkle_layer_map)

lemma merkle_loop_inject:
  assumes "length l = length l'" and "\<forall>x \<in> set l \<union> set l'. length x = 32"
    and "\<forall>x. length (sha x) = 32"
    and "inj_on sha (set (merkle_inputs sha l) \<union> set (merkle_inputs sha l'))"
    and "merkle_loop sha l = merkle_loop sha l'"
  shows "l = l'"
  using assms
proof (induction sha l arbitrary: l' rule: merkle_loop.induct)
  case (1 sha l)
  show ?case
  proof (cases "1 < length l")
    case False
    with 1 show ?thesis by (simp add: merkle_loop.simps [of sha l] merkle_loop.simps [of sha l'])
  next
    case True
    let ?m = "merkle_layer sha l" and ?m' = "merkle_layer sha l'"
    have True': "1 < length l'" using True 1 by simp
    have in1: "merkle_inputs sha l = layer_inputs l @ merkle_inputs sha ?m"
      using True by (subst merkle_inputs.simps) simp
    have in2: "merkle_inputs sha l' = layer_inputs l' @ merkle_inputs sha ?m'"
      using True' by (subst merkle_inputs.simps) simp
    have "?m = ?m'"
    proof (rule "1.IH" [OF True])
      show "length ?m = length ?m'" using "1.prems"(1) by (simp add: length_merkle_layer)
      show "\<forall>x \<in> set ?m \<union> set ?m'. length x = 32"
        using merkle_layer_length32 [OF "1.prems"(3)] by blast
      show "inj_on sha (set (merkle_inputs sha ?m) \<union> set (merkle_inputs sha ?m'))"
        using "1.prems"(4) by (rule inj_on_subset) (auto simp: in1 in2)
      show "merkle_loop sha ?m = merkle_loop sha ?m'"
        using "1.prems"(5) True True' by (simp add: merkle_loop.simps [of sha l] merkle_loop.simps [of sha l'])
    qed (use "1.prems"(3) in simp)
    then have "map sha (layer_inputs l) = map sha (layer_inputs l')" by (simp add: merkle_layer_map)
    moreover have "inj_on sha (set (layer_inputs l) \<union> set (layer_inputs l'))"
      using "1.prems"(4) by (rule inj_on_subset) (auto simp: in1 in2)
    ultimately have "layer_inputs l = layer_inputs l'" by (simp add: inj_on_map_eq_map)
    with "1.prems"(1,2) show ?thesis by (rule layer_inputs_inject)
  qed
qed

lemma merkle_loop_single: "l \<noteq> [] \<Longrightarrow> length (merkle_loop sha l) = 1"
proof (induction sha l rule: merkle_loop.induct)
  case (1 sha l)
  show ?case
  proof (cases "1 < length l")
    case True
    then have "merkle_layer sha l \<noteq> []" using length_merkle_layer [of sha l] by auto
    with True 1 show ?thesis by (simp add: merkle_loop.simps [of sha l])
  next
    case False
    with 1 show ?thesis by (simp add: merkle_loop.simps [of sha l]) (metis One_nat_def length_0_conv less_one linorder_neqE_nat)
  qed
qed

lemma compute_merkle_root_loop:
  "txs \<noteq> [] \<Longrightarrow> merkle_loop sha (map et_commitment txs) = [compute_merkle_root sha txs]"
proof -
  assume ne: "txs \<noteq> []"
  then have "length (merkle_loop sha (map et_commitment txs)) = 1"
    by (intro merkle_loop_single) simp
  then obtain r where r: "merkle_loop sha (map et_commitment txs) = [r]"
    by (auto simp: length_Suc_conv)
  show ?thesis
  proof (cases txs)
    case (Cons tx rest)
    then show ?thesis using r
      by (cases rest) (auto simp: compute_merkle_root_def merkle_loop.simps [of sha "[et_commitment tx]"])
  qed (use ne in simp)
qed

lemma merkle_layer_odd:
  "odd (length l) \<Longrightarrow> merkle_layer sha (l @ [last l]) = merkle_layer sha l"
  by (induction sha l rule: merkle_layer.induct) auto

section \<open>Preimages and sequence numbers\<close>

lemma tx_preimage_inject:
  assumes "length (dt_from a) = 20" and "length (dt_from b) = 20"
    and "\<forall>t. dt_to a = Some t \<or> dt_to b = Some t \<longrightarrow> length t = 20"
  shows "tx_preimage a = tx_preimage b \<longleftrightarrow>
    dt_from a = dt_from b \<and> dt_to a = dt_to b \<and> dt_value a = dt_value b \<and>
    dt_gas_limit a = dt_gas_limit b \<and> dt_gas_price a = dt_gas_price b \<and>
    dt_nonce a = dt_nonce b \<and> dt_data a = dt_data b"
  using assms
  by (cases "dt_to a"; cases "dt_to b")
     (auto simp: tx_preimage_def u256_be.enc_append_inject u64_le.enc_append_inject)

lemma ordered_batch_sequences:
  "map dt_sequence_number (ob_transactions (ordered_batch_new txs s r)) =
     map (\<lambda>i. s + word_of_nat i) [0..<length txs]"
  by (rule nth_equalityI) (auto simp: ordered_batch_new_def nth_enumerate_eq)

lemma ordered_batch_nth:
  "i < length txs \<Longrightarrow> ob_transactions (ordered_batch_new txs s r) ! i =
     (txs ! i)\<lparr>dt_sequence_number := s + word_of_nat i\<rparr>"
  by (simp add: ordered_batch_new_def nth_enumerate_eq)

lemma ordered_batch_end:
  "ob_end_sequence (ordered_batch_new txs s r) = s + word_of_nat (length txs)"
  by (simp add: ordered_batch_new_def ob_end_sequence_def)

lemma u64_offsets_distinct:
  assumes "n \<le> 2 ^ 64"
  shows "distinct (map (\<lambda>i. s + word_of_nat i :: u64) [0..<n])"
proof -
  have "inj_on (\<lambda>i. s + word_of_nat i :: u64) {0..<n}"
  proof (rule inj_onI)
    fix i j assume ij: "i \<in> {0..<n}" "j \<in> {0..<n}"
      and "s + word_of_nat i = (s + word_of_nat j :: u64)"
    then have "(word_of_nat i :: u64) = word_of_nat j" by simp
    then have "unat (word_of_nat i :: u64) = unat (word_of_nat j :: u64)" by (rule arg_cong)
    then have "i mod 2 ^ 64 = j mod 2 ^ 64" by (simp add: unat_of_nat)
    with ij assms show "i = j" by simp
  qed
  then show ?thesis by (simp add: distinct_map)
qed

section \<open>Properties\<close>

text \<open>Property C27: the batch root binds the commitments. Two non-empty batches with equally many
  transactions and the same Merkle root carry the same commitments in the same order, unless the hash
  function collides on one of the inputs hashed for the two roots.\<close>

theorem merkle_root_binds_commitments:
  assumes len: "length txs = length txs'" "txs \<noteq> []"
    and c: "\<forall>tx \<in> set txs \<union> set txs'. length (et_commitment tx) = 32"
    and sha: "\<forall>x. length (sha x) = 32"
    and coll: "inj_on sha (set (merkle_inputs sha (map et_commitment txs)) \<union>
                set (merkle_inputs sha (map et_commitment txs')))"
    and root: "compute_merkle_root sha txs = compute_merkle_root sha txs'"
  shows "map et_commitment txs = map et_commitment txs'"
proof (rule merkle_loop_inject [OF _ _ sha coll])
  have "txs' \<noteq> []" using len by auto
  with len root show "merkle_loop sha (map et_commitment txs) = merkle_loop sha (map et_commitment txs')"
    by (simp add: compute_merkle_root_loop)
qed (use len c in auto)

text \<open>The batch root does not bind the number of transactions. Repeating the last
  transaction of a batch of odd size (three or more) leaves the root unchanged, for every hash
  function.\<close>

theorem merkle_root_repeated_last:
  assumes "odd (length txs)" and "1 < length txs"
  shows "compute_merkle_root sha (txs @ [last txs]) = compute_merkle_root sha txs"
proof -
  let ?l = "map et_commitment txs"
  have "txs \<noteq> []" using assms(2) by auto
  then have app: "map et_commitment (txs @ [last txs]) = ?l @ [last ?l]" by (simp add: last_map)
  have "merkle_loop sha (?l @ [last ?l]) = merkle_loop sha ?l"
    using assms \<open>txs \<noteq> []\<close> merkle_layer_odd [of ?l sha]
    by (simp add: merkle_loop.simps [of sha "?l @ [last ?l]"] merkle_loop.simps [of sha ?l])
  then show ?thesis
    using compute_merkle_root_loop [of txs sha] compute_merkle_root_loop [of "txs @ [last txs]" sha]
      \<open>txs \<noteq> []\<close> app by simp
qed

definition example_tx :: "u8 \<Rightarrow> encrypted_transaction" where
  "example_tx i = \<lparr>et_ciphertext = [i], et_capsule = \<lparr>ephemeral_pubkey = [], encrypted_shares = []\<rparr>,
     et_commitment = replicate 32 i\<rparr>"

text \<open>Two different batches with one root, which have the same commitments, and two transactions in both orders, with
  two roots.\<close>

theorem merkle_root_binds_commitments_witness:
  "let sha = (\<lambda>x :: bytes. take 32 (x @ replicate 32 0));
       a = [example_tx 1, example_tx 2]; b = [(example_tx 1)\<lparr>et_ciphertext := [7]\<rparr>, example_tx 2]
   in a \<noteq> b \<and> compute_merkle_root sha a = compute_merkle_root sha b \<and> map et_commitment a = map et_commitment b \<and>
     compute_merkle_root sha a \<noteq> compute_merkle_root sha (rev a)"
proof -
  let ?sha = "\<lambda>x :: bytes. take 32 (x @ replicate 32 0)"
  let ?a = "[example_tx 1, example_tx 2]" and ?b = "[(example_tx 1)\<lparr>et_ciphertext := [7]\<rparr>, example_tx 2]"
  have inputs: "merkle_inputs ?sha (map et_commitment ?a) = [replicate 32 1 @ replicate 32 2]"
    "merkle_inputs ?sha (map et_commitment ?b) = [replicate 32 1 @ replicate 32 2]"
    "merkle_inputs ?sha (map et_commitment (rev ?a)) = [replicate 32 2 @ replicate 32 1]"
    by (simp_all add: merkle_inputs.simps example_tx_def)
  have inj: "inj_on ?sha (set (merkle_inputs ?sha (map et_commitment ?a)) \<union> set (merkle_inputs ?sha (map et_commitment ?b)))"
    "inj_on ?sha (set (merkle_inputs ?sha (map et_commitment ?a)) \<union> set (merkle_inputs ?sha (map et_commitment (rev ?a))))"
    unfolding inputs by simp_all
  have root: "compute_merkle_root ?sha ?a = compute_merkle_root ?sha ?b" by (simp add: compute_merkle_root_def)
  have "map et_commitment ?a = map et_commitment ?b"
    by (rule merkle_root_binds_commitments [OF _ _ _ _ inj(1) root]) (auto simp: example_tx_def)
  moreover have "compute_merkle_root ?sha ?a \<noteq> compute_merkle_root ?sha (rev ?a)"
  proof
    assume eq: "compute_merkle_root ?sha ?a = compute_merkle_root ?sha (rev ?a)"
    have "map et_commitment ?a = map et_commitment (rev ?a)"
      by (rule merkle_root_binds_commitments [OF _ _ _ _ inj(2) eq]) (auto simp: example_tx_def)
    then show False by (simp add: example_tx_def)
  qed
  ultimately show ?thesis using root by (simp add: Let_def example_tx_def)
qed

theorem merkle_root_repeated_last_witness:
  "\<exists>sha :: hash_fn. compute_merkle_root sha ([example_tx 1, example_tx 2, example_tx 3] @ [example_tx 3]) =
     compute_merkle_root sha [example_tx 1, example_tx 2, example_tx 3]"
  using merkle_root_repeated_last [of "[example_tx 1, example_tx 2, example_tx 3]"] by simp

text \<open>Sequence numbers are unique. When each block's batch starts at the previous batch's
  \<open>end_sequence\<close>, the numbers assigned to the transactions of two consecutive batches are exactly the
  consecutive numbers from the first start on, hence pairwise different, and nothing else of a
  transaction changes.\<close>

theorem ordered_batches_sequence_unique:
  assumes len: "length txs + length txs' \<le> 2 ^ 64"
    and b: "b = ordered_batch_new txs start r"
    and b': "b' = ordered_batch_new txs' (ob_end_sequence b) r'"
  shows "map dt_sequence_number (ob_transactions b @ ob_transactions b') =
      map (\<lambda>i. start + word_of_nat i) [0..<length txs + length txs'] \<and>
    distinct (map dt_sequence_number (ob_transactions b @ ob_transactions b')) \<and>
    map (dt_sequence_number_update (\<lambda>_. 0)) (ob_transactions b) =
      map (dt_sequence_number_update (\<lambda>_. 0)) txs"
proof -
  have "map dt_sequence_number (ob_transactions b @ ob_transactions b') =
      map (\<lambda>i. start + word_of_nat i) [0..<length txs] @
      map (\<lambda>i. start + word_of_nat (length txs) + word_of_nat i) [0..<length txs']"
    unfolding map_append b' b by (simp only: ordered_batch_sequences ordered_batch_end)
  also have "\<dots> = map (\<lambda>i. start + word_of_nat i) ([0..<length txs] @ map ((+) (length txs)) [0..<length txs'])"
    by (simp add: add.assoc)
  also have "[0..<length txs] @ map ((+) (length txs)) [0..<length txs'] = [0..<length txs + length txs']"
    by (rule nth_equalityI) (auto simp: nth_append)
  finally have seqs: "map dt_sequence_number (ob_transactions b @ ob_transactions b') =
      map (\<lambda>i. start + word_of_nat i) [0..<length txs + length txs']" .
  moreover have "distinct (map dt_sequence_number (ob_transactions b @ ob_transactions b'))"
    unfolding seqs using len by (rule u64_offsets_distinct)
  moreover have "map (dt_sequence_number_update (\<lambda>_. 0)) (ob_transactions b) =
      map (dt_sequence_number_update (\<lambda>_. 0)) txs"
    unfolding b by (rule nth_equalityI)
      (simp add: ordered_batch_new_def, simp add: ordered_batch_nth, simp add: ordered_batch_new_def nth_enumerate_eq)
  ultimately show ?thesis by blast
qed

definition example_dtx :: "u64 \<Rightarrow> decrypted_transaction" where
  "example_dtx n = \<lparr>dt_from = replicate 20 1, dt_to = Some (replicate 20 2), dt_value = u256_from_u64 5,
     dt_gas_limit = 21000, dt_gas_price = u256_from_u64 1, dt_nonce = n, dt_data = [],
     dt_source_commitment = replicate 32 0, dt_sequence_number = 0\<rparr>"

theorem ordered_batches_sequence_unique_witness:
  "map dt_sequence_number (ob_transactions (ordered_batch_new [example_dtx 0, example_dtx 1] 100 5) @
      ob_transactions (ordered_batch_new [example_dtx 2] 102 6)) = [100, 101, 102]"
proof -
  let ?b = "ordered_batch_new [example_dtx 0, example_dtx 1] 100 5"
  have e: "ob_end_sequence ?b = 102" by (simp add: ordered_batch_end)
  show ?thesis
    using ordered_batches_sequence_unique
      [of "[example_dtx 0, example_dtx 1]" "[example_dtx 2]" ?b 100 5
        "ordered_batch_new [example_dtx 2] 102 6" 6]
    unfolding e by (simp add: upt_rec)
qed

end
