(* ===== verification/Lamport_Clock.thy ===== *)
theory Lamport_Clock
  imports Core_Types
begin

text \<open>
  The Lamport clock of \<^verbatim>\<open>src/types/lamport.rs\<close>: first its operations run by one thread, then the
  atomic steps of several threads on the shared \<open>AtomicU64\<close>, with the compare-and-swap loop of
  \<open>witness\<close> split into its load and its exchange.
\<close>

section \<open>Operations of one thread\<close>

record lamport_clock =
  clk_value :: u64

definition clock_new :: lamport_clock where
  "clock_new = \<lparr>clk_value = 0\<rparr>"

definition clock_with_initial :: "u64 \<Rightarrow> lamport_clock" where
  "clock_with_initial i = \<lparr>clk_value = i\<rparr>"

definition clock_current :: "lamport_clock \<Rightarrow> u64" where
  "clock_current c = clk_value c"

definition clock_tick :: "lamport_clock \<Rightarrow> u64 \<times> lamport_clock" where
  "clock_tick c = (clk_value c + 1, c\<lparr>clk_value := clk_value c + 1\<rparr>)"

text \<open>Run alone, the exchange of \<open>witness\<close> succeeds in the first round of its loop.\<close>

definition clock_witness :: "u64 \<Rightarrow> lamport_clock \<Rightarrow> u64 \<times> lamport_clock" where
  "clock_witness received c =
     (let new_time = max (clk_value c) received + 1
      in (new_time, c\<lparr>clk_value := new_time\<rparr>))"

definition u64_max_or_0 :: "u64 list \<Rightarrow> u64" where
  "u64_max_or_0 ts = (case ts of [] \<Rightarrow> 0 | t # ts' \<Rightarrow> fold max ts' t)"

definition clock_witness_many :: "u64 list \<Rightarrow> lamport_clock \<Rightarrow> u64 \<times> lamport_clock" where
  "clock_witness_many timestamps c = clock_witness (u64_max_or_0 timestamps) c"

definition clock_clone :: "lamport_clock \<Rightarrow> lamport_clock" where
  "clock_clone c = clock_with_initial (clock_current c)"

lemma fold_max_ge: "x \<le> fold max ts x \<and> (\<forall>t \<in> set ts. t \<le> fold max ts x)" for x :: u64
proof (induction ts arbitrary: x)
  case (Cons t ts)
  from Cons [of "max t x"] show ?case by auto
qed simp

lemma u64_max_or_0_ge: "t \<in> set ts \<Longrightarrow> t \<le> u64_max_or_0 ts"
  using fold_max_ge by (auto simp: u64_max_or_0_def split: list.splits)

lemma u64_max_or_0_least: "(\<forall>t \<in> set ts. t \<le> b) \<Longrightarrow> u64_max_or_0 ts \<le> b"
proof -
  have "x \<le> b \<Longrightarrow> \<forall>t \<in> set us. t \<le> b \<Longrightarrow> fold max us x \<le> b" for us x
    by (induction us arbitrary: x) auto
  then show "(\<forall>t \<in> set ts. t \<le> b) \<Longrightarrow> u64_max_or_0 ts \<le> b"
    by (cases ts) (auto simp: u64_max_or_0_def)
qed

lemma u64_max_or_0_Nil [simp]: "u64_max_or_0 [] = 0"
  by (simp add: u64_max_or_0_def)

lemma u64_max_or_0_in: "ts \<noteq> [] \<Longrightarrow> u64_max_or_0 ts \<in> set ts"
proof -
  have "fold max us x \<in> insert x (set us)" for us and x :: u64
    by (induction us arbitrary: x) (auto simp: max_def split: if_splits)
  then show "ts \<noteq> [] \<Longrightarrow> u64_max_or_0 ts \<in> set ts"
    by (cases ts) (auto simp: u64_max_or_0_def)
qed

lemma u64_succ_greater: "a < b + 1 \<longleftrightarrow> a \<le> b" if "b < u64_MAX" for a b :: u64
proof -
  have "unat b < 2 ^ 64 - 1" using that by (simp add: word_less_nat_alt)
  then have "unat (b + 1) = unat b + 1" by (intro u64_add_nowrap [THEN trans]) auto
  then show ?thesis by (auto simp: word_less_nat_alt word_le_nat_alt)
qed

lemma clock_witness_after:
  assumes "max (clk_value c) r < u64_MAX" and "clock_witness r c = (t, c')"
  shows "r < t \<and> clk_value c < t \<and> clk_value c' = t"
proof -
  from assms(2) have t: "t = max (clk_value c) r + 1" and c': "clk_value c' = t"
    by (auto simp: clock_witness_def Let_def)
  show ?thesis
    unfolding c' unfolding t using u64_succ_greater [OF assms(1)] by simp
qed

section \<open>Interleaved threads\<close>

text \<open>
  What a thread is doing: nothing, about to load inside \<open>witness\<close>, or holding the value it loaded.
  The state has the shared value and, as a ghost, the timestamps handed out so far (newest first).
\<close>

datatype clock_pc = Idle | WitnessLoad u64 | WitnessCas u64 u64

record clock_sys =
  cs_value :: u64
  cs_pc :: "nat \<Rightarrow> clock_pc"
  cs_issued :: "u64 list"

definition clock_sys_init :: "u64 \<Rightarrow> clock_sys" where
  "clock_sys_init v = \<lparr>cs_value = v, cs_pc = (\<lambda>_. Idle), cs_issued = []\<rparr>"

inductive clock_step :: "clock_sys \<Rightarrow> clock_sys \<Rightarrow> bool" where
  tick: "cs_pc s i = Idle \<Longrightarrow>
    clock_step s (s\<lparr>cs_value := cs_value s + 1, cs_issued := (cs_value s + 1) # cs_issued s\<rparr>)"
| witness_call: "cs_pc s i = Idle \<Longrightarrow>
    clock_step s (s\<lparr>cs_pc := (cs_pc s)(i := WitnessLoad r)\<rparr>)"
| witness_load: "cs_pc s i = WitnessLoad r \<Longrightarrow>
    clock_step s (s\<lparr>cs_pc := (cs_pc s)(i := WitnessCas r (cs_value s))\<rparr>)"
| cas_success: "cs_pc s i = WitnessCas r current \<Longrightarrow> cs_value s = current \<Longrightarrow>
    clock_step s (s\<lparr>cs_value := max current r + 1, cs_pc := (cs_pc s)(i := Idle),
      cs_issued := (max current r + 1) # cs_issued s\<rparr>)"
| cas_failure: "cs_pc s i = WitnessCas r current \<Longrightarrow> cs_value s \<noteq> current \<Longrightarrow>
    clock_step s (s\<lparr>cs_pc := (cs_pc s)(i := WitnessLoad r)\<rparr>)"

inductive clock_reachable :: "u64 \<Rightarrow> clock_sys \<Rightarrow> bool" for v where
  start: "clock_reachable v (clock_sys_init v)"
| step: "clock_reachable v s \<Longrightarrow> clock_step s t \<Longrightarrow> clock_reachable v t"

inductive_cases clock_stepE: "clock_step s t"

text \<open>The newest timestamp is the clock's value. Each timestamp is later than the one before it, or it is 0, because
  the addition wrapped. As long as that has not happened, no thread holds a loaded value that is ahead of the clock.\<close>

definition clock_inv :: "u64 \<Rightarrow> clock_sys \<Rightarrow> bool" where
  "clock_inv v s \<longleftrightarrow>
     cs_value s = hd (cs_issued s @ [v]) \<and>
     successively (\<lambda>new old. old < new \<or> new = 0) (cs_issued s @ [v]) \<and>
     (0 \<notin> set (cs_issued s) \<longrightarrow> (\<forall>i r c. cs_pc s i = WitnessCas r c \<longrightarrow> c \<le> cs_value s))"

lemma u64_succ_or_wrap: "a \<le> b \<Longrightarrow> a < b + 1 \<or> b + 1 = 0" for a b :: u64
proof (cases "b = u64_MAX")
  case False
  then have "b < u64_MAX" using u64_le_MAX [of b] by simp
  then show "a \<le> b \<Longrightarrow> ?thesis" using u64_succ_greater by blast
qed simp

lemma clock_inv_advance:
  assumes inv: "clock_inv v s" and new: "cs_value s < w \<or> w = 0"
    and pcs: "\<forall>i r c. cs_pc t i = WitnessCas r c \<longrightarrow> cs_pc s i = WitnessCas r c"
    and t: "cs_value t = w" "cs_issued t = w # cs_issued s"
  shows "clock_inv v t"
proof -
  have "c \<le> w" if "cs_pc t i = WitnessCas r c" "0 \<notin> set (cs_issued t)" for i r c
    using inv pcs that new t unfolding clock_inv_def by (force intro: less_imp_le le_less_trans)
  moreover have "successively (\<lambda>new old. old < new \<or> new = 0) (w # cs_issued s @ [v])"
    using inv new by (cases "cs_issued s") (auto simp: clock_inv_def)
  ultimately show ?thesis using t by (auto simp: clock_inv_def)
qed

lemma clock_step_inv:
  assumes "clock_step s t" and inv: "clock_inv v s"
  shows "clock_inv v t"
  using assms(1)
proof (cases rule: clock_step.cases)
  case (tick i)
  have "cs_value s < cs_value s + 1 \<or> cs_value s + 1 = 0" by (rule u64_succ_or_wrap) simp
  then show ?thesis by (rule clock_inv_advance [OF inv]) (use tick in auto)
next
  case (cas_success i r current)
  have "cs_value s < max current r + 1 \<or> max current r + 1 = 0"
    using cas_success by (intro u64_succ_or_wrap) simp
  then show ?thesis
    by (rule clock_inv_advance [OF inv]) (use cas_success in \<open>auto split: if_splits\<close>)
qed (use inv in \<open>auto simp: clock_inv_def split: if_splits\<close>)

lemma clock_reachable_inv: "clock_reachable v s \<Longrightarrow> clock_inv v s"
proof (induction rule: clock_reachable.induct)
  case start
  show ?case by (simp add: clock_inv_def clock_sys_init_def)
next
  case (step s t)
  then show ?case by (blast intro: clock_step_inv)
qed

text \<open>The two ways to wrap.\<close>

lemma clock_step_wraps:
  assumes "clock_step s t" and "cs_issued t = 0 # cs_issued s"
  shows "cs_value s = u64_MAX \<or> (\<exists>i. cs_pc s i = WitnessCas u64_MAX (cs_value s))"
proof -
  have max: "x = u64_MAX" if "x + 1 = 0" for x :: u64
    using that u64_succ_greater [of x x] u64_le_MAX [of x] by (metis le_less order_refl word_not_simps(1))
  from assms show ?thesis
  proof (cases rule: clock_step.cases)
    case (tick i)
    with assms(2) show ?thesis using max [of "cs_value s"] by simp
  next
    case (cas_success i r current)
    with assms(2) have "max current r = u64_MAX" using max by simp
    with cas_success show ?thesis by (auto simp: max_def split: if_splits)
  qed auto
qed

section \<open>Properties\<close>

text \<open>Property C28: the timestamps of a clock that several threads share, for every interleaving of ticks and
  compare-and-swap loops and every received time. The clock's value is the newest timestamp; each timestamp is later
  than the one handed out before it, unless it is 0; a 0 is handed out only when the clock stood at the last 64-bit
  value or a received time was that value; and if no 0 was handed out, the timestamps are pairwise different, strictly
  increasing in the order of the atomic updates, and later than the initial value.\<close>

theorem clock_timestamps_increase:
  assumes "clock_reachable v s"
  shows "cs_value s = hd (cs_issued s @ [v]) \<and>
    successively (\<lambda>new old. old < new \<or> new = 0) (cs_issued s @ [v]) \<and>
    (0 \<notin> set (cs_issued s) \<longrightarrow> distinct (cs_issued s) \<and> sorted_wrt (>) (cs_issued s @ [v])) \<and>
    (\<forall>t. clock_step s t \<and> cs_issued t = 0 # cs_issued s \<longrightarrow>
       cs_value s = u64_MAX \<or> (\<exists>i. cs_pc s i = WitnessCas u64_MAX (cs_value s)))"
proof -
  note inv = clock_reachable_inv [OF assms, unfolded clock_inv_def]
  have "distinct (cs_issued s) \<and> sorted_wrt (>) (cs_issued s @ [v])" if no0: "0 \<notin> set (cs_issued s)"
  proof -
    have "successively (>) (ts @ [v])"
      if "successively (\<lambda>new old. old < new \<or> new = 0) (ts @ [v])" "0 \<notin> set ts" for ts
      using that by (induction ts rule: induct_list012) auto
    then have "successively (>) (cs_issued s @ [v])" using inv no0 by blast
    then have "sorted_wrt (>) (cs_issued s @ [v])" by (simp add: successively_conv_sorted_wrt)
    then show ?thesis by (simp add: sorted_wrt_append sorted_desc_distinct)
  qed
  with inv clock_step_wraps [of s] show ?thesis by blast
qed

text \<open>A run with a lost compare-and-swap: thread 1 loads 1, thread 0 ticks, thread 1's exchange fails
  and its second round succeeds.\<close>

lemma clock_contended_run:
  "\<exists>s. clock_reachable 0 s \<and> cs_issued s = [6, 2, 1] \<and> cs_pc s 1 = Idle"
proof -
  let ?st = "\<lambda>v pc l. \<lparr>cs_value = v, cs_pc = (\<lambda>_. Idle)(1 := pc), cs_issued = l\<rparr> :: clock_sys"
  have step_to: "clock_reachable 0 t" if "clock_reachable 0 s" "clock_step s t" for s t
    using that by (rule clock_reachable.step)
  have "clock_reachable 0 (?st 0 Idle [])"
    using clock_reachable.start [of 0] by (simp add: clock_sys_init_def fun_upd_idem)
  moreover have "clock_step (?st 0 Idle []) (?st 1 Idle [1])"
    using clock_step.tick [of "?st 0 Idle []" 0] by simp
  ultimately have "clock_reachable 0 (?st 1 Idle [1])"
    by (rule step_to)
  moreover have "clock_step (?st 1 Idle [1]) (?st 1 (WitnessLoad 5) [1])"
    using clock_step.witness_call [of "?st 1 Idle [1]" 1 5] by simp
  ultimately have "clock_reachable 0 (?st 1 (WitnessLoad 5) [1])"
    by (rule step_to)
  moreover have "clock_step (?st 1 (WitnessLoad 5) [1]) (?st 1 (WitnessCas 5 1) [1])"
    using clock_step.witness_load [of "?st 1 (WitnessLoad 5) [1]" 1 5] by simp
  ultimately have "clock_reachable 0 (?st 1 (WitnessCas 5 1) [1])"
    by (rule step_to)
  moreover have "clock_step (?st 1 (WitnessCas 5 1) [1]) (?st 2 (WitnessCas 5 1) [2, 1])"
    using clock_step.tick [of "?st 1 (WitnessCas 5 1) [1]" 0] by simp
  ultimately have "clock_reachable 0 (?st 2 (WitnessCas 5 1) [2, 1])"
    by (rule step_to)
  moreover have "clock_step (?st 2 (WitnessCas 5 1) [2, 1]) (?st 2 (WitnessLoad 5) [2, 1])"
    using clock_step.cas_failure [of "?st 2 (WitnessCas 5 1) [2, 1]" 1 5 1] by simp
  ultimately have "clock_reachable 0 (?st 2 (WitnessLoad 5) [2, 1])"
    by (rule step_to)
  moreover have "clock_step (?st 2 (WitnessLoad 5) [2, 1]) (?st 2 (WitnessCas 5 2) [2, 1])"
    using clock_step.witness_load [of "?st 2 (WitnessLoad 5) [2, 1]" 1 5] by simp
  ultimately have "clock_reachable 0 (?st 2 (WitnessCas 5 2) [2, 1])"
    by (rule step_to)
  moreover have "clock_step (?st 2 (WitnessCas 5 2) [2, 1]) (?st 6 Idle [6, 2, 1])"
    using clock_step.cas_success [of "?st 2 (WitnessCas 5 2) [2, 1]" 1 5 2] by simp
  ultimately have "clock_reachable 0 (?st 6 Idle [6, 2, 1])"
    by (rule step_to)
  moreover have "cs_issued (?st 6 Idle [6, 2, 1]) = [6, 2, 1]" "cs_pc (?st 6 Idle [6, 2, 1]) 1 = Idle"
    by simp_all
  ultimately show ?thesis by blast
qed

theorem clock_timestamps_increase_witness:
  "\<exists>s. clock_reachable 0 s \<and> cs_issued s = [6, 2, 1] \<and> cs_value s = 6 \<and> distinct (cs_issued s) \<and> sorted_wrt (>) (cs_issued s @ [0])"
proof -
  obtain s where s: "clock_reachable 0 s" "cs_issued s = [6, 2, 1]"
    using clock_contended_run by blast
  from clock_timestamps_increase [OF s(1)] s show ?thesis by force
qed

text \<open>The wrap is real: a received time of \<open>u64::MAX\<close> takes every clock back to 0, and the timestamps start over.\<close>

theorem witness_max_resets_clock:
  "clock_witness u64_MAX c = (0, c\<lparr>clk_value := 0\<rparr>)"
  "fst (clock_tick (snd (clock_witness u64_MAX c))) = fst (clock_tick clock_new)"
proof -
  have "max (clk_value c) u64_MAX + 1 = 0" using u64_le_MAX [of "clk_value c"] by (simp add: max_absorb2)
  then show "clock_witness u64_MAX c = (0, c\<lparr>clk_value := 0\<rparr>)"
    "fst (clock_tick (snd (clock_witness u64_MAX c))) = fst (clock_tick clock_new)"
    by (simp_all add: clock_witness_def clock_tick_def clock_new_def Let_def)
qed

text \<open>The compare-and-swap loop of \<open>witness\<close> is lock-free. A failed exchange means that
  another thread has moved the clock past the value that was loaded (unless the clock wrapped), so every retry is paid for by a
  timestamp handed out in between.\<close>

theorem witness_retry_means_progress:
  assumes "clock_reachable v s" and "cs_pc s i = WitnessCas r current" and "cs_value s \<noteq> current"
    and "0 \<notin> set (cs_issued s)"
  shows "current < cs_value s \<and> cs_value s \<in> set (cs_issued s @ [v])"
proof -
  have "current \<le> cs_value s" and "cs_value s = hd (cs_issued s @ [v])"
    using clock_reachable_inv [OF assms(1)] assms(2,4) unfolding clock_inv_def by blast+
  with assms(3) show ?thesis by (cases "cs_issued s") auto
qed

text \<open>A clock that witnesses the timestamps of all the parents of an event moves past
  every one of them and past its own previous value, to exactly their maximum plus one.\<close>

theorem witness_many_after_parents:
  assumes "clk_value c < u64_MAX" and "\<forall>p \<in> set ps. p < u64_MAX" and "clock_witness_many ps c = (t, c')"
  shows "clk_value c < t \<and> (\<forall>p \<in> set ps. p < t) \<and> clk_value c' = t \<and>
    (clk_value c + 1 = t \<or> (\<exists>p \<in> set ps. p + 1 = t))"
proof -
  let ?m = "u64_max_or_0 ps"
  have m: "?m \<in> set ps \<or> ps = [] \<and> ?m = 0"
    using u64_max_or_0_in [of ps] by (cases "ps = []") simp_all
  then have room: "max (clk_value c) ?m < u64_MAX" using assms(1,2) by auto
  have w: "clock_witness ?m c = (t, c')" using assms(3) by (simp add: clock_witness_many_def)
  from clock_witness_after [OF room w] have after: "?m < t" "clk_value c < t" "clk_value c' = t"
    by auto
  have t: "t = max (clk_value c) ?m + 1" using w by (simp add: clock_witness_def Let_def)
  have "clk_value c + 1 = t \<or> (\<exists>p \<in> set ps. p + 1 = t)"
  proof (cases "clk_value c < ?m")
    case True
    with m have "?m \<in> set ps" by auto
    with True t show ?thesis by (auto simp: max_def)
  qed (use t in \<open>auto simp: max_def\<close>)
  moreover have "p < t" if "p \<in> set ps" for p
    using u64_max_or_0_ge [OF that] after(1) by (rule le_less_trans)
  ultimately show ?thesis using after by blast
qed

theorem witness_many_after_parents_witness:
  "clock_witness_many [10, 50, 30, 25] clock_new = (51, \<lparr>clk_value = 51\<rparr>) \<and>
   clk_value clock_new < (51 :: u64) \<and> (50 :: u64) < 51"
proof -
  have w: "clock_witness_many [10, 50, 30, 25] clock_new = (51, \<lparr>clk_value = 51\<rparr>)"
    by (simp add: clock_witness_many_def clock_witness_def u64_max_or_0_def clock_new_def)
  with witness_many_after_parents [OF _ _ w] show ?thesis by (simp add: clock_new_def)
qed

end
