(* ===== verification/Dag_Events.thy ===== *)
theory Dag_Events
  imports Transactions Lamport_Clock
begin

text \<open>
  DAG events of \<^verbatim>\<open>src/types/event.rs\<close>: their identifiers and signing messages, the structural
  validation, and the event builder.
\<close>

record dag_event =
  ev_id :: event_id
  ev_creator :: validator_id
  ev_lamport_time :: u64
  ev_round :: u64
  ev_strong_parents :: "event_id list"
  ev_weak_parents :: "event_id list"
  ev_payload :: encrypted_batch
  ev_signature :: bls_signature

definition event_id_preimage :: "validator_id \<Rightarrow> u64 \<Rightarrow> bytes \<Rightarrow> event_id list \<Rightarrow> bytes" where
  "event_id_preimage creator round payload_hash strong_parents =
     creator @ u64_to_le_bytes round @ payload_hash @ concat (sort strong_parents)"

definition compute_id ::
  "hash_fn \<Rightarrow> validator_id \<Rightarrow> u64 \<Rightarrow> bytes \<Rightarrow> event_id list \<Rightarrow> event_id" where
  "compute_id sha creator round payload_hash strong_parents =
     sha (event_id_preimage creator round payload_hash strong_parents)"

definition signing_message :: "dag_event \<Rightarrow> bytes" where
  "signing_message e =
     ev_id e @ u64_to_le_bytes (ev_lamport_time e) @ u64_to_le_bytes (ev_round e) @
     concat (ev_strong_parents e) @ eb_batch_root (ev_payload e)"

definition is_genesis :: "dag_event \<Rightarrow> bool" where
  "is_genesis e \<longleftrightarrow> ev_strong_parents e = [] \<and> ev_round e = 0"

datatype event_validation_error =
    InvalidGenesisTimestamp
  | NoParents
  | ZeroLamportTime
  | ZeroRound
  | LamportViolation (event_time: u64) (parent_time: u64)
  | MissingSelfParent
  | MissingParent string
  | InvalidSignature

definition validate_structure :: "dag_event \<Rightarrow> event_validation_error + unit" where
  "validate_structure e =
     (if is_genesis e then
        (if ev_lamport_time e \<noteq> 0 then Inl InvalidGenesisTimestamp else Inr ())
      else if ev_strong_parents e = [] then Inl NoParents
      else if ev_lamport_time e = 0 then Inl ZeroLamportTime
      else if ev_round e = 0 then Inl ZeroRound
      else Inr ())"

section \<open>The event builder\<close>

record event_builder =
  bld_creator :: validator_id
  bld_strong_parents :: "event_id list"
  bld_weak_parents :: "event_id list"
  bld_payload :: encrypted_batch
  bld_parent_times :: "u64 list"

definition builder_new :: "validator_id \<Rightarrow> event_builder" where
  "builder_new creator =
     \<lparr>bld_creator = creator, bld_strong_parents = [], bld_weak_parents = [],
      bld_payload = batch_empty, bld_parent_times = []\<rparr>"

definition add_strong_parent :: "event_id \<Rightarrow> u64 \<Rightarrow> event_builder \<Rightarrow> event_builder" where
  "add_strong_parent i lamport_time b =
     b\<lparr>bld_strong_parents := bld_strong_parents b @ [i],
       bld_parent_times := bld_parent_times b @ [lamport_time]\<rparr>"

definition add_weak_parent :: "event_id \<Rightarrow> event_builder \<Rightarrow> event_builder" where
  "add_weak_parent i b = b\<lparr>bld_weak_parents := bld_weak_parents b @ [i]\<rparr>"

definition with_payload :: "encrypted_batch \<Rightarrow> event_builder \<Rightarrow> event_builder" where
  "with_payload p b = b\<lparr>bld_payload := p\<rparr>"

definition compute_round :: "u64 list \<Rightarrow> u64" where
  "compute_round parent_rounds = u64_max_or_0 parent_rounds + 1"

definition build :: "hash_fn \<Rightarrow> u64 list \<Rightarrow> event_builder \<Rightarrow> dag_event \<times> bytes" where
  "build sha parent_rounds b =
     (let lamport_time = u64_max_or_0 (bld_parent_times b) + 1;
          round = compute_round parent_rounds;
          i = compute_id sha (bld_creator b) round (eb_batch_root (bld_payload b)) (bld_strong_parents b);
          event = \<lparr>ev_id = i, ev_creator = bld_creator b, ev_lamport_time = lamport_time,
            ev_round = round, ev_strong_parents = bld_strong_parents b,
            ev_weak_parents = bld_weak_parents b, ev_payload = bld_payload b,
            ev_signature = bls_signature_default\<rparr>
      in (event, signing_message event))"

section \<open>Lemmas\<close>

lemma validate_structure_ok:
  "validate_structure e = Inr () \<longleftrightarrow>
     (if ev_strong_parents e = [] then ev_round e = 0 \<and> ev_lamport_time e = 0
      else ev_lamport_time e \<noteq> 0 \<and> ev_round e \<noteq> 0)"
  by (auto simp: validate_structure_def is_genesis_def)

lemma concat_fixed_inject:
  assumes "\<forall>x \<in> set xs \<union> set ys. length x = n" and "0 < n" and "concat xs = concat ys"
  shows "xs = ys"
  using assms
proof (induction xs arbitrary: ys)
  case Nil
  then show ?case by (cases ys) auto
next
  case (Cons x xs)
  then obtain y ys' where "ys = y # ys'" by (cases ys) auto
  with Cons show ?case by auto
qed

lemma max_or_0_succ:
  assumes "\<forall>t \<in> set ts. t < u64_MAX"
  shows "u64_max_or_0 ts + 1 \<noteq> 0" and "t \<in> set ts \<Longrightarrow> t < u64_max_or_0 ts + 1"
proof -
  have m: "u64_max_or_0 ts < u64_MAX"
    using assms u64_max_or_0_in [of ts] by (cases "ts = []") auto
  then show "u64_max_or_0 ts + 1 \<noteq> 0"
    using u64_succ_greater [OF m, of "u64_max_or_0 ts"] by auto
  show "t \<in> set ts \<Longrightarrow> t < u64_max_or_0 ts + 1"
    using u64_succ_greater [OF m] u64_max_or_0_ge by blast
qed

section \<open>Properties\<close>

text \<open>The event identifier. It does not depend on the order in which the strong parents
  are listed, and (collisions of the hash on the two preimages aside) events with the same identifier
  have the same creator, round and payload root and the same parents.\<close>

theorem compute_id_canonical:
  assumes "length creator = 48" and "length creator' = 48"
    and "length payload = 32" and "length payload' = 32"
    and "\<forall>p \<in> set ps \<union> set ps'. length p = 32"
    and "inj_on sha {event_id_preimage creator r payload ps, event_id_preimage creator' r' payload' ps'}"
  shows "compute_id sha creator r payload ps = compute_id sha creator' r' payload' ps' \<longleftrightarrow>
    creator = creator' \<and> r = r' \<and> payload = payload' \<and> mset ps = mset ps'"
proof -
  have "compute_id sha creator r payload ps = compute_id sha creator' r' payload' ps' \<longleftrightarrow>
      event_id_preimage creator r payload ps = event_id_preimage creator' r' payload' ps'"
    unfolding compute_id_def by (rule inj_on_eq_iff [OF assms(6)]) simp_all
  also have "\<dots> \<longleftrightarrow> creator = creator' \<and> r = r' \<and> payload = payload' \<and>
      concat (sort ps) = concat (sort ps')"
    using assms(1-4) by (auto simp: event_id_preimage_def u64_le.enc_append_inject)
  also have "concat (sort ps) = concat (sort ps') \<longleftrightarrow> sort ps = sort ps'"
    using concat_fixed_inject [of "sort ps" "sort ps'" 32] assms(5) by auto
  also have "sort ps = sort ps' \<longleftrightarrow> mset ps = mset ps'"
    by (metis mset_sort properties_for_sort sorted_sort)
  finally show ?thesis .
qed

theorem compute_id_canonical_witness:
  "compute_id (\<lambda>x. x) (replicate 48 1) 5 (replicate 32 9) [replicate 32 3, replicate 32 2] =
   compute_id (\<lambda>x. x) (replicate 48 1) 5 (replicate 32 9) [replicate 32 2, replicate 32 3]"
proof -
  have "mset [replicate 32 3, replicate 32 2 :: bytes] = mset [replicate 32 2, replicate 32 3]" by simp
  moreover have "inj_on (\<lambda>x :: bytes. x) S" for S by simp
  ultimately show ?thesis
    by (subst compute_id_canonical) simp_all
qed

text \<open>A built event respects the invariants stated for DAG events. With at least one strong
  parent and clocks that have not run out, it passes the structural validation, its Lamport time
  exceeds that of every parent, its round exceeds every parent round, and its identifier is the
  canonical one.\<close>

theorem built_event_valid:
  assumes "bld_strong_parents b \<noteq> []"
    and "\<forall>t \<in> set (bld_parent_times b). t < u64_MAX" and "\<forall>r \<in> set parent_rounds. r < u64_MAX"
    and "build sha parent_rounds b = (e, msg)"
  shows "validate_structure e = Inr () \<and>
    (\<forall>t \<in> set (bld_parent_times b). t < ev_lamport_time e) \<and>
    (\<forall>r \<in> set parent_rounds. r < ev_round e) \<and>
    ev_id e = compute_id sha (ev_creator e) (ev_round e) (eb_batch_root (ev_payload e)) (ev_strong_parents e) \<and>
    msg = signing_message e"
proof -
  have e: "ev_lamport_time e = u64_max_or_0 (bld_parent_times b) + 1"
    "ev_round e = u64_max_or_0 parent_rounds + 1" "ev_strong_parents e = bld_strong_parents b"
    "ev_creator e = bld_creator b" "ev_payload e = bld_payload b"
    "ev_id e = compute_id sha (ev_creator e) (ev_round e) (eb_batch_root (ev_payload e)) (ev_strong_parents e)"
    "msg = signing_message e"
    using assms(4) by (auto simp: build_def Let_def compute_round_def)
  show ?thesis
    using max_or_0_succ [OF assms(2)] max_or_0_succ [OF assms(3)] assms(1) e
    by (simp add: validate_structure_ok)
qed

theorem built_event_valid_witness:
  "validate_structure (fst (build (\<lambda>x. x) [3, 4]
     (add_strong_parent [2] 9 (add_strong_parent [1] 7 (builder_new [5]))))) = Inr ()"
proof -
  let ?b = "add_strong_parent [2] 9 (add_strong_parent [1] 7 (builder_new [5]))"
  obtain e msg where e: "build (\<lambda>x. x) [3, 4] ?b = (e, msg)"
    by (cases "build (\<lambda>x. x) [3, 4] ?b")
  have "validate_structure e = Inr ()"
    using built_event_valid [OF _ _ _ e] by (simp add: add_strong_parent_def builder_new_def)
  with e show ?thesis by simp
qed

end
