(* ===== verification/Dag_Store.thy ===== *)
theory Dag_Store
  imports Dag_Events
begin

text \<open>
  The DAG store of \<^verbatim>\<open>src/dag/store.rs\<close>: the event table with its indices by creator and round, by
  round and by creator, the running maximum round, and the breadth-first search \<open>can_reach\<close> along strong
  parents. Each \<open>DashMap\<close> is a hash map; an operation runs without interference from other threads.
\<close>

record dag_store =
  ds_events :: "(event_id, dag_event) hmap"
  ds_by_creator_round :: "(validator_id \<times> u64, event_id) hmap"
  ds_by_round :: "(u64, event_id list) hmap"
  ds_latest_by_creator :: "(validator_id, event_id) hmap"
  ds_max_round :: u64

definition dag_new :: dag_store where
  "dag_new = \<lparr>ds_events = [], ds_by_creator_round = [], ds_by_round = [],
     ds_latest_by_creator = [], ds_max_round = 0\<rparr>"

definition dag_insert :: "dag_event \<Rightarrow> dag_store \<Rightarrow> dag_store" where
  "dag_insert e d =
     (let i = ev_id e; creator = ev_creator e; round = ev_round e in
      d\<lparr>ds_max_round := max (ds_max_round d) round,
        ds_by_creator_round := hm_insert (creator, round) i (ds_by_creator_round d),
        ds_by_round :=
          hm_insert round
            ((case hm_get (ds_by_round d) round of Some ids \<Rightarrow> ids | None \<Rightarrow> []) @ [i])
            (ds_by_round d),
        ds_latest_by_creator :=
          (case hm_get (ds_latest_by_creator d) creator of
             Some latest \<Rightarrow>
               (case hm_get (ds_events d) latest of
                  Some existing \<Rightarrow>
                    if ev_round existing < round
                    then hm_insert creator i (ds_latest_by_creator d)
                    else ds_latest_by_creator d
                | None \<Rightarrow> ds_latest_by_creator d)
           | None \<Rightarrow> hm_insert creator i (ds_latest_by_creator d)),
        ds_events := hm_insert i e (ds_events d)\<rparr>)"

definition dag_get :: "dag_store \<Rightarrow> event_id \<Rightarrow> dag_event option" where
  "dag_get d i = hm_get (ds_events d) i"

definition dag_contains :: "dag_store \<Rightarrow> event_id \<Rightarrow> bool" where
  "dag_contains d i = hm_contains (ds_events d) i"

definition dag_latest_from :: "dag_store \<Rightarrow> validator_id \<Rightarrow> event_id option" where
  "dag_latest_from d c = hm_get (ds_latest_by_creator d) c"

definition dag_events_at_round :: "dag_store \<Rightarrow> u64 \<Rightarrow> dag_event list" where
  "dag_events_at_round d r =
     (case hm_get (ds_by_round d) r of
        Some ids \<Rightarrow> List.map_filter (hm_get (ds_events d)) ids
      | None \<Rightarrow> [])"

definition dag_event_at :: "dag_store \<Rightarrow> validator_id \<Rightarrow> u64 \<Rightarrow> dag_event option" where
  "dag_event_at d creator r =
     (case hm_get (ds_by_creator_round d) (creator, r) of
        Some i \<Rightarrow> hm_get (ds_events d) i
      | None \<Rightarrow> None)"

definition dag_max_round :: "dag_store \<Rightarrow> u64" where
  "dag_max_round d = ds_max_round d"

text \<open>The \<open>while let\<close> loop of \<open>can_reach\<close>: a queue and the set of visited events. Every round either
  visits one more event of the table or takes an element off the queue.\<close>

function bfs :: "(event_id, dag_event) hmap \<Rightarrow> event_id \<Rightarrow> event_id list \<Rightarrow> event_id hset \<Rightarrow> bool" where
  "bfs evs to [] visited = False"
| "bfs evs to (current # queue) visited =
     (if current = to then True
      else if current \<in> set visited then bfs evs to queue visited
      else let visited' = current # visited in
           case hm_get evs current of
             Some event \<Rightarrow>
               bfs evs to (queue @ filter (\<lambda>p. p \<notin> set visited') (ev_strong_parents event)) visited'
           | None \<Rightarrow> bfs evs to queue visited')"
  by pat_completeness auto
termination
proof (relation "inv_image (less_than <*lex*> less_than)
    (\<lambda>(evs, to, queue, visited). (card (fst ` set evs - set visited), length queue))")
  fix evs :: "(event_id, dag_event) hmap" and to current queue visited visited' event
  assume new: "current \<notin> set visited" and v: "visited' = current # visited"
    and "hm_get evs current = Some event"
  then have "current \<in> fst ` set evs" by (force dest: map_of_SomeD)
  with new have "card (fst ` set evs - set visited') < card (fst ` set evs - set visited)"
    unfolding v by (intro psubset_card_mono) auto
  then show "((evs, to, queue @ filter (\<lambda>p. p \<notin> set visited') (ev_strong_parents event), visited'),
      evs, to, current # queue, visited)
    \<in> inv_image (less_than <*lex*> less_than)
        (\<lambda>(evs, to, queue, visited). (card (fst ` set evs - set visited), length queue))"
    by simp
next
  fix evs :: "(event_id, dag_event) hmap" and to current queue visited visited'
  assume v: "visited' = current # visited" and "hm_get evs current = None"
  then have "fst ` set evs - set visited' = fst ` set evs - set visited"
    by (auto simp: map_of_eq_None_iff v)
  then show "((evs, to, queue, visited'), evs, to, current # queue, visited)
    \<in> inv_image (less_than <*lex*> less_than)
        (\<lambda>(evs, to, queue, visited). (card (fst ` set evs - set visited), length queue))"
    by simp
qed auto

definition dag_can_reach :: "dag_store \<Rightarrow> event_id \<Rightarrow> event_id \<Rightarrow> bool" where
  "dag_can_reach d from to = (if from = to then True else bfs (ds_events d) to [from] [])"

definition dag_len :: "dag_store \<Rightarrow> nat" where
  "dag_len d = length (ds_events d)"

definition dag_is_empty :: "dag_store \<Rightarrow> bool" where
  "dag_is_empty d = (ds_events d = [])"

definition dag_all_events :: "dag_store \<Rightarrow> dag_event list" where
  "dag_all_events d = map snd (ds_events d)"

section \<open>Reachability\<close>

definition parent_rel :: "(event_id, dag_event) hmap \<Rightarrow> (event_id \<times> event_id) set" where
  "parent_rel evs = {(i, p). \<exists>e. hm_get evs i = Some e \<and> p \<in> set (ev_strong_parents e)}"

lemma parent_relI: "hm_get evs i = Some e \<Longrightarrow> p \<in> set (ev_strong_parents e) \<Longrightarrow> (i, p) \<in> parent_rel evs"
  by (auto simp: parent_rel_def)

text \<open>A path from a visited event to an unvisited one leaves through the queue.\<close>

lemma reach_through_frontier:
  assumes "(v, t) \<in> R\<^sup>*" and "v \<in> V" and "t \<notin> V" and "\<forall>x \<in> V. \<forall>y. (x, y) \<in> R \<longrightarrow> y \<in> V \<union> Q"
  shows "\<exists>x \<in> Q. (x, t) \<in> R\<^sup>*"
  using assms by (induction rule: converse_rtrancl_induct) auto

text \<open>Visiting an event moves the search to its parents not visited before.\<close>

lemma frontier_step:
  assumes succ: "\<And>y. (c, y) \<in> R \<longleftrightarrow> y \<in> P" and t: "t \<noteq> c" "t \<notin> V" and closed: "\<forall>x \<in> V. \<forall>y. (x, y) \<in> R \<longrightarrow> y \<in> V \<union> insert c Q"
  shows "(\<exists>x \<in> Q \<union> {p \<in> P. p \<noteq> c \<and> p \<notin> V}. (x, t) \<in> R\<^sup>*) \<longleftrightarrow> (\<exists>x \<in> insert c Q. (x, t) \<in> R\<^sup>*)"
proof -
  let ?Q = "Q \<union> {p \<in> P. p \<noteq> c \<and> p \<notin> V}"
  have "\<forall>x \<in> insert c V. \<forall>y. (x, y) \<in> R \<longrightarrow> y \<in> insert c V \<union> ?Q" using closed succ by auto
  then have "\<exists>x \<in> ?Q. (x, t) \<in> R\<^sup>*" if "(c, t) \<in> R\<^sup>*" using reach_through_frontier [OF that, of "insert c V" ?Q] t by auto
  moreover have "(c, t) \<in> R\<^sup>*" if "x \<in> P" "(x, t) \<in> R\<^sup>*" for x using that succ by (meson converse_rtrancl_into_rtrancl)
  ultimately show ?thesis by auto
qed

lemma bfs_correct:
  assumes "to \<notin> set visited"
    and "\<forall>x \<in> set visited. \<forall>y. (x, y) \<in> parent_rel evs \<longrightarrow> y \<in> set visited \<union> set queue"
  shows "bfs evs to queue visited \<longleftrightarrow> (\<exists>x \<in> set queue. (x, to) \<in> (parent_rel evs)\<^sup>*)"
  using assms
proof (induction evs to queue visited rule: bfs.induct)
  case (2 evs to current queue visited)
  let ?R = "parent_rel evs" and ?v = "current # visited"
  consider "current = to" | "current \<noteq> to" "current \<in> set visited"
    | "current \<noteq> to" "current \<notin> set visited" by blast
  then show ?case
  proof cases
    case 1
    then show ?thesis by auto
  next
    case 2
    have closed: "\<forall>x \<in> set visited. \<forall>y. (x, y) \<in> ?R \<longrightarrow> y \<in> set visited \<union> set queue"
      using "2.prems"(2) 2 by auto
    have "\<exists>x \<in> set queue. (x, to) \<in> ?R\<^sup>*" if "(current, to) \<in> ?R\<^sup>*"
      using reach_through_frontier [OF that 2(2) "2.prems"(1) closed] .
    with 2 "2.IH"(1) [OF 2 "2.prems"(1) closed] show ?thesis by auto
  next
    case 3
    define ps where "ps = (case hm_get evs current of None \<Rightarrow> [] | Some e \<Rightarrow> ev_strong_parents e)"
    have succ: "(current, y) \<in> ?R \<longleftrightarrow> y \<in> set ps" for y
      by (cases "hm_get evs current") (auto simp: parent_rel_def ps_def)
    have to: "to \<notin> set ?v" using 3 "2.prems"(1) by auto
    have "(\<exists>x \<in> set (queue @ filter (\<lambda>p. p \<notin> set ?v) ps). (x, to) \<in> ?R\<^sup>*) \<longleftrightarrow> (\<exists>x \<in> set (current # queue). (x, to) \<in> ?R\<^sup>*)"
      using frontier_step [of current ?R "set ps" to "set visited" "set queue"] succ to "2.prems"(2) by simp
    moreover have "\<forall>x \<in> set ?v. \<forall>y. (x, y) \<in> ?R \<longrightarrow> y \<in> set ?v \<union> set (queue @ filter (\<lambda>p. p \<notin> set ?v) ps)"
      using "2.prems"(2) succ by auto
    ultimately show ?thesis
      using "2.IH"(2,3) [OF 3 refl _ to] 3 by (cases "hm_get evs current") (simp_all add: ps_def Let_def)
  qed
qed simp

lemma dag_can_reach_iff: "dag_can_reach d i j \<longleftrightarrow> (i, j) \<in> (parent_rel (ds_events d))\<^sup>*"
  using bfs_correct [of j "[]" "ds_events d" "[i]"] by (auto simp: dag_can_reach_def)

section \<open>The indices agree with the event table\<close>

text \<open>An event is admissible when the table holds no other event under its id.\<close>

definition admissible :: "dag_store \<Rightarrow> dag_event \<Rightarrow> bool" where
  "admissible d e = (case dag_get d (ev_id e) of None \<Rightarrow> True | Some e' \<Rightarrow> e' = e)"

definition has_event :: "dag_store \<Rightarrow> dag_event \<Rightarrow> bool" where
  "has_event d e = (dag_get d (ev_id e) = Some e)"

definition dag_inv :: "dag_store \<Rightarrow> bool" where
  "dag_inv d \<longleftrightarrow>
     hm_wf (ds_events d) \<and>
     (\<forall>i e. dag_get d i = Some e \<longrightarrow> ev_id e = i) \<and>
     (\<forall>c r i. hm_get (ds_by_creator_round d) (c, r) = Some i \<longrightarrow>
        (\<exists>e. dag_get d i = Some e \<and> ev_creator e = c \<and> ev_round e = r)) \<and>
     (\<forall>e. has_event d e \<longrightarrow> hm_get (ds_by_creator_round d) (ev_creator e, ev_round e) \<noteq> None) \<and>
     (\<forall>r ids i. hm_get (ds_by_round d) r = Some ids \<longrightarrow> i \<in> set ids \<longrightarrow>
        (\<exists>e. dag_get d i = Some e \<and> ev_round e = r)) \<and>
     (\<forall>e. has_event d e \<longrightarrow> (\<exists>ids. hm_get (ds_by_round d) (ev_round e) = Some ids \<and> ev_id e \<in> set ids)) \<and>
     (\<forall>c i. dag_latest_from d c = Some i \<longrightarrow> (\<exists>e. dag_get d i = Some e \<and> ev_creator e = c)) \<and>
     (\<forall>e. has_event d e \<longrightarrow> (\<exists>i e'. dag_latest_from d (ev_creator e) = Some i \<and>
        dag_get d i = Some e' \<and> ev_round e \<le> ev_round e')) \<and>
     (\<forall>e. has_event d e \<longrightarrow> ev_round e \<le> ds_max_round d)"

lemma dag_get_insert [simp]:
  "dag_get (dag_insert e d) i = (if i = ev_id e then Some e else dag_get d i)"
  by (simp add: dag_get_def dag_insert_def Let_def hm_lookup)

lemma dag_get_insert_mono:
  "admissible d e \<Longrightarrow> dag_get d i = Some x \<Longrightarrow> dag_get (dag_insert e d) i = Some x"
  by (cases "i = ev_id e") (simp_all add: admissible_def)

lemma dag_contains_iff: "dag_contains d i \<longleftrightarrow> dag_get d i \<noteq> None"
  by (simp add: dag_contains_def dag_get_def hm_contains_iff)

lemma has_event_insert:
  "admissible d e \<Longrightarrow> has_event (dag_insert e d) x \<longleftrightarrow> x = e \<or> has_event d x"
  by (auto simp: has_event_def admissible_def split: option.splits if_splits)

lemma dag_inv_new [simp]: "dag_inv dag_new"
  by (simp add: dag_inv_def dag_new_def dag_get_def has_event_def dag_latest_from_def)

lemma insert_indices:
  "hm_get (ds_by_creator_round (dag_insert e d)) k =
     (if k = (ev_creator e, ev_round e) then Some (ev_id e) else hm_get (ds_by_creator_round d) k)"
  "hm_get (ds_by_round (dag_insert e d)) r =
     (if r = ev_round e
      then Some ((case hm_get (ds_by_round d) r of Some ids \<Rightarrow> ids | None \<Rightarrow> []) @ [ev_id e])
      else hm_get (ds_by_round d) r)"
  "dag_latest_from (dag_insert e d) c =
     (if c = ev_creator e \<and>
         (case dag_latest_from d c of
            None \<Rightarrow> True
          | Some i \<Rightarrow> (case dag_get d i of None \<Rightarrow> False | Some x \<Rightarrow> ev_round x < ev_round e))
      then Some (ev_id e) else dag_latest_from d c)"
  "ds_max_round (dag_insert e d) = max (ds_max_round d) (ev_round e)"
  "hm_wf (ds_events d) \<Longrightarrow> hm_wf (ds_events (dag_insert e d))"
  by (auto simp: dag_insert_def Let_def hm_lookup dag_latest_from_def dag_get_def
      distinct_update split: option.splits)

lemmas dag_invD =
  dag_inv_def [THEN iffD1, THEN conjunct2, THEN conjunct1, rule_format]
  dag_inv_def [THEN iffD1, THEN conjunct2, THEN conjunct2, THEN conjunct1, rule_format]
  dag_inv_def [THEN iffD1, THEN conjunct2, THEN conjunct2, THEN conjunct2, THEN conjunct1, rule_format]
  dag_inv_def [THEN iffD1, THEN conjunct2, THEN conjunct2, THEN conjunct2, THEN conjunct2, THEN conjunct1, rule_format]
  dag_inv_def [THEN iffD1, THEN conjunct2, THEN conjunct2, THEN conjunct2, THEN conjunct2, THEN conjunct2, THEN conjunct1, rule_format]
  dag_inv_def [THEN iffD1, THEN conjunct2, THEN conjunct2, THEN conjunct2, THEN conjunct2, THEN conjunct2, THEN conjunct2, THEN conjunct1, rule_format]
  dag_inv_def [THEN iffD1, THEN conjunct2, THEN conjunct2, THEN conjunct2, THEN conjunct2, THEN conjunct2, THEN conjunct2, THEN conjunct2, THEN conjunct1, rule_format]
  dag_inv_def [THEN iffD1, THEN conjunct2, THEN conjunct2, THEN conjunct2, THEN conjunct2, THEN conjunct2, THEN conjunct2, THEN conjunct2, THEN conjunct2, rule_format]
lemma latest_after_insert:
  assumes inv: "dag_inv d" and adm: "admissible d e" and x: "has_event (dag_insert e d) x"
  shows "\<exists>i e'. dag_latest_from (dag_insert e d) (ev_creator x) = Some i \<and>
    dag_get (dag_insert e d) i = Some e' \<and> ev_round x \<le> ev_round e'"
proof -
  note get = dag_get_insert_mono [OF adm]
  from x consider "x = e" "dag_latest_from d (ev_creator x) = None"
    | i e' where "dag_latest_from d (ev_creator x) = Some i" "dag_get d i = Some e'"
        "x = e \<or> ev_round x \<le> ev_round e'"
    using has_event_insert [OF adm, of x] dag_invD(7) [OF inv, of x]
      dag_invD(6) [OF inv, of "ev_creator x"] by (cases "dag_latest_from d (ev_creator x)") auto
  then show ?thesis
  proof cases
    case 1
    then show ?thesis by (simp add: insert_indices)
  next
    case 2
    show ?thesis
    proof (cases "ev_creator x = ev_creator e \<and> ev_round e' < ev_round e")
      case True
      with 2 show ?thesis by (auto simp: insert_indices)
    next
      case False
      with 2 have "dag_latest_from (dag_insert e d) (ev_creator x) = Some i"
        by (auto simp: insert_indices)
      moreover have "ev_round x \<le> ev_round e'" using 2 False by auto
      ultimately show ?thesis using get [OF 2(2)] by blast
    qed
  qed
qed

lemma by_creator_after_insert:
  assumes inv: "dag_inv d" and adm: "admissible d e" and i: "hm_get (ds_by_creator_round (dag_insert e d)) (c, r) = Some i"
  shows "\<exists>x. dag_get (dag_insert e d) i = Some x \<and> ev_creator x = c \<and> ev_round x = r"
proof -
  from i consider "c = ev_creator e" "r = ev_round e" "i = ev_id e" | "hm_get (ds_by_creator_round d) (c, r) = Some i"
    unfolding insert_indices by (metis option.inject prod.inject)
  then show ?thesis
  proof cases
    case 2
    with dag_invD(2) [OF inv] obtain x where "dag_get d i = Some x" "ev_creator x = c" "ev_round x = r" by metis
    with dag_get_insert_mono [OF adm] show ?thesis by metis
  qed simp
qed

lemma by_round_after_insert:
  assumes inv: "dag_inv d" and adm: "admissible d e"
    and i: "hm_get (ds_by_round (dag_insert e d)) r = Some ids" "i \<in> set ids"
  shows "\<exists>x. dag_get (dag_insert e d) i = Some x \<and> ev_round x = r"
proof -
  from i consider "i = ev_id e" "r = ev_round e" | ids' where "hm_get (ds_by_round d) r = Some ids'" "i \<in> set ids'"
    unfolding insert_indices by (cases "r = ev_round e"; cases "hm_get (ds_by_round d) r") auto
  then show ?thesis
  proof cases
    case 2
    with dag_invD(4) [OF inv] obtain x where "dag_get d i = Some x" "ev_round x = r" by metis
    with dag_get_insert_mono [OF adm] show ?thesis by metis
  qed simp
qed

lemma listed_after_insert:
  assumes inv: "dag_inv d" and adm: "admissible d e" and x: "has_event (dag_insert e d) x"
  shows "\<exists>ids. hm_get (ds_by_round (dag_insert e d)) (ev_round x) = Some ids \<and> ev_id x \<in> set ids"
proof -
  from x consider "x = e" | ids where "hm_get (ds_by_round d) (ev_round x) = Some ids" "ev_id x \<in> set ids"
    using dag_invD(5) [OF inv] has_event_insert [OF adm] by blast
  then show ?thesis by cases (auto simp: insert_indices)
qed

lemma latest_creator_after_insert:
  assumes inv: "dag_inv d" and adm: "admissible d e" and i: "dag_latest_from (dag_insert e d) c = Some i"
  shows "\<exists>x. dag_get (dag_insert e d) i = Some x \<and> ev_creator x = c"
proof -
  from i consider "c = ev_creator e" "i = ev_id e" | "dag_latest_from d c = Some i"
    unfolding insert_indices by (metis option.inject)
  then show ?thesis
  proof cases
    case 2
    with dag_invD(6) [OF inv] obtain x where "dag_get d i = Some x" "ev_creator x = c" by metis
    with dag_get_insert_mono [OF adm] show ?thesis by metis
  qed simp
qed

lemmas after_insert = by_creator_after_insert by_round_after_insert listed_after_insert latest_creator_after_insert latest_after_insert

lemma dag_inv_insert:
  assumes inv: "dag_inv d" and adm: "admissible d e"
  shows "dag_inv (dag_insert e d)"
proof -
  note he = has_event_insert [OF adm] and D = dag_invD [OF inv]
  let ?d = "dag_insert e d"
  have "hm_wf (ds_events ?d)" using inv insert_indices(5) by (simp add: dag_inv_def)
  moreover have "\<forall>i x. dag_get ?d i = Some x \<longrightarrow> ev_id x = i" using D(1) by (auto split: if_splits)
  moreover have "\<forall>x. has_event ?d x \<longrightarrow> hm_get (ds_by_creator_round ?d) (ev_creator x, ev_round x) \<noteq> None"
    using D(3) by (auto simp: he insert_indices)
  moreover have "\<forall>x. has_event ?d x \<longrightarrow> ev_round x \<le> ds_max_round ?d"
    using D(8) by (auto simp: he insert_indices le_max_iff_disj)
  ultimately show ?thesis
    unfolding dag_inv_def using after_insert [OF inv adm] by (intro conjI) blast+
qed

lemma events_at_round_set:
  assumes "dag_inv d"
  shows "set (dag_events_at_round d r) = {e. has_event d e \<and> ev_round e = r}"
proof (intro equalityI subsetI CollectI)
  fix e assume "e \<in> set (dag_events_at_round d r)"
  then obtain ids i where i: "hm_get (ds_by_round d) r = Some ids" "i \<in> set ids" "dag_get d i = Some e"
    by (cases "hm_get (ds_by_round d) r") (auto simp: dag_events_at_round_def dag_get_def set_map_filter)
  have "ev_round e = r" and "ev_id e = i"
    using dag_invD(4) [OF assms i(1,2)] dag_invD(1) [OF assms i(3)] i(3) by simp_all
  with i(3) show "has_event d e \<and> ev_round e = r"
    unfolding has_event_def by blast
next
  fix e assume "e \<in> {e. has_event d e \<and> ev_round e = r}"
  then have e: "has_event d e" and r: "r = ev_round e" by auto
  from dag_invD(5) [OF assms e] obtain ids
    where "hm_get (ds_by_round d) r = Some ids" "ev_id e \<in> set ids" unfolding r by blast
  with e show "e \<in> set (dag_events_at_round d r)"
    by (auto simp: dag_events_at_round_def has_event_def dag_get_def set_map_filter)
qed

lemma event_at_SomeD:
  assumes "dag_inv d" and "dag_event_at d c r = Some e"
  shows "has_event d e" "ev_creator e = c" "ev_round e = r"
proof -
  from assms(2) obtain i where i: "hm_get (ds_by_creator_round d) (c, r) = Some i" "dag_get d i = Some e"
    by (auto simp: dag_event_at_def dag_get_def split: option.splits)
  with dag_invD(2) [OF assms(1) i(1)] show "ev_creator e = c" "ev_round e = r" by auto
  from dag_invD(1) [OF assms(1) i(2)] i(2) show "has_event d e" by (simp add: has_event_def)
qed

lemma event_at_ex:
  assumes "dag_inv d" and e: "has_event d e"
  shows "\<exists>x. dag_event_at d (ev_creator e) (ev_round e) = Some x"
proof -
  from dag_invD(3) [OF assms] obtain i
    where i: "hm_get (ds_by_creator_round d) (ev_creator e, ev_round e) = Some i" by blast
  with dag_invD(2) [OF assms(1) i] show ?thesis by (auto simp: dag_event_at_def dag_get_def)
qed

text \<open>The contract the rest of the node relies on: what a lookup returns after an insertion.\<close>

locale event_store =
  fixes get :: "'d \<Rightarrow> event_id \<Rightarrow> dag_event option"
    and has :: "'d \<Rightarrow> event_id \<Rightarrow> bool"
    and ins :: "dag_event \<Rightarrow> 'd \<Rightarrow> 'd"
  assumes get_ins: "get (ins e d) i = (if i = ev_id e then Some e else get d i)"
    and has_iff: "has d i \<longleftrightarrow> get d i \<noteq> None"
begin

lemma has_fold_ins: "has (fold ins es d) i \<longleftrightarrow> has d i \<or> i \<in> ev_id ` set es"
  by (induction es arbitrary: d) (auto simp: has_iff get_ins)

lemma get_fold_ins_other: "i \<notin> ev_id ` set es \<Longrightarrow> get (fold ins es d) i = get d i"
  by (induction es arbitrary: d) (auto simp: get_ins)

lemma get_fold_ins_same:
  "i \<in> ev_id ` set es \<Longrightarrow> \<exists>e \<in> set es. ev_id e = i \<and> get (fold ins es d) i = Some e"
proof (induction es arbitrary: d)
  case (Cons e es)
  show ?case
  proof (cases "i \<in> ev_id ` set es")
    case True
    with Cons.IH [of "ins e d"] show ?thesis by auto
  next
    case False
    with Cons.prems show ?thesis by (auto simp: get_fold_ins_other get_ins)
  qed
qed simp

end

interpretation dag: event_store dag_get dag_contains dag_insert
  by unfold_locales (simp_all add: dag_contains_iff)

text \<open>A store filled from a list of events in which an id determines the event.\<close>

definition ids_consistent :: "dag_event set \<Rightarrow> bool" where
  "ids_consistent E \<longleftrightarrow> (\<forall>x \<in> E. \<forall>y \<in> E. ev_id x = ev_id y \<longrightarrow> x = y)"

lemma dag_inv_fold:
  assumes "dag_inv d" and "ids_consistent ({e. has_event d e} \<union> set es)"
  shows "dag_inv (fold dag_insert es d) \<and>
    {e. has_event (fold dag_insert es d) e} = {e. has_event d e} \<union> set es"
  using assms
proof (induction es arbitrary: d)
  case (Cons e es)
  have "e' = e" if "dag_get d (ev_id e) = Some e'" for e'
    using Cons.prems(2) dag_invD(1) [OF Cons.prems(1) that] that
    by (simp add: ids_consistent_def has_event_def)
  then have adm: "admissible d e" by (auto simp: admissible_def split: option.splits)
  have "{x. has_event (dag_insert e d) x} = insert e {x. has_event d x}"
    using has_event_insert [OF adm] by auto
  with Cons.IH [OF dag_inv_insert [OF Cons.prems(1) adm]] Cons.prems(2)
  show ?case by simp
qed simp

lemma dag_of_list:
  assumes "ids_consistent (set es)"
  shows "dag_inv (fold dag_insert es dag_new)" "has_event (fold dag_insert es dag_new) e \<longleftrightarrow> e \<in> set es"
proof -
  have "{e. has_event dag_new e} = {}" by (simp add: has_event_def dag_get_def dag_new_def)
  with dag_inv_fold [of dag_new es] assms
  show "dag_inv (fold dag_insert es dag_new)" "has_event (fold dag_insert es dag_new) e \<longleftrightarrow> e \<in> set es"
    by auto
qed


lemma max_round_fold:
  "ds_max_round (fold dag_insert es d) = Max (insert (ds_max_round d) (ev_round ` set es))"
proof (induction es arbitrary: d)
  case (Cons e es)
  have "ds_max_round (fold dag_insert (e # es) d) =
      Max (insert (max (ds_max_round d) (ev_round e)) (ev_round ` set es))"
    using Cons.IH [of "dag_insert e d"] by (simp add: insert_indices)
  also have "\<dots> = Max (insert (ds_max_round d) (ev_round ` set (e # es)))"
    by (cases "es = []") (simp_all add: Max_insert ac_simps max.left_commute)
  finally show ?case .
qed simp

section \<open>Properties\<close>

text \<open>Property C16: \<open>can_reach\<close> terminates on every store, cyclic or not, and returns true exactly when
  a path of strong-parent links leads from the first event to the second.\<close>

theorem can_reach_iff_path:
  "dag_can_reach d from to \<longleftrightarrow> (from, to) \<in> (parent_rel (ds_events d))\<^sup>*"
  by (rule dag_can_reach_iff)

text \<open>Property C22: a store filled, in any order and with any repetitions, from events whose ids
  identify them answers every query from exactly those events: lookups by id and by round, the lookup by
  creator and round (which finds an event whenever one exists), the highest round, and the latest event
  of a creator, which has that creator's highest round.\<close>

theorem store_answers_from_inserted:
  assumes ids: "ids_consistent (set es)" and d: "d = fold dag_insert es dag_new"
  shows "(\<forall>i e. dag_get d i = Some e \<longleftrightarrow> e \<in> set es \<and> ev_id e = i) \<and>
    (\<forall>r. set (dag_events_at_round d r) = {e \<in> set es. ev_round e = r}) \<and>
    (\<forall>c r e. dag_event_at d c r = Some e \<longrightarrow> e \<in> set es \<and> ev_creator e = c \<and> ev_round e = r) \<and>
    (\<forall>c r. dag_event_at d c r = None \<longleftrightarrow> \<not> (\<exists>e \<in> set es. ev_creator e = c \<and> ev_round e = r)) \<and>
    dag_max_round d = Max (insert 0 (ev_round ` set es)) \<and>
    (\<forall>e \<in> set es. \<exists>l \<in> set es. dag_latest_from d (ev_creator e) = Some (ev_id l) \<and>
      ev_creator l = ev_creator e \<and> (\<forall>x \<in> set es. ev_creator x = ev_creator e \<longrightarrow> ev_round x \<le> ev_round l))"
proof (intro conjI allI ballI impI)
  note inv = dag_of_list(1) [OF ids, folded d] and has = dag_of_list(2) [OF ids, folded d]
  show get: "dag_get d i = Some e \<longleftrightarrow> e \<in> set es \<and> ev_id e = i" for i e
    using has [of e] dag_invD(1) [OF inv, of i e] unfolding has_event_def by blast
  show "set (dag_events_at_round d r) = {e \<in> set es. ev_round e = r}" for r
    using events_at_round_set [OF inv] has by simp
  show "e \<in> set es" "ev_creator e = c" "ev_round e = r" if "dag_event_at d c r = Some e" for c r e
    using event_at_SomeD [OF inv that] has by simp_all
  show "dag_event_at d c r = None \<longleftrightarrow> \<not> (\<exists>e \<in> set es. ev_creator e = c \<and> ev_round e = r)" for c r
    using event_at_SomeD [OF inv] event_at_ex [OF inv] unfolding has
    by (cases "dag_event_at d c r") fastforce+
  show "dag_max_round d = Max (insert 0 (ev_round ` set es))"
    unfolding dag_max_round_def d max_round_fold by (simp add: dag_new_def)
  show "\<exists>l \<in> set es. dag_latest_from d (ev_creator e) = Some (ev_id l) \<and>
      ev_creator l = ev_creator e \<and> (\<forall>x \<in> set es. ev_creator x = ev_creator e \<longrightarrow> ev_round x \<le> ev_round l)"
    if e: "e \<in> set es" for e
  proof -
    from e obtain j l where l: "dag_latest_from d (ev_creator e) = Some j" "dag_get d j = Some l"
      using dag_invD(7) [OF inv] has by blast
    have "ev_creator l = ev_creator e" using dag_invD(6) [OF inv l(1)] l(2) by auto
    moreover have "ev_round x \<le> ev_round l" if "x \<in> set es" "ev_creator x = ev_creator e" for x
      using dag_invD(7) [OF inv, of x] that has l by auto
    moreover have "l \<in> set es" "j = ev_id l" using l(2) get by auto
    ultimately show ?thesis using l(1) by blast
  qed
qed

text \<open>Two creators over two rounds, one of the events inserted twice.\<close>

definition example_event :: "u8 \<Rightarrow> u8 \<Rightarrow> u64 \<Rightarrow> event_id list \<Rightarrow> dag_event" where
  "example_event i c r ps = \<lparr>ev_id = replicate 32 i, ev_creator = replicate 48 c, ev_lamport_time = r,
     ev_round = r, ev_strong_parents = ps, ev_weak_parents = [], ev_payload = batch_empty,
     ev_signature = bls_signature_default\<rparr>"

definition example_events :: "dag_event list" where
  "example_events = [example_event 1 1 0 [], example_event 2 2 0 [],
     example_event 3 1 1 [replicate 32 1, replicate 32 2], example_event 1 1 0 []]"

lemma example_event_sel [simp]:
  "ev_id (example_event i c r ps) = replicate 32 i" "ev_creator (example_event i c r ps) = replicate 48 c"
  "ev_round (example_event i c r ps) = r" "ev_strong_parents (example_event i c r ps) = ps"
  by (simp_all add: example_event_def)

lemma example_events_consistent: "ids_consistent (set example_events)"
  by (simp add: ids_consistent_def example_events_def)

theorem store_answers_from_inserted_witness:
  "ids_consistent (set example_events) \<and>
   dag_max_round (fold dag_insert example_events dag_new) = 1 \<and>
   set (dag_events_at_round (fold dag_insert example_events dag_new) 1) =
     {example_event 3 1 1 [replicate 32 1, replicate 32 2]}"
proof (intro conjI)
  show "ids_consistent (set example_events)" by (rule example_events_consistent)
  show "dag_max_round (fold dag_insert example_events dag_new) = 1"
    using store_answers_from_inserted [OF example_events_consistent refl]
    by (simp add: example_events_def)
  have "set (dag_events_at_round (fold dag_insert example_events dag_new) 1) =
      {e \<in> set example_events. ev_round e = 1}"
    using store_answers_from_inserted [OF example_events_consistent refl] by blast
  also have "\<dots> = {example_event 3 1 1 [replicate 32 1, replicate 32 2]}"
    unfolding example_events_def by (simp add: Collect_conv_if2 conj_disj_distribR) auto
  finally show "set (dag_events_at_round (fold dag_insert example_events dag_new) 1) =
      {example_event 3 1 1 [replicate 32 1, replicate 32 2]}" .
qed

end
