(* ===== verification/Commit_Detector.thy ===== *)
theory Commit_Detector
  imports Leader_Election Dag_Store "HOL-Library.Sublist"
begin

text \<open>
  The commit rule, \<^verbatim>\<open>src/consensus/commit.rs\<close>. A panic of the leader election propagates to the caller.
\<close>

record commit_detector =
  cd_validator_set :: validator_set
  cd_last_committed :: u64
  cd_seed :: bytes

record commit_result =
  cr_round :: u64
  cr_anchor_id :: event_id
  cr_leader :: validator_id
  cr_support_round :: u64

definition cd_new :: "validator_set \<Rightarrow> bytes \<Rightarrow> commit_detector" where
  "cd_new vs initial_seed =
     \<lparr>cd_validator_set = vs, cd_last_committed = 0, cd_seed = initial_seed\<rparr>"

text \<open>The loop over the events of the supporting round, and the quorum check on its result.\<close>

definition supporters :: "dag_store \<Rightarrow> event_id \<Rightarrow> u64 \<Rightarrow> validator_id hset" where
  "supporters dag anchor future_round =
     fold (\<lambda>event s. if dag_can_reach dag (ev_id event) anchor then List.insert (ev_creator event) s else s)
       (dag_events_at_round dag future_round) []"

definition check_quorum_support :: "commit_detector \<Rightarrow> dag_store \<Rightarrow> event_id \<Rightarrow> u64 \<Rightarrow> u64 option" where
  "check_quorum_support cd dag anchor future_round =
     (if vs_has_quorum (cd_validator_set cd) (supporters dag anchor future_round)
      then Some future_round else None)"

primrec first_support :: "commit_detector \<Rightarrow> dag_store \<Rightarrow> event_id \<Rightarrow> u64 list \<Rightarrow> u64 option" where
  "first_support cd dag anchor [] = None"
| "first_support cd dag anchor (future_round # rs) =
     (case check_quorum_support cd dag anchor future_round of
        Some support_round \<Rightarrow> Some support_round
      | None \<Rightarrow> first_support cd dag anchor rs)"

definition check_commit ::
    "hash_fn \<Rightarrow> commit_detector \<Rightarrow> dag_store \<Rightarrow> u64 \<Rightarrow> panic + commit_result option" where
  "check_commit sha cd dag round =
     (if round \<le> cd_last_committed cd then Inr None
      else case elect_leader sha (cd_validator_set cd) round (cd_seed cd) of
        Inl p \<Rightarrow> Inl p
      | Inr None \<Rightarrow> Inr None
      | Inr (Some leader) \<Rightarrow>
          (case dag_event_at dag leader round of
             None \<Rightarrow> Inr None
           | Some anchor \<Rightarrow>
               Inr (map_option
                 (\<lambda>support_round. \<lparr>cr_round = round, cr_anchor_id = ev_id anchor,
                    cr_leader = leader, cr_support_round = support_round\<rparr>)
                 (first_support cd dag (ev_id anchor)
                    (u64_range_incl (round + 1) (dag_max_round dag))))))"

definition confirm_commit :: "hash_fn \<Rightarrow> u64 \<Rightarrow> event_id \<Rightarrow> commit_detector \<Rightarrow> commit_detector" where
  "confirm_commit sha round anchor_id cd =
     (if cd_last_committed cd < round
      then cd\<lparr>cd_last_committed := round, cd_seed := sha anchor_id\<rparr>
      else cd)"

lemma check_commit_SomeD:
  assumes "check_commit sha cd dag round = Inr (Some r)"
  shows "cd_last_committed cd < round" "cr_round r = round"
  using assms by (auto simp: check_commit_def split: if_splits sum.splits option.splits)

text \<open>The loop of \<open>try_advance\<close>. Every round either ends it or raises \<open>last_committed\<close>, so it ends even if
  the round counter wraps.\<close>

function advance_loop ::
    "hash_fn \<Rightarrow> dag_store \<Rightarrow> commit_detector \<Rightarrow> u64 \<Rightarrow> commit_result list \<Rightarrow>
     panic + commit_result list \<times> commit_detector" where
  "advance_loop sha dag cd round commits =
     (if round \<le> dag_max_round dag then
        (case check_commit sha cd dag round of
           Inl p \<Rightarrow> Inl p
         | Inr None \<Rightarrow> Inr (commits, cd)
         | Inr (Some result) \<Rightarrow>
             advance_loop sha dag (confirm_commit sha (cr_round result) (cr_anchor_id result) cd)
               (round + 1) (commits @ [result]))
      else Inr (commits, cd))"
  by pat_completeness auto
termination
proof (relation "measure (\<lambda>(sha, dag, cd, round, commits). 2 ^ 64 - unat (cd_last_committed cd))")
  fix sha dag cd round commits x2 and result :: commit_result
  assume "check_commit sha cd dag round = Inr x2" "x2 = Some result"
  then have "cd_last_committed cd < round" "cr_round result = round"
    using check_commit_SomeD by blast+
  then show "((sha, dag, confirm_commit sha (cr_round result) (cr_anchor_id result) cd, round + 1,
      commits @ [result]), sha, dag, cd, round, commits)
    \<in> measure (\<lambda>(sha, dag, cd, round, commits). 2 ^ 64 - unat (cd_last_committed cd))"
    using u64_unat_bound [of round] by (auto simp: confirm_commit_def u64_less_iff)
qed simp

declare advance_loop.simps [simp del]

definition try_advance ::
    "hash_fn \<Rightarrow> dag_store \<Rightarrow> commit_detector \<Rightarrow> panic + commit_result list \<times> commit_detector" where
  "try_advance sha dag cd = advance_loop sha dag cd (cd_last_committed cd + 1) []"

section \<open>The commit rule\<close>

lemma supporters_fold:
  "set (fold (\<lambda>e s. if P e then List.insert (f e) s else s) es s) = set s \<union> f ` {e \<in> set es. P e}"
  by (induction es arbitrary: s) auto

lemma distinct_supporters_fold:
  "distinct s \<Longrightarrow> distinct (fold (\<lambda>e s. if P e then List.insert (f e) s else s) es s)"
  by (induction es arbitrary: s) auto

lemma distinct_supporters: "distinct (supporters dag anchor r)"
  unfolding supporters_def by (rule distinct_supporters_fold) simp

lemma set_supporters:
  assumes "dag_inv dag"
  shows "set (supporters dag anchor r) =
    ev_creator ` {e. has_event dag e \<and> ev_round e = r \<and> dag_can_reach dag (ev_id e) anchor}"
proof -
  have "{e \<in> set (dag_events_at_round dag r). dag_can_reach dag (ev_id e) anchor} =
      {e. has_event dag e \<and> ev_round e = r \<and> dag_can_reach dag (ev_id e) anchor}"
    using events_at_round_set [OF assms] by auto
  then show ?thesis by (simp add: supporters_def supporters_fold)
qed

lemma has_quorum_same_set:
  assumes "distinct q" and "distinct q'" and "set q = set q'"
  shows "vs_has_quorum vs q \<longleftrightarrow> vs_has_quorum vs q'"
  unfolding vs_has_quorum_def vs_stake_for_def [symmetric]
  using stake_for_word [OF assms(1), of vs] stake_for_word [OF assms(2), of vs] assms(3) by simp

lemma first_support_Some:
  "sorted_wrt (<) rs \<Longrightarrow> first_support cd dag anchor rs = Some r \<longleftrightarrow>
     r \<in> set rs \<and> vs_has_quorum (cd_validator_set cd) (supporters dag anchor r) \<and>
     (\<forall>r' \<in> set rs. r' < r \<longrightarrow> \<not> vs_has_quorum (cd_validator_set cd) (supporters dag anchor r'))"
  by (induction rs) (force simp: check_quorum_support_def)+

lemma sorted_u64_range_incl: "sorted_wrt (<) (u64_range_incl a b)"
proof -
  have "sorted_wrt (\<lambda>m n. (word_of_nat m :: u64) < word_of_nat n) [unat a ..< Suc (unat b)]"
  proof (rule sorted_wrt_mono_rel [OF _ sorted_wrt_upt])
    fix m n assume "m \<in> set [unat a ..< Suc (unat b)]" "n \<in> set [unat a ..< Suc (unat b)]" "m < n"
    then show "(word_of_nat m :: u64) < word_of_nat n"
      using u64_unat_bound [of b] by (auto simp: word_less_nat_alt unat_of_nat simp del: upt_Suc)
  qed
  then show ?thesis by (simp add: u64_range_incl_def sorted_wrt_map)
qed

lemma check_commit_iff:
  assumes "round < u64_MAX"
  shows "check_commit sha cd dag round = Inr (Some r) \<longleftrightarrow>
    cd_last_committed cd < round \<and>
    (\<exists>anchor. elect_leader sha (cd_validator_set cd) round (cd_seed cd) = Inr (Some (cr_leader r)) \<and>
       dag_event_at dag (cr_leader r) round = Some anchor \<and>
       cr_round r = round \<and> cr_anchor_id r = ev_id anchor) \<and>
    round < cr_support_round r \<and> cr_support_round r \<le> dag_max_round dag \<and>
    vs_has_quorum (cd_validator_set cd) (supporters dag (cr_anchor_id r) (cr_support_round r)) \<and>
    (\<forall>r'. round < r' \<and> r' < cr_support_round r \<longrightarrow>
       \<not> vs_has_quorum (cd_validator_set cd) (supporters dag (cr_anchor_id r) r'))"
proof -
  have succ: "round + 1 \<le> x \<longleftrightarrow> round < x" for x
    using assms by (simp add: word_le_nat_alt word_less_nat_alt u64_add_nowrap Suc_le_eq)
  have fs: "first_support cd dag a (u64_range_incl (round + 1) (dag_max_round dag)) = Some s \<longleftrightarrow>
      round < s \<and> s \<le> dag_max_round dag \<and> vs_has_quorum (cd_validator_set cd) (supporters dag a s) \<and>
      (\<forall>r'. round < r' \<and> r' < s \<longrightarrow> \<not> vs_has_quorum (cd_validator_set cd) (supporters dag a r'))" for a s
    unfolding first_support_Some [OF sorted_u64_range_incl] set_u64_range_incl Ball_def atLeastAtMost_iff succ
    by (meson less_le_trans less_imp_le)
  show ?thesis
    unfolding check_commit_def using fs
    by (cases r) (auto split: sum.splits option.splits)
qed


section \<open>Runs of the detector\<close>

text \<open>A commit without the round at which its support was found, which may differ between nodes.\<close>

definition committed :: "commit_result \<Rightarrow> u64 \<times> event_id \<times> validator_id" where
  "committed r = (cr_round r, cr_anchor_id r, cr_leader r)"

text \<open>The commits a detector can make with events of \<open>E\<close> at hand, one round after the other.\<close>

inductive commit_path ::
    "hash_fn \<Rightarrow> dag_event set \<Rightarrow> commit_detector \<Rightarrow> (u64 \<times> event_id \<times> validator_id) list \<Rightarrow>
     commit_detector \<Rightarrow> bool" for sha E where
  path_Nil: "commit_path sha E cd [] cd"
| path_Cons: "commit_path sha E cd ((round, ev_id anchor, leader) # cs) cd'"
    if "cd_last_committed cd < u64_MAX" "round = cd_last_committed cd + 1"
      "elect_leader sha (cd_validator_set cd) round (cd_seed cd) = Inr (Some leader)"
      "anchor \<in> E" "ev_creator anchor = leader" "ev_round anchor = round"
      "commit_path sha E (confirm_commit sha round (ev_id anchor) cd) cs cd'"

inductive_cases path_ConsE: "commit_path sha E cd (c # cs) cd'"
inductive_cases path_NilE: "commit_path sha E cd [] cd'"

lemma commit_path_append:
  "commit_path sha E cd cs cd' \<Longrightarrow> commit_path sha E cd' cs' cd'' \<Longrightarrow> commit_path sha E cd (cs @ cs') cd''"
  by (induction rule: commit_path.induct) (auto intro: path_Cons)

lemma commit_path_mono: "commit_path sha E cd cs cd' \<Longrightarrow> E \<subseteq> E' \<Longrightarrow> commit_path sha E' cd cs cd'"
  by (induction rule: commit_path.induct) (auto intro: commit_path.intros)

definition equivocation_free :: "dag_event set \<Rightarrow> bool" where
  "equivocation_free E \<longleftrightarrow>
     (\<forall>x \<in> E. \<forall>y \<in> E. ev_creator x = ev_creator y \<and> ev_round x = ev_round y \<longrightarrow> ev_id x = ev_id y)"

lemma commit_path_comparable:
  assumes "commit_path sha E cd cs1 cd1" and "commit_path sha E cd cs2 cd2" and "equivocation_free E"
  shows "prefix cs1 cs2 \<or> prefix cs2 cs1"
  using assms
proof (induction arbitrary: cs2 rule: commit_path.induct)
  case (path_Cons cd round leader anchor cs cd')
  show ?case
  proof (cases cs2)
    case (Cons c2 cs2')
    obtain a2 where c2: "c2 = (round, ev_id a2, leader)" and a2: "a2 \<in> E" "ev_creator a2 = leader"
        "ev_round a2 = round" and p2: "commit_path sha E (confirm_commit sha round (ev_id a2) cd) cs2' cd2"
      using path_Cons.prems(1) path_Cons.hyps(2,3) unfolding Cons by (auto elim!: path_ConsE)
    have "ev_id a2 = ev_id anchor"
      using path_Cons.prems(2) path_Cons.hyps(4-6) a2 unfolding equivocation_free_def by metis
    with path_Cons.IH [of cs2'] p2 path_Cons.prems(2) c2 Cons show ?thesis by simp
  qed simp
qed simp

lemma commit_path_rounds:
  assumes "commit_path sha E cd cs cd'"
  shows "unat (cd_last_committed cd') = unat (cd_last_committed cd) + length cs \<and>
    map (unat \<circ> fst) cs = [Suc (unat (cd_last_committed cd)) ..< Suc (unat (cd_last_committed cd) + length cs)]"
  using assms
proof (induction rule: commit_path.induct)
  case (path_Cons cd round leader anchor cs cd')
  have r: "unat round = Suc (unat (cd_last_committed cd))"
    using path_Cons.hyps(1,2) by (simp add: u64_add_nowrap u64_less_iff)
  then have "cd_last_committed (confirm_commit sha round (ev_id anchor) cd) = round"
    by (simp add: confirm_commit_def u64_less_iff)
  with path_Cons.IH r show ?case by (simp add: upt_rec [of "Suc _"] del: upt_Suc)
qed simp

text \<open>The leader of every commit is elected with the round and the hash of the anchor before it.\<close>

lemma commit_path_elected:
  assumes "commit_path sha E cd cs cd'" and "i < length cs"
  shows "elect_leader sha (cd_validator_set cd) (fst (cs ! i))
    (if i = 0 then cd_seed cd else sha (fst (snd (cs ! (i - 1))))) = Inr (Some (snd (snd (cs ! i))))"
  using assms
proof (induction arbitrary: i rule: commit_path.induct)
  case (path_Cons cd round leader anchor cs cd')
  have "cd_last_committed cd < round" using path_Cons.hyps(1,2) by (simp add: u64_less_iff u64_add_nowrap)
  then have cd: "confirm_commit sha round (ev_id anchor) cd = cd\<lparr>cd_last_committed := round, cd_seed := sha (ev_id anchor)\<rparr>"
    by (simp add: confirm_commit_def)
  show ?case
  proof (cases i)
    case (Suc j)
    then show ?thesis using path_Cons.IH [of j] path_Cons.prems by (cases j) (simp_all add: cd)
  qed (use path_Cons.hyps in simp)
qed simp

lemma check_commit_anchor:
  assumes "check_commit sha cd dag round = Inr (Some r)"
  obtains anchor where
    "elect_leader sha (cd_validator_set cd) round (cd_seed cd) = Inr (Some (cr_leader r))"
    "dag_event_at dag (cr_leader r) round = Some anchor" "cr_anchor_id r = ev_id anchor"
  using assms by (auto simp: check_commit_def split: if_splits sum.splits option.splits)

lemma advance_loop_path:
  assumes "dag_inv dag" and "{e. has_event dag e} \<subseteq> E"
    and "advance_loop sha dag cd round commits = Inr (cs, cd')" and "round = cd_last_committed cd + 1"
  shows "\<exists>new. cs = commits @ new \<and> commit_path sha E cd (map committed new) cd'"
  using assms
proof (induction sha dag cd round commits rule: advance_loop.induct)
  case (1 sha dag cd round commits)
  show ?case
  proof (cases "round \<le> dag_max_round dag \<and> (\<exists>r. check_commit sha cd dag round = Inr (Some r))")
    case False
    with "1.prems"(3) have "cs = commits" "cd' = cd"
      by (auto simp: advance_loop.simps [of sha dag cd] split: if_splits sum.splits option.splits)
    then show ?thesis by (auto intro: path_Nil)
  next
    case True
    then obtain r where r: "check_commit sha cd dag round = Inr (Some r)" and le: "round \<le> dag_max_round dag"
      by blast
    note last = check_commit_SomeD [OF r]
    obtain anchor where el: "elect_leader sha (cd_validator_set cd) round (cd_seed cd) = Inr (Some (cr_leader r))"
      and at: "dag_event_at dag (cr_leader r) round = Some anchor" and id: "cr_anchor_id r = ev_id anchor"
      using r by (rule check_commit_anchor)
    let ?cd = "confirm_commit sha round (ev_id anchor) cd"
    have cd1: "cd_last_committed ?cd = round" using last by (simp add: confirm_commit_def)
    have loop: "advance_loop sha dag ?cd (round + 1) (commits @ [r]) = Inr (cs, cd')"
      using "1.prems"(3) r le last id by (simp add: advance_loop.simps [of sha dag cd])
    from "1.IH" [OF le r refl "1.prems"(1,2), unfolded last(2) id, OF loop] cd1 obtain new
      where new: "cs = (commits @ [r]) @ new" "commit_path sha E ?cd (map committed new) cd'" by metis
    have "commit_path sha E cd ((round, ev_id anchor, cr_leader r) # map committed new) cd'"
    proof (rule path_Cons [OF _ "1.prems"(4) el _ _ _ new(2)])
      show "cd_last_committed cd < u64_MAX" using last(1) u64_le_MAX by (rule less_le_trans)
      show "anchor \<in> E" "ev_creator anchor = cr_leader r" "ev_round anchor = round"
        using event_at_SomeD [OF "1.prems"(1) at] "1.prems"(2) by auto
    qed
    with new(1) last(2) id show ?thesis by (auto simp: committed_def [of r])
  qed
qed

text \<open>A node calls \<open>try_advance\<close> again and again on its growing DAG; its log is what the calls return.\<close>

fun advance_all ::
    "hash_fn \<Rightarrow> commit_detector \<Rightarrow> dag_store list \<Rightarrow> panic + commit_result list \<times> commit_detector" where
  "advance_all sha cd [] = Inr ([], cd)"
| "advance_all sha cd (d # ds) =
     (case try_advance sha d cd of
        Inl p \<Rightarrow> Inl p
      | Inr (cs, cd') \<Rightarrow>
          (case advance_all sha cd' ds of
             Inl p \<Rightarrow> Inl p
           | Inr (cs', cd'') \<Rightarrow> Inr (cs @ cs', cd'')))"

definition known_events :: "dag_store list \<Rightarrow> dag_event set" where
  "known_events ds = {e. \<exists>d \<in> set ds. has_event d e}"

lemma advance_all_path:
  assumes "\<forall>d \<in> set ds. dag_inv d" and "known_events ds \<subseteq> E"
    and "advance_all sha cd ds = Inr (cs, cd')"
  shows "commit_path sha E cd (map committed cs) cd'"
  using assms
proof (induction ds arbitrary: cd cs)
  case (Cons d ds)
  from Cons.prems(3) obtain cs1 cd1 cs2
    where 1: "try_advance sha d cd = Inr (cs1, cd1)" and 2: "advance_all sha cd1 ds = Inr (cs2, cd')"
      and cs: "cs = cs1 @ cs2"
    by (auto split: sum.splits prod.splits)
  have "commit_path sha E cd (map committed cs1) cd1"
    using advance_loop_path [OF _ _ 1 [unfolded try_advance_def] refl, of E] Cons.prems(1,2)
    by (auto simp: known_events_def)
  moreover have "commit_path sha E cd1 (map committed cs2) cd'"
    using Cons.prems(1,2) by (intro Cons.IH 2) (auto simp: known_events_def)
  ultimately show ?case unfolding cs map_append by (rule commit_path_append)
qed (auto intro: path_Nil)

section \<open>Growing DAGs\<close>

lemma parent_rel_mono:
  assumes "dag_inv d" and "{e. has_event d e} \<subseteq> {e. has_event d' e}"
  shows "parent_rel (ds_events d) \<subseteq> parent_rel (ds_events d')"
proof (rule subrelI)
  fix i p assume "(i, p) \<in> parent_rel (ds_events d)"
  then obtain e where e: "dag_get d i = Some e" "p \<in> set (ev_strong_parents e)"
    by (auto simp: parent_rel_def dag_get_def)
  then have "dag_get d' i = Some e"
    using dag_invD(1) [OF assms(1) e(1)] assms(2) by (auto simp: has_event_def)
  with e(2) show "(i, p) \<in> parent_rel (ds_events d')" by (auto simp: parent_rel_def dag_get_def)
qed

lemma supporters_mono:
  assumes "dag_inv d" and "dag_inv d'" and "{e. has_event d e} \<subseteq> {e. has_event d' e}"
  shows "set (supporters d a r) \<subseteq> set (supporters d' a r)"
  using assms(3) rtrancl_mono [OF parent_rel_mono [OF assms(1,3)]]
  unfolding set_supporters [OF assms(1)] set_supporters [OF assms(2)] dag_can_reach_iff by blast

lemma supported_round_has_event:
  assumes "dag_inv d" and "vs_ok vs" and "vs_has_quorum vs (supporters d a r)"
  shows "\<exists>e. has_event d e \<and> ev_round e = r"
proof -
  have "supporters d a r \<noteq> []"
    using vq.quorum_iff [OF assms(2) distinct_supporters, of d a r] assms(3) by fastforce
  then show ?thesis
    using set_supporters [OF assms(1), of a r] by (metis (mono_tags, lifting) Collect_empty_eq
        empty_set image_empty set_empty)
qed

lemma supported_round_bound:
  assumes "dag_inv d" and "vs_ok vs" and "vs_has_quorum vs (supporters d a r)"
  shows "r \<le> dag_max_round d"
  using supported_round_has_event [OF assms] dag_invD(8) [OF assms(1)] by (auto simp: dag_max_round_def)

lemma event_at_persists:
  assumes inv: "dag_inv d" "dag_inv d'" and grows: "{e. has_event d e} \<subseteq> {e. has_event d' e}"
    and honest: "equivocation_free {e. has_event d' e}" and at: "dag_event_at d c r = Some e"
  shows "\<exists>e'. dag_event_at d' c r = Some e' \<and> ev_id e' = ev_id e"
proof -
  note e = event_at_SomeD [OF inv(1) at]
  with grows have has': "has_event d' e" by blast
  from event_at_ex [OF inv(2) this] e obtain e' where at': "dag_event_at d' c r = Some e'" by auto
  note e' = event_at_SomeD [OF inv(2) this]
  have "ev_id e' = ev_id e" using honest has' e e' unfolding equivocation_free_def by blast
  with at' show ?thesis by blast
qed

section \<open>Progress\<close>

text \<open>A validator set on which the leader election does not panic.\<close>

definition electable :: "validator_set \<Rightarrow> bool" where
  "electable vs \<longleftrightarrow> vs_is_empty vs \<or> vs_total_stake vs \<noteq> 0"

lemma check_commit_total: "electable (cd_validator_set cd) \<Longrightarrow> \<exists>r. check_commit sha cd dag round = Inr r"
  by (auto simp: check_commit_def electable_def elect_leader_def Let_def split: option.splits)

lemma advance_loop_exhausts:
  assumes "electable (cd_validator_set cd)" "round = cd_last_committed cd + 1"
  shows "\<exists>new cd'. advance_loop sha dag cd round commits = Inr (commits @ new, cd') \<and> electable (cd_validator_set cd') \<and>
    unat (cd_last_committed cd') = unat (cd_last_committed cd) + length new \<and>
    (new \<noteq> [] \<longrightarrow> cd_last_committed cd' \<le> dag_max_round dag) \<and> try_advance sha dag cd' = Inr ([], cd')"
  using assms
proof (induction sha dag cd round commits rule: advance_loop.induct)
  case (1 sha dag cd round commits)
  obtain r where r: "check_commit sha cd dag round = Inr r" using check_commit_total [OF "1.prems"(1)] by blast
  show ?case
  proof (cases "round \<le> dag_max_round dag \<and> r \<noteq> None")
    case False
    then have "advance_loop sha dag cd round cs = Inr (cs, cd)" for cs
      using r by (auto simp: advance_loop.simps [of sha dag cd round cs])
    with "1.prems" show ?thesis by (simp add: try_advance_def)
  next
    case True
    then obtain c where c: "r = Some c" by blast
    let ?cd = "confirm_commit sha (cr_round c) (cr_anchor_id c) cd"
    have d: "cd_last_committed cd < round" "cr_round c = round" using check_commit_SomeD [OF r [unfolded c]] by simp_all
    then have cd: "cd_last_committed ?cd = round" "cd_validator_set ?cd = cd_validator_set cd" by (simp_all add: confirm_commit_def)
    have next': "unat round = unat (cd_last_committed cd) + 1"
      using d(1) "1.prems"(2) by (simp add: word_less_nat_alt unat_word_ariths split: if_splits)
    obtain new cd' where IH: "advance_loop sha dag ?cd (round + 1) (commits @ [c]) = Inr ((commits @ [c]) @ new, cd')"
        "electable (cd_validator_set cd')" "unat (cd_last_committed cd') = unat round + length new"
        "new \<noteq> [] \<longrightarrow> cd_last_committed cd' \<le> dag_max_round dag" "try_advance sha dag cd' = Inr ([], cd')"
      using "1.IH" [OF _ r c] True "1.prems" cd by auto
    have "advance_loop sha dag cd round commits = Inr (commits @ c # new, cd')"
      using True r c IH(1) by (simp add: advance_loop.simps [of sha dag cd round])
    moreover have "cd_last_committed cd' \<le> dag_max_round dag"
      using IH(3,4) True by (cases "new = []") (auto simp: word_le_nat_alt)
    ultimately show ?thesis using IH(2,3,5) next' by (intro exI [of _ "c # new"] exI [of _ cd']) simp
  qed
qed

section \<open>Equivocation\<close>

text \<open>What a call commits, without the round of the support.\<close>

definition log_of :: "panic + commit_result list \<times> commit_detector \<Rightarrow> (u64 \<times> event_id \<times> validator_id) list" where
  "log_of r = (case r of Inl p \<Rightarrow> [] | Inr (cs, cd) \<Rightarrow> map committed cs)"

text \<open>The lookup by creator and round finds the event that arrived last.\<close>

lemma by_creator_fold_other:
  "\<forall>e \<in> set es. (ev_creator e, ev_round e) \<noteq> k \<Longrightarrow>
     hm_get (ds_by_creator_round (fold dag_insert es d)) k = hm_get (ds_by_creator_round d) k"
  by (induction es arbitrary: d) (auto simp: insert_indices)

lemma event_at_last_arrival:
  assumes "ids_consistent (set (xs @ x # ys))"
    and "\<forall>y \<in> set ys. (ev_creator y, ev_round y) \<noteq> (ev_creator x, ev_round x)"
  shows "dag_event_at (fold dag_insert (xs @ x # ys) dag_new) (ev_creator x) (ev_round x) = Some x"
proof -
  let ?d = "fold dag_insert (xs @ x # ys) dag_new"
  have "hm_get (ds_by_creator_round ?d) (ev_creator x, ev_round x) = Some (ev_id x)"
    using by_creator_fold_other [OF assms(2)] by (simp add: insert_indices)
  moreover have "has_event ?d x" unfolding dag_of_list(2) [OF assms(1)] by simp
  ultimately show ?thesis by (simp add: dag_event_at_def has_event_def dag_get_def)
qed

text \<open>A quorum that reaches the anchor directly, in a DAG that ends with the supporting round.\<close>

lemma supporters_of_children:
  assumes inv: "dag_inv d" and children: "{e. has_event d e \<and> ev_round e = r} = set es"
      "\<forall>e \<in> set es. i \<in> set (ev_strong_parents e)"
  shows "set (supporters d i r) = set (map ev_creator es)"
proof -
  have "dag_can_reach d (ev_id e) i" if "e \<in> set es" for e
    unfolding dag_can_reach_iff
    using that children by (auto intro!: r_into_rtrancl parent_relI [of _ _ e] simp: has_event_def dag_get_def)
  with children(1) show ?thesis unfolding set_supporters [OF inv] by auto
qed

lemma single_commit:
  assumes inv: "dag_inv d" and ok: "vs_ok (cd_validator_set cd)" and room: "unat (cd_last_committed cd) + 3 < 2 ^ 64"
    and el: "elect_leader sha (cd_validator_set cd) (cd_last_committed cd + 1) (cd_seed cd) = Inr (Some l)"
    and at: "dag_event_at d l (cd_last_committed cd + 1) = Some b"
    and top: "\<forall>e. has_event d e \<longrightarrow> ev_round e \<le> cd_last_committed cd + 2"
    and quorum: "vs_has_quorum (cd_validator_set cd) (supporters d (ev_id b) (cd_last_committed cd + 2))"
  shows "log_of (try_advance sha d cd) = [(cd_last_committed cd + 1, ev_id b, l)]"
proof -
  let ?k = "cd_last_committed cd" and ?vs = "cd_validator_set cd"
  let ?r = "\<lparr>cr_round = ?k + 1, cr_anchor_id = ev_id b, cr_leader = l, cr_support_round = ?k + 2\<rparr>"
  let ?cd = "confirm_commit sha (?k + 1) (ev_id b) cd"
  have k: "unat (?k + 1) = unat ?k + 1" "unat (?k + 2) = unat ?k + 2" "?k + 1 + 1 = ?k + 2" using room by (simp_all add: u64_add_nowrap)
  then have lt: "?k < ?k + 1" "?k + 1 < ?k + 2" "?k + 1 < u64_MAX" "?k + 2 < u64_MAX" using room by (simp_all add: word_less_nat_alt)
  have gap: "\<not> (?k + 1 < x \<and> x < ?k + 2)" for x using k by (auto simp: word_less_nat_alt)
  have max: "?k + 2 \<le> dag_max_round d" using supported_round_bound [OF inv ok quorum] .
  have "check_commit sha cd d (?k + 1) = Inr (Some ?r)"
    unfolding check_commit_iff [OF lt(3)] using lt el at max quorum gap by auto
  moreover have cd: "cd_last_committed ?cd = ?k + 1" "cd_validator_set ?cd = ?vs" using lt by (simp_all add: confirm_commit_def)
  moreover have "check_commit sha ?cd d (?k + 2) = Inr None"
  proof -
    have "electable ?vs" using el by (auto simp: electable_def elect_leader_def Let_def split: if_splits)
    then obtain r where r: "check_commit sha ?cd d (?k + 2) = Inr r" using check_commit_total [of ?cd sha d "?k + 2"] cd by auto
    have False if "r = Some c" for c
    proof -
      have "?k + 2 < cr_support_round c" "vs_has_quorum ?vs (supporters d (cr_anchor_id c) (cr_support_round c))"
        using r [unfolded that check_commit_iff [OF lt(4)]] cd by auto
      with supported_round_has_event [OF inv ok] top show False by (metis not_le)
    qed
    with r show ?thesis by (cases r) auto
  qed
  then have "advance_loop sha d ?cd (?k + 2) [?r] = Inr ([?r], ?cd)" by (simp add: advance_loop.simps [of sha d ?cd])
  moreover have "?k + 1 \<le> dag_max_round d" using lt(2) max by simp
  ultimately have "try_advance sha d cd = Inr ([?r], ?cd)"
    by (simp add: try_advance_def advance_loop.simps [of sha d cd "?k + 1"] add.commute [of 2 ?k])
  then show ?thesis by (simp add: log_of_def committed_def)
qed

section \<open>Example runs\<close>

text \<open>Four validators of equal stake; the elected leader of round 1 is the second one.\<close>

definition four_validators :: validator_set where
  "four_validators = vs_from_validators
     [(replicate 48 1, 1, []), (replicate 48 2, 1, []), (replicate 48 3, 1, []), (replicate 48 4, 1, [])]"

lemma four_validators_eval:
  "four_validators = \<lparr>vs_validators = map (\<lambda>k. (replicate 48 k, \<lparr>vd_stake = 1, vd_address = []\<rparr>)) [1, 2, 3, 4],
     vs_total_stake = 4\<rparr>"
  by (simp add: four_validators_def vs_from_validators_def vs_add_def vs_new_def)

lemma four_validators_ok: "vs_ok four_validators"
proof -
  have "stake_sum four_validators = 4" by (simp add: four_validators_eval stake_sum_def)
  then show ?thesis by (simp add: vs_ok_def four_validators_def vs_inv_from_validators)
qed

definition round_two :: "event_id list \<Rightarrow> dag_event list" where
  "round_two ps = [example_event 21 1 2 ps, example_event 23 3 2 ps, example_event 24 4 2 ps]"

definition fork_left :: dag_event where "fork_left = example_event 12 2 1 []"
definition fork_right :: dag_event where "fork_right = example_event 13 2 1 []"

definition linear_dag :: dag_store where
  "linear_dag = fold dag_insert (fork_left # round_two [ev_id fork_left]) dag_new"

text \<open>The same DAG one round later, with an event of the fourth validator in round 2.\<close>

definition later_events :: "dag_event list" where
  "later_events = (let ps = map ev_id (round_two [ev_id fork_left])
     in [example_event 22 2 2 [ev_id fork_left], example_event 31 1 3 ps, example_event 32 2 3 ps, example_event 33 3 3 ps])"

definition grown_dag :: dag_store where "grown_dag = fold dag_insert later_events linear_dag"

definition example_detector :: commit_detector where
  "example_detector = cd_new four_validators (replicate 32 0)"

lemma example_dag_inv:
  "dag_inv dag_new" "dag_inv linear_dag" "dag_inv grown_dag"
  "{e. has_event linear_dag e} = set (fork_left # round_two [ev_id fork_left])"
  "{e. has_event grown_dag e} = set (fork_left # round_two [ev_id fork_left]) \<union> set later_events"
proof -
  let ?es = "fork_left # round_two [ev_id fork_left]"
  have ids: "ids_consistent (set ?es \<union> set later_events)"
    by (simp add: ids_consistent_def fork_left_def round_two_def later_events_def Let_def)
  then have "ids_consistent (set ?es)" unfolding ids_consistent_def by blast
  from dag_of_list [OF this] show lin: "dag_inv linear_dag" "{e. has_event linear_dag e} = set ?es"
    unfolding linear_dag_def by blast+
  have "ids_consistent ({e. has_event linear_dag e} \<union> set later_events)" using ids unfolding lin(2) .
  from dag_inv_fold [OF lin(1) this] show "dag_inv grown_dag" "{e. has_event grown_dag e} = set ?es \<union> set later_events"
    unfolding grown_dag_def lin(2) by blast+
qed simp

lemma example_grows: "{e. has_event linear_dag e} \<subseteq> {e. has_event grown_dag e}"
  using example_dag_inv(4,5) by blast

lemma example_honest: "equivocation_free {e. has_event grown_dag e}"
  unfolding example_dag_inv(5) by (simp add: equivocation_free_def fork_left_def round_two_def later_events_def Let_def)

lemma linear_dag_commit:
  "try_advance (\<lambda>b. b) linear_dag example_detector =
     Inr ([\<lparr>cr_round = 1, cr_anchor_id = replicate 32 12, cr_leader = replicate 48 2, cr_support_round = 2\<rparr>],
          \<lparr>cd_validator_set = four_validators, cd_last_committed = 1, cd_seed = replicate 32 12\<rparr>)"
  by code_simp

lemma grown_dag_commit:
  "try_advance (\<lambda>b. b) grown_dag example_detector =
     Inr ([\<lparr>cr_round = 1, cr_anchor_id = replicate 32 12, cr_leader = replicate 48 2, cr_support_round = 2\<rparr>,
           \<lparr>cr_round = 2, cr_anchor_id = replicate 32 23, cr_leader = replicate 48 3, cr_support_round = 3\<rparr>],
          \<lparr>cd_validator_set = four_validators, cd_last_committed = 2, cd_seed = replicate 32 23\<rparr>)"
  by code_simp

text \<open>What a call has committed is the first part of the log; the empty store has nothing to commit.\<close>

lemma example_advance_all:
  "advance_all (\<lambda>b. b) (cd_new four_validators (replicate 32 0)) [linear_dag] =
     Inr ([\<lparr>cr_round = 1, cr_anchor_id = replicate 32 12, cr_leader = replicate 48 2, cr_support_round = 2\<rparr>],
          \<lparr>cd_validator_set = four_validators, cd_last_committed = 1, cd_seed = replicate 32 12\<rparr>)"
  "advance_all (\<lambda>b. b) (cd_new four_validators (replicate 32 0)) [dag_new, grown_dag] =
     Inr ([\<lparr>cr_round = 1, cr_anchor_id = replicate 32 12, cr_leader = replicate 48 2, cr_support_round = 2\<rparr>,
           \<lparr>cr_round = 2, cr_anchor_id = replicate 32 23, cr_leader = replicate 48 3, cr_support_round = 3\<rparr>],
          \<lparr>cd_validator_set = four_validators, cd_last_committed = 2, cd_seed = replicate 32 23\<rparr>)"
proof -
  have "try_advance (\<lambda>b. b) dag_new example_detector = Inr ([], example_detector)" by code_simp
  then show "advance_all (\<lambda>b. b) (cd_new four_validators (replicate 32 0)) [linear_dag] =
      Inr ([\<lparr>cr_round = 1, cr_anchor_id = replicate 32 12, cr_leader = replicate 48 2, cr_support_round = 2\<rparr>],
           \<lparr>cd_validator_set = four_validators, cd_last_committed = 1, cd_seed = replicate 32 12\<rparr>)"
    "advance_all (\<lambda>b. b) (cd_new four_validators (replicate 32 0)) [dag_new, grown_dag] =
      Inr ([\<lparr>cr_round = 1, cr_anchor_id = replicate 32 12, cr_leader = replicate 48 2, cr_support_round = 2\<rparr>,
            \<lparr>cr_round = 2, cr_anchor_id = replicate 32 23, cr_leader = replicate 48 3, cr_support_round = 3\<rparr>],
           \<lparr>cd_validator_set = four_validators, cd_last_committed = 2, cd_seed = replicate 32 23\<rparr>)"
    using linear_dag_commit grown_dag_commit by (simp_all add: example_detector_def)
qed

section \<open>Properties\<close>

text \<open>Property C1: agreement. Two nodes with the same validator set and seed call \<open>try_advance\<close> any number
  of times, each on its own sequence of DAG snapshots. As long as no validator has signed two different
  events for one round, the logs of the two nodes agree: one is a prefix of the other in round, anchor
  and leader.\<close>

theorem commit_agreement:
  assumes inv: "\<forall>d \<in> set ds1 \<union> set ds2. dag_inv d"
    and honest: "equivocation_free (known_events ds1 \<union> known_events ds2)"
    and run1: "advance_all sha (cd_new vs seed) ds1 = Inr (log1, cd1)"
    and run2: "advance_all sha (cd_new vs seed) ds2 = Inr (log2, cd2)"
  shows "prefix (map committed log1) (map committed log2) \<or> prefix (map committed log2) (map committed log1)"
proof (rule commit_path_comparable [OF _ _ honest])
  show "commit_path sha (known_events ds1 \<union> known_events ds2) (cd_new vs seed) (map committed log1) cd1"
    using inv by (intro advance_all_path [OF _ _ run1]) auto
  show "commit_path sha (known_events ds1 \<union> known_events ds2) (cd_new vs seed) (map committed log2) cd2"
    using inv by (intro advance_all_path [OF _ _ run2]) auto
qed

theorem commit_agreement_witness:
  "\<exists>log1 cd1 log2 cd2. advance_all (\<lambda>b. b) (cd_new four_validators (replicate 32 0)) [linear_dag] = Inr (log1, cd1) \<and>
     advance_all (\<lambda>b. b) (cd_new four_validators (replicate 32 0)) [dag_new, grown_dag] = Inr (log2, cd2) \<and>
     length log1 = 1 \<and> length log2 = 2 \<and> prefix (map committed log1) (map committed log2)"
proof -
  have inv: "\<forall>d \<in> set [linear_dag] \<union> set [dag_new, grown_dag]. dag_inv d" by (simp add: example_dag_inv)
  have has_event_new: "\<not> has_event dag_new e" for e by (simp add: has_event_def dag_get_def dag_new_def)
  have "known_events [linear_dag] \<union> known_events [dag_new, grown_dag] = {e. has_event grown_dag e}"
    using example_grows has_event_new by (auto simp: known_events_def)
  then have "equivocation_free (known_events [linear_dag] \<union> known_events [dag_new, grown_dag])"
    using example_honest by simp
  from commit_agreement [OF inv this example_advance_all] have "prefix
      (map committed [\<lparr>cr_round = 1, cr_anchor_id = replicate 32 12, cr_leader = replicate 48 2, cr_support_round = 2\<rparr>])
      (map committed [\<lparr>cr_round = 1, cr_anchor_id = replicate 32 12, cr_leader = replicate 48 2, cr_support_round = 2\<rparr>,
        \<lparr>cr_round = 2, cr_anchor_id = replicate 32 23, cr_leader = replicate 48 3, cr_support_round = 3\<rparr>])"
    by (auto dest: prefix_length_le)
  with example_advance_all show ?thesis
    unfolding example_advance_all by (intro exI conjI) (rule refl, rule refl, simp_all)
qed

text \<open>Property C10: the log of a node never skips or repeats a round. From a new detector the committed
  rounds are 1, 2, 3 and so on, \<open>last_committed\<close> counts them, and each commit has an anchor of its round by
  the leader that the election names for this round, with the initial seed for the first round and the hash of the
  anchor before it for every later one.\<close>

theorem commits_are_consecutive:
  assumes "\<forall>d \<in> set ds. dag_inv d" and "advance_all sha (cd_new vs seed) ds = Inr (log, cd')"
  shows "map (unat \<circ> cr_round) log = [1 ..< Suc (length log)] \<and>
    unat (cd_last_committed cd') = length log \<and>
    (\<forall>r \<in> set log. \<exists>e \<in> known_events ds.
       ev_id e = cr_anchor_id r \<and> ev_creator e = cr_leader r \<and> ev_round e = cr_round r) \<and>
    (\<forall>i < length log. elect_leader sha vs (cr_round (log ! i))
       (if i = 0 then seed else sha (cr_anchor_id (log ! (i - 1)))) = Inr (Some (cr_leader (log ! i))))"
proof -
  have p: "commit_path sha (known_events ds) (cd_new vs seed) (map committed log) cd'"
    using assms by (intro advance_all_path) auto
  have anchors: "commit_path sha E cd cs cd' \<Longrightarrow> (r, a, l) \<in> set cs \<Longrightarrow>
      \<exists>e \<in> E. ev_id e = a \<and> ev_creator e = l \<and> ev_round e = r" for E cd cs r a l
    by (induction rule: commit_path.induct) auto
  have "\<exists>e \<in> known_events ds. ev_id e = cr_anchor_id r \<and> ev_creator e = cr_leader r \<and> ev_round e = cr_round r"
    if "r \<in> set log" for r
    using anchors [OF p] that by (force simp: committed_def)
  moreover have "elect_leader sha vs (cr_round (log ! i)) (if i = 0 then seed else sha (cr_anchor_id (log ! (i - 1)))) =
      Inr (Some (cr_leader (log ! i)))" if "i < length log" for i
    using commit_path_elected [OF p, of i] that by (auto simp: cd_new_def committed_def)
  ultimately show ?thesis
    using commit_path_rounds [OF p] by (auto simp: cd_new_def comp_def committed_def)
qed

theorem commits_are_consecutive_witness:
  "dag_inv grown_dag \<and> length (log_of (advance_all (\<lambda>b. b) (cd_new four_validators (replicate 32 0)) [dag_new, grown_dag])) = 2 \<and>
   (\<exists>e \<in> known_events [dag_new, grown_dag]. ev_id e = replicate 32 23 \<and> ev_creator e = replicate 48 3 \<and> ev_round e = 2) \<and>
   elect_leader (\<lambda>b. b) four_validators 1 (replicate 32 0) = Inr (Some (replicate 48 2)) \<and>
   elect_leader (\<lambda>b. b) four_validators 2 (replicate 32 12) = Inr (Some (replicate 48 3))"
proof -
  have "\<forall>d \<in> set [dag_new, grown_dag]. dag_inv d" by (simp add: example_dag_inv)
  note c = commits_are_consecutive [OF this example_advance_all(2)]
  from c [THEN conjunct2, THEN conjunct2, THEN conjunct2, rule_format, of 0]
    c [THEN conjunct2, THEN conjunct2, THEN conjunct2, rule_format, of 1] c [THEN conjunct2, THEN conjunct2, THEN conjunct1]
  show ?thesis using example_dag_inv(3) example_advance_all(2) by (simp add: log_of_def)
qed

text \<open>Property C7: the commit rule. A round is committed exactly if it is later than the last committed
  one, its elected leader has an event in it, and some later round, the first of which is reported, has
  a quorum of validators each with an event from which a path of strong parents leads to that
  anchor.\<close>

theorem check_commit_rule:
  assumes inv: "dag_inv dag" and "round < u64_MAX"
  shows "(\<exists>r. check_commit sha cd dag round = Inr (Some r) \<and> cr_support_round r = sr) \<longleftrightarrow>
    cd_last_committed cd < round \<and>
    (\<exists>leader anchor.
       elect_leader sha (cd_validator_set cd) round (cd_seed cd) = Inr (Some leader) \<and>
       dag_event_at dag leader round = Some anchor \<and>
       (let quorum_at = (\<lambda>s. \<exists>q. distinct q \<and> vs_has_quorum (cd_validator_set cd) q \<and>
          set q = ev_creator ` {e. has_event dag e \<and> ev_round e = s \<and>
                    (ev_id e, ev_id anchor) \<in> (parent_rel (ds_events dag))\<^sup>*})
        in round < sr \<and> sr \<le> dag_max_round dag \<and> quorum_at sr \<and> (\<forall>s. round < s \<and> s < sr \<longrightarrow> \<not> quorum_at s)))"
proof -
  have q: "vs_has_quorum vs (supporters dag a s) \<longleftrightarrow>
      (\<exists>q. distinct q \<and> vs_has_quorum vs q \<and>
         set q = ev_creator ` {e. has_event dag e \<and> ev_round e = s \<and>
                   (ev_id e, a) \<in> (parent_rel (ds_events dag))\<^sup>*})" for vs a s
  proof
    assume "vs_has_quorum vs (supporters dag a s)"
    then show "\<exists>q. distinct q \<and> vs_has_quorum vs q \<and>
         set q = ev_creator ` {e. has_event dag e \<and> ev_round e = s \<and>
                   (ev_id e, a) \<in> (parent_rel (ds_events dag))\<^sup>*}"
      using distinct_supporters set_supporters [OF inv] unfolding dag_can_reach_iff by blast
  next
    assume "\<exists>q. distinct q \<and> vs_has_quorum vs q \<and>
         set q = ev_creator ` {e. has_event dag e \<and> ev_round e = s \<and>
                   (ev_id e, a) \<in> (parent_rel (ds_events dag))\<^sup>*}"
    then obtain q where q: "distinct q" "vs_has_quorum vs q" "set q = set (supporters dag a s)"
      using set_supporters [OF inv] unfolding dag_can_reach_iff by metis
    show "vs_has_quorum vs (supporters dag a s)"
      using has_quorum_same_set [OF q(1) distinct_supporters q(3)] q(2) by simp
  qed
  show ?thesis
    unfolding check_commit_iff [OF assms(2)] Let_def q [symmetric]
    by (auto intro!: exI [of _ "\<lparr>cr_round = round, cr_anchor_id = _, cr_leader = _, cr_support_round = sr\<rparr>"])
qed

theorem check_commit_rule_witness:
  "dag_inv linear_dag \<and> (1 :: u64) < u64_MAX \<and>
   (\<exists>r. check_commit (\<lambda>b. b) example_detector linear_dag 1 = Inr (Some r) \<and> cr_support_round r = 2) \<and>
   cd_last_committed example_detector < (1 :: u64)"
proof -
  have "check_commit (\<lambda>b. b) example_detector linear_dag 1 = Inr (Some
     \<lparr>cr_round = 1, cr_anchor_id = replicate 32 12, cr_leader = replicate 48 2, cr_support_round = 2\<rparr>)"
    by code_simp
  then have c: "\<exists>r. check_commit (\<lambda>b. b) example_detector linear_dag 1 = Inr (Some r) \<and> cr_support_round r = 2"
    by simp
  have "(1 :: u64) < u64_MAX" by simp
  from iffD1 [OF check_commit_rule [OF example_dag_inv(2) this] c] c example_dag_inv(2)
  show ?thesis by simp
qed

text \<open>Property C32: a commit is final as the DAG grows. When more events arrive and nobody equivocates, a
  round that could be committed still can, with the same anchor and leader, and with support found no
  later.\<close>

theorem commit_persists:
  assumes inv: "dag_inv d" "dag_inv d'" and grows: "{e. has_event d e} \<subseteq> {e. has_event d' e}"
    and honest: "equivocation_free {e. has_event d' e}" and ok: "vs_ok (cd_validator_set cd)"
    and round: "round < u64_MAX" and commit: "check_commit sha cd d round = Inr (Some r)"
  shows "\<exists>r'. check_commit sha cd d' round = Inr (Some r') \<and> committed r' = committed r \<and>
    cr_support_round r' \<le> cr_support_round r"
proof -
  let ?vs = "cd_validator_set cd"
  note C = check_commit_iff [OF round]
  from commit [unfolded C] obtain anchor
    where last: "cd_last_committed cd < round"
      and el: "elect_leader sha ?vs round (cd_seed cd) = Inr (Some (cr_leader r))"
      and at: "dag_event_at d (cr_leader r) round = Some anchor"
      and r: "cr_round r = round" "cr_anchor_id r = ev_id anchor"
      and sr: "round < cr_support_round r" "cr_support_round r \<le> dag_max_round d"
      and q: "vs_has_quorum ?vs (supporters d (cr_anchor_id r) (cr_support_round r))" by blast
  obtain anchor' where at': "dag_event_at d' (cr_leader r) round = Some anchor'" "ev_id anchor' = ev_id anchor"
    using event_at_persists [OF inv grows honest at] by blast
  have q': "vs_has_quorum ?vs (supporters d' (cr_anchor_id r) (cr_support_round r))"
    by (rule vq.quorum_mono [OF ok distinct_supporters distinct_supporters supporters_mono [OF inv grows] q])
  define P where "P s \<longleftrightarrow> round < s \<and> vs_has_quorum ?vs (supporters d' (cr_anchor_id r) s)" for s :: u64
  define s where "s = (LEAST s. P s)"
  have "P (cr_support_round r)" using sr q' by (simp add: P_def)
  then have s: "P s" "s \<le> cr_support_round r" "\<And>x. x < s \<Longrightarrow> \<not> P x"
    unfolding s_def by (auto intro: LeastI Least_le dest: not_less_Least)
  have "s \<le> dag_max_round d'"
    using supported_round_bound [OF inv(2) ok] s(1) by (auto simp: P_def)
  moreover have "\<not> vs_has_quorum ?vs (supporters d' (cr_anchor_id r) x)" if "round < x" "x < s" for x
    using s(3) that by (auto simp: P_def)
  ultimately have "check_commit sha cd d' round = Inr (Some (r\<lparr>cr_support_round := s\<rparr>))"
    using s(1) last el at' r by (auto simp: C P_def)
  then show ?thesis using s(2) by (auto simp: committed_def intro!: exI [of _ "r\<lparr>cr_support_round := s\<rparr>"])
qed

theorem commit_persists_witness:
  "{e. has_event linear_dag e} \<subset> {e. has_event grown_dag e} \<and>
   check_commit (\<lambda>b. b) example_detector linear_dag 1 = Inr (Some
     \<lparr>cr_round = 1, cr_anchor_id = replicate 32 12, cr_leader = replicate 48 2, cr_support_round = 2\<rparr>) \<and>
   (\<exists>r'. check_commit (\<lambda>b. b) example_detector grown_dag 1 = Inr (Some r') \<and>
      committed r' = (1, replicate 32 12, replicate 48 2) \<and> cr_support_round r' \<le> 2)"
proof -
  let ?r = "\<lparr>cr_round = 1, cr_anchor_id = replicate 32 12, cr_leader = replicate 48 2, cr_support_round = 2\<rparr>"
  have c: "check_commit (\<lambda>b. b) example_detector linear_dag 1 = Inr (Some ?r)" by code_simp
  have "example_event 22 2 2 [ev_id fork_left] \<in> {e. has_event grown_dag e} - {e. has_event linear_dag e}"
    unfolding example_dag_inv(4,5) by (simp add: later_events_def round_two_def fork_left_def example_event_def Let_def)
  with example_grows have "{e. has_event linear_dag e} \<subset> {e. has_event grown_dag e}" by blast
  moreover have "(1 :: u64) < u64_MAX" "vs_ok (cd_validator_set example_detector)"
    using four_validators_ok by (simp_all add: example_detector_def cd_new_def)
  from commit_persists [OF example_dag_inv(2,3) example_grows example_honest this(2,1) c]
  have "\<exists>r'. check_commit (\<lambda>b. b) example_detector grown_dag 1 = Inr (Some r') \<and> committed r' = committed ?r \<and>
      cr_support_round r' \<le> cr_support_round ?r" .
  ultimately show ?thesis using c by (simp add: committed_def [of ?r])
qed

text \<open>Property C38: the rule is not safe against a leader that signs two events for its round. Take any validator set
  and any detector, whose next round has an elected leader with two events of different ids, after any earlier events;
  and a quorum of validators with events of the round after, which name both as parents. Two nodes that hold exactly
  these events, and have got the two of the leader in different orders, commit different anchors for the round: the
  index by creator and round keeps the event that arrived last, and the supporting events reach both.\<close>

theorem equivocating_leader_splits_logs:
  assumes ok: "vs_ok (cd_validator_set cd)" and room: "unat (cd_last_committed cd) + 3 < 2 ^ 64"
    and leader: "elect_leader sha (cd_validator_set cd) (cd_last_committed cd + 1) (cd_seed cd) = Inr (Some l)"
    and fork: "\<forall>x \<in> {a, b}. ev_creator x = l \<and> ev_round x = cd_last_committed cd + 1" "ev_id a \<noteq> ev_id b"
    and past: "\<forall>x \<in> set past. ev_round x \<le> cd_last_committed cd + 1"
    and support: "\<forall>x \<in> set es. ev_round x = cd_last_committed cd + 2 \<and> {ev_id a, ev_id b} \<subseteq> set (ev_strong_parents x)"
      "distinct (map ev_creator es)" "vs_has_quorum (cd_validator_set cd) (map ev_creator es)"
    and ids: "ids_consistent (set (past @ a # b # es))"
  shows "{x. has_event (fold dag_insert (past @ a # b # es) dag_new) x} = {x. has_event (fold dag_insert (past @ b # a # es) dag_new) x} \<and>
    log_of (try_advance sha (fold dag_insert (past @ a # b # es) dag_new) cd) = [(cd_last_committed cd + 1, ev_id b, l)] \<and>
    log_of (try_advance sha (fold dag_insert (past @ b # a # es) dag_new) cd) = [(cd_last_committed cd + 1, ev_id a, l)]"
proof -
  let ?k = "cd_last_committed cd"
  have lt: "?k + 1 < ?k + 2" using room by (simp add: word_less_nat_alt u64_add_nowrap)
  have commit: "log_of (try_advance sha (fold dag_insert (past @ x # y # es) dag_new) cd) = [(?k + 1, ev_id y, l)]"
    if xy: "{x, y} = {a, b}" for x y
  proof -
    have xy': "x \<in> {a, b}" "y \<in> {a, b}" using xy by blast+
    have set: "set (past @ x # y # es) = set (past @ a # b # es)" using xy by auto
    have c: "ids_consistent (set (past @ x # y # es))" using ids unfolding set .
    note d = dag_of_list [OF c]
    have at: "dag_event_at (fold dag_insert (past @ x # y # es) dag_new) l (?k + 1) = Some y"
      using event_at_last_arrival [of "past @ [x]" y es] c fork(1) xy' support(1) lt by force
    have "{e. has_event (fold dag_insert (past @ x # y # es) dag_new) e \<and> ev_round e = ?k + 2} = set es"
      unfolding d(2) using past fork(1) xy' support(1) lt by force
    then have "set (supporters (fold dag_insert (past @ x # y # es) dag_new) (ev_id y) (?k + 2)) = set (map ev_creator es)"
      using support(1) xy' by (intro supporters_of_children [OF d(1)]) auto
    with has_quorum_same_set [OF distinct_supporters support(2)] support(3)
    have quorum: "vs_has_quorum (cd_validator_set cd) (supporters (fold dag_insert (past @ x # y # es) dag_new) (ev_id y) (?k + 2))"
      by blast
    have "ev_round e \<le> ?k + 2" if "e \<in> set (past @ a # b # es)" for e
      using that past fork(1) support(1) lt by (fastforce intro: order_trans less_imp_le)
    then have "\<forall>e. has_event (fold dag_insert (past @ x # y # es) dag_new) e \<longrightarrow> ev_round e \<le> ?k + 2"
      unfolding d(2) set by blast
    then show ?thesis by (rule single_commit [OF d(1) ok room leader at _ quorum])
  qed
  have same: "set (past @ b # a # es) = set (past @ a # b # es)" by auto
  have ids': "ids_consistent (set (past @ b # a # es))" using ids unfolding same .
  have "{x. has_event (fold dag_insert (past @ a # b # es) dag_new) x} = {x. has_event (fold dag_insert (past @ b # a # es) dag_new) x}"
    unfolding dag_of_list(2) [OF ids] dag_of_list(2) [OF ids'] same ..
  with commit [of a b] commit [of b a] show ?thesis by (simp add: insert_commute)
qed

text \<open>One of four validators of equal stake, which is within the fault threshold, is enough.\<close>

theorem equivocating_leader_splits_logs_witness:
  "stake_of four_validators (replicate 48 2) \<le> unat (vs_fault_threshold four_validators) \<and>
   log_of (try_advance (\<lambda>b. b) (fold dag_insert (fork_left # fork_right # round_two [ev_id fork_left, ev_id fork_right]) dag_new)
     example_detector) = [(1, ev_id fork_right, replicate 48 2)] \<and>
   log_of (try_advance (\<lambda>b. b) (fold dag_insert (fork_right # fork_left # round_two [ev_id fork_left, ev_id fork_right]) dag_new)
     example_detector) = [(1, ev_id fork_left, replicate 48 2)]"
proof -
  let ?es = "round_two [ev_id fork_left, ev_id fork_right]"
  have cd: "cd_validator_set example_detector = four_validators" "cd_last_committed example_detector = 0"
    by (simp_all add: example_detector_def cd_new_def)
  have "elect_leader (\<lambda>b. b) four_validators 1 (cd_seed example_detector) = Inr (Some (replicate 48 2))" by code_simp
  moreover have "vs_has_quorum four_validators (map ev_creator ?es)" by code_simp
  moreover have "distinct (map ev_creator ?es)" "ids_consistent (set ([] @ fork_left # fork_right # ?es))"
    "\<forall>x \<in> set ?es. ev_round x = 2 \<and> {ev_id fork_left, ev_id fork_right} \<subseteq> set (ev_strong_parents x)"
    "\<forall>x \<in> {fork_left, fork_right}. ev_creator x = replicate 48 2 \<and> ev_round x = 1" "ev_id fork_left \<noteq> ev_id fork_right"
    by (simp_all add: round_two_def fork_left_def fork_right_def ids_consistent_def)
  moreover have "stake_of four_validators (replicate 48 2) \<le> unat (vs_fault_threshold four_validators)"
    by (simp add: stake_of_def vs_stake_def four_validators_eval vs_fault_threshold_def)
  ultimately show ?thesis
    using equivocating_leader_splits_logs [of example_detector "\<lambda>b. b" "replicate 48 2" fork_left fork_right "[]" ?es] four_validators_ok
    by (simp add: cd)
qed

text \<open>Property C15: advancing ends and exhausts the DAG. Unless the stakes of a non-empty validator set sum up to 0,
  \<open>try_advance\<close> returns, without a panic and after no more commits than there are rounds left; each commit advances
  \<open>last_committed\<close> by one, and a second call on the same DAG finds nothing to commit.\<close>

theorem try_advance_exhausts:
  assumes "vs_is_empty (cd_validator_set cd) \<or> vs_total_stake (cd_validator_set cd) \<noteq> 0"
  shows "\<exists>commits cd'. try_advance sha dag cd = Inr (commits, cd') \<and>
    length commits \<le> unat (dag_max_round dag) - unat (cd_last_committed cd) \<and>
    unat (cd_last_committed cd') = unat (cd_last_committed cd) + length commits \<and> try_advance sha dag cd' = Inr ([], cd')"
proof -
  obtain commits cd' where "try_advance sha dag cd = Inr (commits, cd')"
      "unat (cd_last_committed cd') = unat (cd_last_committed cd) + length commits"
      "commits \<noteq> [] \<longrightarrow> cd_last_committed cd' \<le> dag_max_round dag" "try_advance sha dag cd' = Inr ([], cd')"
    using advance_loop_exhausts [of cd "cd_last_committed cd + 1" sha dag "[]"] assms
    by (auto simp: electable_def try_advance_def [of sha dag cd])
  then show ?thesis by (cases "commits = []") (auto simp: word_le_nat_alt)
qed

theorem try_advance_exhausts_witness:
  "\<exists>commits cd'. try_advance (\<lambda>b. b) linear_dag example_detector = Inr (commits, cd') \<and> length commits = 1 \<and>
     try_advance (\<lambda>b. b) linear_dag cd' = Inr ([], cd')"
proof -
  have "vs_total_stake (cd_validator_set example_detector) \<noteq> 0"
    by (simp add: example_detector_def cd_new_def four_validators_eval)
  with try_advance_exhausts [of example_detector "\<lambda>b. b" linear_dag] linear_dag_commit show ?thesis by auto
qed

text \<open>A detector over an empty validator set never commits anything.\<close>

theorem no_commit_without_validators:
  "try_advance sha dag (cd_new vs_new seed) = Inr ([], cd_new vs_new seed)"
proof -
  have "check_commit sha (cd_new vs_new seed) dag r = Inr None" for r
    by (simp add: check_commit_def elect_leader_def vs_is_empty_def vs_new_def cd_new_def)
  then show ?thesis by (simp add: try_advance_def advance_loop.simps [of sha dag "cd_new vs_new seed"])
qed

end
