(* ===== verification/Version_Chain.thy ===== *)
theory Version_Chain
  imports Core_Types
begin

text \<open>
  Multi-version state types, \<^verbatim>\<open>src/types/state.rs\<close>: the version chain of one state slot, kept sorted by
  descending sequence number with a binary search, and the read and write sets of an execution.
\<close>

datatype tx_status = Pending | Committed | Aborted

record state_version =
  sv_tx_sequence :: u64
  sv_value :: "u256 option"
  sv_status :: tx_status

type_synonym version_chain = "state_version list"

definition chain_new :: version_chain where
  "chain_new = []"

text \<open>Where a version goes among others with the same sequence number is the choice of \<open>binary_search_by\<close>, which the
  standard library leaves open; the definition takes the choice of its implementation.\<close>

definition add_version :: "state_version \<Rightarrow> version_chain \<Rightarrow> version_chain" where
  "add_version version versions =
     (let pos = (case binary_search_by (\<lambda>v. u64_cmp (sv_tx_sequence version) (sv_tx_sequence v)) versions of
                   Inr pos \<Rightarrow> pos | Inl pos \<Rightarrow> pos)
      in list_insert_at pos version versions)"

fun read_for :: "version_chain \<Rightarrow> u64 \<Rightarrow> (u256 option \<times> u64) option" where
  "read_for [] reader_seq = None"
| "read_for (version # versions) reader_seq =
     (if sv_tx_sequence version < reader_seq
      then (case sv_status version of
              Aborted \<Rightarrow> read_for versions reader_seq
            | _ \<Rightarrow> Some (sv_value version, sv_tx_sequence version))
      else read_for versions reader_seq)"

text \<open>The loop that sets the status of the first version of a transaction and returns.\<close>

fun set_status :: "tx_status \<Rightarrow> u64 \<Rightarrow> version_chain \<Rightarrow> version_chain" where
  "set_status st tx_seq [] = []"
| "set_status st tx_seq (version # versions) =
     (if sv_tx_sequence version = tx_seq then version\<lparr>sv_status := st\<rparr> # versions
      else version # set_status st tx_seq versions)"

definition chain_mark_committed :: "u64 \<Rightarrow> version_chain \<Rightarrow> version_chain" where
  "chain_mark_committed tx_seq versions = set_status Committed tx_seq versions"

definition chain_mark_aborted :: "u64 \<Rightarrow> version_chain \<Rightarrow> version_chain" where
  "chain_mark_aborted tx_seq versions = set_status Aborted tx_seq versions"

definition gc_aborted :: "version_chain \<Rightarrow> version_chain" where
  "gc_aborted versions = filter (\<lambda>v. sv_status v \<noteq> Aborted) versions"

definition chain_len :: "version_chain \<Rightarrow> nat" where
  "chain_len versions = length versions"

definition chain_is_empty :: "version_chain \<Rightarrow> bool" where
  "chain_is_empty versions = (versions = [])"

section \<open>Read and write sets, execution results\<close>

type_synonym read_set = "(state_key, u256 option \<times> u64) hmap"
type_synonym write_set = "(state_key, u256 option) hmap"

definition rs_record :: "state_key \<Rightarrow> u256 option \<Rightarrow> u64 \<Rightarrow> read_set \<Rightarrow> read_set" where
  "rs_record key val version reads = hm_insert key (val, version) reads"

definition rs_keys :: "read_set \<Rightarrow> state_key list" where
  "rs_keys reads = map fst reads"

definition ws_record :: "state_key \<Rightarrow> u256 option \<Rightarrow> write_set \<Rightarrow> write_set" where
  "ws_record key val writes = hm_insert key val writes"

definition ws_keys :: "write_set \<Rightarrow> state_key list" where
  "ws_keys writes = map fst writes"

definition ws_merge :: "write_set \<Rightarrow> write_set \<Rightarrow> write_set" where
  "ws_merge other writes = fold (\<lambda>(key, val). hm_insert key val) other writes"

datatype execution_status = Success | Revert | Failure

record evm_log =
  log_address :: address
  log_topics :: "bytes list"
  log_data :: bytes

record execution_result =
  er_tx_seq :: u64
  er_status :: execution_status
  er_read_set :: read_set
  er_write_set :: write_set
  er_gas_used :: u64
  er_logs :: "evm_log list"
  er_output :: bytes

section \<open>The chain stays sorted\<close>

definition chain_inv :: "version_chain \<Rightarrow> bool" where
  "chain_inv vs \<longleftrightarrow> sorted_wrt (\<lambda>a b. sv_tx_sequence b \<le> sv_tx_sequence a) vs"

lemma chain_inv_nth:
  "chain_inv vs \<Longrightarrow> i \<le> j \<Longrightarrow> j < length vs \<Longrightarrow> sv_tx_sequence (vs ! j) \<le> sv_tx_sequence (vs ! i)"
  by (cases "i = j") (auto simp: chain_inv_def sorted_wrt_iff_nth_less)

abbreviation chain_cmp :: "u64 \<Rightarrow> state_version \<Rightarrow> cmp" where
  "chain_cmp s \<equiv> \<lambda>v. u64_cmp s (sv_tx_sequence v)"

lemma chain_partitioned: "chain_inv vs \<Longrightarrow> partitioned (chain_cmp s) vs"
  unfolding partitioned_def u64_cmp_def by (auto dest: chain_inv_nth split: if_splits)

text \<open>Where a new version lands: everything before it is at least as new, everything after at most as new.\<close>

lemma add_version_split:
  assumes "chain_inv vs"
  obtains p where "p \<le> length vs" "add_version v vs = take p vs @ v # drop p vs"
    "\<forall>x \<in> set (take p vs). sv_tx_sequence v \<le> sv_tx_sequence x"
    "\<forall>x \<in> set (drop p vs). sv_tx_sequence x \<le> sv_tx_sequence v"
proof -
  define p where "p = (case binary_search_by (chain_cmp (sv_tx_sequence v)) vs of Inl i \<Rightarrow> i | Inr i \<Rightarrow> i)"
  have P: "p \<le> length vs" "\<forall>i < p. chain_cmp (sv_tx_sequence v) (vs ! i) \<noteq> Greater"
      "\<forall>i < length vs. p \<le> i \<longrightarrow> chain_cmp (sv_tx_sequence v) (vs ! i) \<noteq> Less"
    using binary_search_insertion_point [OF chain_partitioned [OF assms] refl, of "sv_tx_sequence v"]
    by (simp_all add: p_def)
  show thesis
  proof (rule that [of p])
    show "add_version v vs = take p vs @ v # drop p vs"
      by (simp add: add_version_def p_def list_insert_at_def Let_def split: sum.splits)
    show "\<forall>x \<in> set (take p vs). sv_tx_sequence v \<le> sv_tx_sequence x"
      using P(1,2) by (fastforce simp: in_set_conv_nth u64_cmp_def split: if_splits)
    show "\<forall>x \<in> set (drop p vs). sv_tx_sequence x \<le> sv_tx_sequence v"
    proof
      fix x assume "x \<in> set (drop p vs)"
      then obtain i where "p + i < length vs" "x = vs ! (p + i)"
        using P(1) by (auto simp: in_set_conv_nth less_diff_conv add.commute)
      with P(3) show "sv_tx_sequence x \<le> sv_tx_sequence v"
        by (force simp: u64_cmp_def split: if_splits)
    qed
  qed (rule P(1))
qed


lemma chain_inv_add: "chain_inv vs \<Longrightarrow> chain_inv (add_version v vs)"
proof -
  assume inv: "chain_inv vs"
  from inv obtain p where p: "add_version v vs = take p vs @ v # drop p vs"
      "\<forall>x \<in> set (take p vs). sv_tx_sequence v \<le> sv_tx_sequence x"
      "\<forall>x \<in> set (drop p vs). sv_tx_sequence x \<le> sv_tx_sequence v"
    by (rule add_version_split [of vs v])
  have "sorted_wrt (\<lambda>a b. sv_tx_sequence b \<le> sv_tx_sequence a) (take p vs @ drop p vs)"
    using inv by (simp add: chain_inv_def)
  with p(2,3) show ?thesis unfolding p(1)
    by (auto simp: chain_inv_def sorted_wrt_append intro: order_trans [of _ "sv_tx_sequence v"])
qed

lemma set_add_version [simp]: "set (add_version v vs) = insert v (set vs)"
  by (simp add: add_version_def Let_def split: sum.splits)

lemma chain_inv_set_status: "chain_inv vs \<Longrightarrow> chain_inv (set_status st s vs)"
proof -
  have "map sv_tx_sequence (set_status st s vs) = map sv_tx_sequence vs" by (induction vs) auto
  then show "chain_inv vs \<Longrightarrow> ?thesis"
    unfolding chain_inv_def using sorted_wrt_map [of "\<lambda>a b. b \<le> a" sv_tx_sequence] by metis
qed

lemma chain_inv_gc: "chain_inv vs \<Longrightarrow> chain_inv (gc_aborted vs)"
  by (simp add: chain_inv_def gc_aborted_def sorted_wrt_filter)

section \<open>What a reader sees\<close>

definition live :: "u64 \<Rightarrow> state_version \<Rightarrow> bool" where
  "live n x \<longleftrightarrow> sv_tx_sequence x < n \<and> sv_status x \<noteq> Aborted"

lemma read_for_find: "read_for vs n = map_option (\<lambda>x. (sv_value x, sv_tx_sequence x)) (find (live n) vs)"
  by (induction vs) (auto simp: live_def split: tx_status.splits)

lemma read_for_append: "read_for (xs @ ys) n = (case read_for xs n of None \<Rightarrow> read_for ys n | Some r \<Rightarrow> Some r)"
  by (induction xs) (auto simp: read_for_find split: option.splits)

lemma read_for_None: "read_for vs n = None \<longleftrightarrow> (\<forall>x \<in> set vs. \<not> live n x)"
  by (auto simp: read_for_find find_None_iff)

lemma read_for_Some:
  assumes "chain_inv vs" and "read_for vs n = Some (v, s)"
  shows "(\<exists>x \<in> set vs. live n x \<and> sv_value x = v \<and> sv_tx_sequence x = s) \<and>
    (\<forall>y \<in> set vs. live n y \<longrightarrow> sv_tx_sequence y \<le> s)"
proof -
  obtain i where i: "i < length vs" "live n (vs ! i)" "\<forall>j < i. \<not> live n (vs ! j)"
      "v = sv_value (vs ! i)" "s = sv_tx_sequence (vs ! i)"
    using assms(2) by (auto simp: read_for_find find_Some_iff)
  have "sv_tx_sequence (vs ! j) \<le> s" if "j < length vs" "live n (vs ! j)" for j
    using chain_inv_nth [OF assms(1), of i j] i that by (cases "i \<le> j") auto
  then have "\<forall>y \<in> set vs. live n y \<longrightarrow> sv_tx_sequence y \<le> s" by (metis in_set_conv_nth)
  with i show ?thesis by auto
qed

text \<open>A new version hides the older ones from later readers, and only from those.\<close>

lemma read_for_add:
  assumes inv: "chain_inv vs" and st: "sv_status v \<noteq> Aborted"
    and fresh: "\<forall>x \<in> set vs. sv_tx_sequence x \<noteq> sv_tx_sequence v"
  shows "read_for (add_version v vs) n =
    (if sv_tx_sequence v < n \<and> (\<forall>x \<in> set vs. live n x \<longrightarrow> sv_tx_sequence x < sv_tx_sequence v)
     then Some (sv_value v, sv_tx_sequence v) else read_for vs n)"
proof -
  from inv obtain p where p: "add_version v vs = take p vs @ v # drop p vs"
      "\<forall>x \<in> set (take p vs). sv_tx_sequence v \<le> sv_tx_sequence x"
      "\<forall>x \<in> set (drop p vs). sv_tx_sequence x \<le> sv_tx_sequence v"
    by (rule add_version_split [of vs v])
  have vs: "read_for vs n = read_for (take p vs @ drop p vs) n" by simp
  have after: "sv_tx_sequence x < sv_tx_sequence v" if "x \<in> set (drop p vs)" for x
    using p(3) fresh that in_set_dropD by (metis order_le_less)
  have before: "sv_tx_sequence v < sv_tx_sequence x" if "x \<in> set (take p vs)" for x
    using p(2) fresh that in_set_takeD by (metis order_le_less)
  show ?thesis
  proof (cases "sv_tx_sequence v < n")
    case True
    have "(\<forall>x \<in> set vs. live n x \<longrightarrow> sv_tx_sequence x < sv_tx_sequence v) \<longleftrightarrow> read_for (take p vs) n = None"
    proof -
      have "set vs = set (take p vs) \<union> set (drop p vs)" by (metis append_take_drop_id set_append)
      then show ?thesis unfolding read_for_None using before after by fastforce
    qed
    with True st show ?thesis
      unfolding p(1) vs read_for_append by (auto simp: read_for_find live_def split: option.splits)
  next
    case False
    then show ?thesis
      unfolding p(1) vs read_for_append by (auto split: option.splits)
  qed
qed

lemma read_for_add_unseen:
  assumes inv: "chain_inv vs" and "n \<le> sv_tx_sequence v"
  shows "read_for (add_version v vs) n = read_for vs n"
proof -
  from inv obtain p where p: "add_version v vs = take p vs @ v # drop p vs"
    by (rule add_version_split [of vs v])
  have "read_for (take p vs @ v # drop p vs) n = read_for (take p vs @ drop p vs) n"
    using assms(2) unfolding read_for_append by (auto split: option.splits)
  with p show ?thesis by simp
qed


section \<open>Several writes of one transaction\<close>

text \<open>The search ends at the last match, so a version of a transaction is inserted in front of the
  oldest one that transaction has in the chain.\<close>

lemma bs_loop_not_greater:
  "base = 0 \<or> f (xs ! base) \<noteq> Greater \<Longrightarrow>
     bs_loop f xs base sz = 0 \<or> f (xs ! bs_loop f xs base sz) \<noteq> Greater"
proof (induction f xs base sz rule: bs_loop.induct)
  case (1 f xs base sz)
  then show ?case by (subst (1 2) bs_loop.simps) (auto simp: Let_def)
qed

lemma binary_search_last_match:
  assumes part: "partitioned f xs" and i: "i < length xs" "f (xs ! i) = Equal"
    and last: "\<forall>j. i < j \<and> j < length xs \<longrightarrow> f (xs ! j) = Greater"
  shows "binary_search_by f xs = Inr i"
proof -
  define b where "b = bs_loop f xs 0 (length xs)"
  have "xs \<noteq> []" using i(1) by auto
  then have inv: "b < length xs" "\<forall>j < length xs. b < j \<longrightarrow> f (xs ! j) = Greater"
    using bs_loop_whole [OF part] by (simp_all add: b_def)
  have "b = 0 \<or> f (xs ! b) \<noteq> Greater" unfolding b_def by (rule bs_loop_not_greater) simp
  with inv last i have "b = i" by (metis cmp.distinct(5) linorder_neqE_nat not_less0)
  with i show ?thesis by (auto simp: binary_search_by_def b_def Let_def)
qed

lemma add_version_before_last:
  assumes inv: "chain_inv (pre @ w # post)" and "sv_tx_sequence w = sv_tx_sequence v"
    and post: "\<forall>x \<in> set post. sv_tx_sequence x < sv_tx_sequence v"
  shows "add_version v (pre @ w # post) = pre @ v # w # post"
proof -
  have "binary_search_by (chain_cmp (sv_tx_sequence v)) (pre @ w # post) = Inr (length pre)"
  proof (rule binary_search_last_match [OF chain_partitioned [OF inv]])
    show "\<forall>j. length pre < j \<and> j < length (pre @ w # post) \<longrightarrow>
        chain_cmp (sv_tx_sequence v) ((pre @ w # post) ! j) = Greater"
    proof (intro allI impI)
      fix j assume j: "length pre < j \<and> j < length (pre @ w # post)"
      define k where "k = j - length pre - 1"
      with j have "j = length pre + Suc k" by simp
      with j have "(pre @ w # post) ! j \<in> set post" by (simp add: nth_append)
      with post have "sv_tx_sequence ((pre @ w # post) ! j) < sv_tx_sequence v" by blast
      then show "chain_cmp (sv_tx_sequence v) ((pre @ w # post) ! j) = Greater"
        by (auto simp: u64_cmp_def)
    qed
  qed (use assms(2) in \<open>simp_all add: u64_cmp_def\<close>)
  then show ?thesis by (simp add: add_version_def list_insert_at_def)
qed

lemma add_version_fresh:
  assumes inv: "chain_inv (pre @ post)" and "\<forall>x \<in> set pre. sv_tx_sequence v < sv_tx_sequence x"
    and "\<forall>x \<in> set post. sv_tx_sequence x < sv_tx_sequence v"
  shows "add_version v (pre @ post) = pre @ v # post"
proof -
  from inv obtain p where p: "p \<le> length (pre @ post)" "add_version v (pre @ post) = take p (pre @ post) @ v # drop p (pre @ post)"
      "\<forall>x \<in> set (take p (pre @ post)). sv_tx_sequence v \<le> sv_tx_sequence x"
      "\<forall>x \<in> set (drop p (pre @ post)). sv_tx_sequence x \<le> sv_tx_sequence v"
    by (rule add_version_split [of _ v])
  have "p = length pre"
  proof (rule ccontr)
    assume "p \<noteq> length pre"
    then consider "p < length pre" | "length pre < p" by linarith
    then show False
    proof cases
      case 1
      then obtain x where x: "x \<in> set (drop p pre)" by (metis drop_eq_Nil equals0I not_le set_empty)
      then have "x \<in> set (drop p (pre @ post))" "x \<in> set pre" by (auto dest: in_set_dropD)
      with p(4) assms(2) show False by fastforce
    next
      case 2
      then have "take (p - length pre) post \<noteq> []" using p(1) by auto
      then obtain x where x: "x \<in> set (take (p - length pre) post)" by (metis equals0I set_empty)
      then have "x \<in> set (take p (pre @ post))" "x \<in> set post" by (auto dest: in_set_takeD)
      with p(3) assms(3) show False by fastforce
    qed
  qed
  with p(2) show ?thesis by simp
qed


text \<open>The chain after a transaction has written a slot with nothing newer in it once, twice, three times.\<close>

definition pending :: "u64 \<Rightarrow> u256 option \<Rightarrow> state_version" where
  "pending s val = \<lparr>sv_tx_sequence = s, sv_value = val, sv_status = Pending\<rparr>"

lemma pending_sel [simp]:
  "sv_tx_sequence (pending s val) = s" "sv_value (pending s val) = val" "sv_status (pending s val) = Pending"
  by (simp_all add: pending_def)

definition write_values :: "u64 \<Rightarrow> u256 option list \<Rightarrow> version_chain \<Rightarrow> version_chain" where
  "write_values s vals vs = fold (\<lambda>val. add_version (pending s val)) vals vs"

lemma chain_inv_write_values: "chain_inv vs \<Longrightarrow> chain_inv (write_values s vals vs)"
  by (induction vals arbitrary: vs) (simp_all add: write_values_def chain_inv_add)

lemma set_write_values: "set (write_values s vals vs) = pending s ` set vals \<union> set vs"
  by (induction vals arbitrary: vs) (auto simp: write_values_def)

lemma read_for_write_values_unseen:
  "chain_inv vs \<Longrightarrow> n \<le> s \<Longrightarrow> read_for (write_values s vals vs) n = read_for vs n"
  by (induction vals arbitrary: vs) (simp_all add: write_values_def read_for_add_unseen chain_inv_add)

lemma write_values_one:
  assumes "chain_inv vs" and "\<forall>x \<in> set vs. sv_tx_sequence x < s"
  shows "write_values s [a] vs = pending s a # vs"
  using add_version_fresh [of "[]" vs "pending s a"] assms by (simp add: write_values_def)

lemma write_values_two:
  assumes "chain_inv vs" and "\<forall>x \<in> set vs. sv_tx_sequence x < s"
  shows "write_values s [a, b] vs = pending s b # pending s a # vs"
  using write_values_one [OF assms, of a] chain_inv_add [OF assms(1), of "pending s a"]
    add_version_before_last [of "[]" "pending s a" vs "pending s b"] assms(2)
  by (simp add: write_values_def)

lemma write_values_three:
  assumes "chain_inv vs" and "\<forall>x \<in> set vs. sv_tx_sequence x < s"
  shows "write_values s [a, b, c] vs = pending s b # pending s c # pending s a # vs"
proof -
  have "chain_inv (pending s b # pending s a # vs)"
    using chain_inv_add [OF chain_inv_add [OF assms(1)], of "pending s b" "pending s a"]
      write_values_two [OF assms, of a b] by (simp add: write_values_def)
  with add_version_before_last [of "[pending s b]" "pending s a" vs "pending s c"]
    write_values_two [OF assms, of a b] assms(2)
  show ?thesis by (simp add: write_values_def)
qed

section \<open>Properties\<close>

text \<open>Property C34: snapshot reads. However the versions of a slot were added, in whatever order and with
  whatever status, a reader with sequence number \<open>n\<close> gets the value of the newest version below \<open>n\<close> that is
  not aborted, and nothing exactly if there is none.\<close>

theorem read_sees_latest_live_version:
  "case read_for (fold add_version ws chain_new) n of
     None \<Rightarrow> \<forall>w \<in> set ws. sv_tx_sequence w < n \<longrightarrow> sv_status w = Aborted
   | Some (v, s) \<Rightarrow>
       (\<exists>w \<in> set ws. sv_value w = v \<and> sv_tx_sequence w = s \<and> s < n \<and> sv_status w \<noteq> Aborted) \<and>
       (\<forall>w \<in> set ws. sv_tx_sequence w < n \<and> sv_status w \<noteq> Aborted \<longrightarrow> sv_tx_sequence w \<le> s)"
proof -
  have "chain_inv vs \<Longrightarrow> chain_inv (fold add_version ws vs) \<and> set (fold add_version ws vs) = set ws \<union> set vs" for vs
    by (induction ws arbitrary: vs) (auto simp: chain_inv_add)
  from this [of chain_new] have inv: "chain_inv (fold add_version ws chain_new)"
    and set: "set (fold add_version ws chain_new) = set ws"
    by (simp_all add: chain_new_def chain_inv_def)
  show ?thesis
  proof (cases "read_for (fold add_version ws chain_new) n")
    case None
    then show ?thesis using read_for_None [of "fold add_version ws chain_new" n] set by (auto simp: live_def)
  next
    case (Some r)
    obtain v s where r: "r = (v, s)" by (cases r)
    from read_for_Some [OF inv Some [unfolded r]] show ?thesis
      unfolding Some r set by (auto simp: live_def)
  qed
qed

theorem read_sees_latest_live_version_witness:
  "read_for (fold add_version [\<lparr>sv_tx_sequence = 1, sv_value = Some U256_ONE, sv_status = Committed\<rparr>,
     \<lparr>sv_tx_sequence = 9, sv_value = None, sv_status = Pending\<rparr>,
     \<lparr>sv_tx_sequence = 4, sv_value = Some U256_ZERO, sv_status = Aborted\<rparr>] chain_new) 8 = Some (Some U256_ONE, 1) \<and>
   (case read_for (fold add_version [\<lparr>sv_tx_sequence = 1, sv_value = Some U256_ONE, sv_status = Committed\<rparr>] chain_new) 8 of
      None \<Rightarrow> False | Some (v, s) \<Rightarrow> s = 1)"
  using read_sees_latest_live_version [of "[\<lparr>sv_tx_sequence = 1, sv_value = Some U256_ONE, sv_status = Committed\<rparr>]" 8]
  by (auto split: option.splits) code_simp

text \<open>A chain is not always a last-writer-wins register for one transaction. The second write of
  a transaction to a slot replaces the first for later readers, but the third is filed behind the second
  and stays invisible.\<close>

theorem third_write_of_transaction_is_lost:
  assumes inv: "chain_inv vs" and older: "\<forall>x \<in> set vs. sv_tx_sequence x < s" and n: "s < n"
  shows "read_for (write_values s [a, b] vs) n = Some (b, s) \<and>
    read_for (write_values s [a, b, c] vs) n = Some (b, s)"
  using n by (simp add: write_values_two [OF inv older] write_values_three [OF inv older])

theorem third_write_of_transaction_is_lost_witness:
  "read_for (write_values 5 [Some U256_ZERO, None, Some U256_ONE] []) 6 = Some (None, 5)"
  using third_write_of_transaction_is_lost [of "[]" 5 6] by (simp add: chain_inv_def)

text \<open>Aborting a transaction that wrote a slot twice hides only its last write. Later readers
  then see the first one, a value of the aborted transaction.\<close>

theorem aborted_transaction_stays_visible:
  assumes inv: "chain_inv vs" and older: "\<forall>x \<in> set vs. sv_tx_sequence x < s" and n: "s < n"
  shows "read_for (chain_mark_aborted s (write_values s [a, b] vs)) n = Some (a, s)"
  using n by (simp add: write_values_two [OF inv older] chain_mark_aborted_def)

theorem aborted_transaction_stays_visible_witness:
  "read_for (chain_mark_aborted 5 (write_values 5 [Some U256_ZERO, Some U256_ONE] [])) 6 = Some (Some U256_ZERO, 5)"
  using aborted_transaction_stays_visible [of "[]" 5 6] by (simp add: chain_inv_def)

end
