(* ===== verification/Jmt.thy ===== *)
theory Jmt
  imports Core_Types
begin

unbundle bit_operations_syntax

text \<open>
  The Jellyfish Merkle tree of \<^verbatim>\<open>src/storage/jmt.rs\<close>: nodes stored under their hash in one hash map,
  recursive insertion and lookup along the bits of the hashed key, and inclusion proofs. SHA-256 is the
  parameter \<open>sha\<close>. Reading a bit beyond the key is the index panic of the source, so every operation that
  reads bits returns a sum.
\<close>

type_synonym node_hash = bytes

definition EMPTY_HASH :: node_hash where "EMPTY_HASH = replicate 32 0"

datatype jmt_node = Internal node_hash node_hash | Leaf bytes bytes | Empty

definition jmt_node_hash :: "hash_fn \<Rightarrow> jmt_node \<Rightarrow> node_hash" where
  "jmt_node_hash sha n =
     (case n of
        Empty \<Rightarrow> EMPTY_HASH
      | Leaf key_hash value_hash \<Rightarrow> sha (0x00 # key_hash @ value_hash)
      | Internal left right \<Rightarrow> sha (0x01 # left @ right))"

definition jmt_node_is_empty :: "jmt_node \<Rightarrow> bool" where
  "jmt_node_is_empty n = (n = Empty)"

type_synonym jmt_nodes = "(node_hash, jmt_node) hmap"

record jmt =
  jt_nodes :: jmt_nodes
  jt_root :: node_hash
  jt_version :: u64

definition jmt_new :: jmt where
  "jmt_new = \<lparr>jt_nodes = [], jt_root = EMPTY_HASH, jt_version = 0\<rparr>"

definition jmt_root_hash :: "jmt \<Rightarrow> node_hash" where
  "jmt_root_hash t = jt_root t"

definition hash_key :: "hash_fn \<Rightarrow> state_key \<Rightarrow> bytes" where
  "hash_key sha key = sha (state_key_to_bytes key)"

definition get_bit :: "bytes \<Rightarrow> nat \<Rightarrow> panic + bool" where
  "get_bit key_hash pos =
     (let byte_idx = pos div 8; bit_idx = 7 - pos mod 8 in
      if byte_idx < length key_hash
      then Inr (drop_bit bit_idx (key_hash ! byte_idx) AND 1 = 1)
      else Inl IndexOutOfBounds)"

text \<open>Computing a node's hash and inserting the node under it, as every branch of the insertion does.\<close>

definition store_node :: "hash_fn \<Rightarrow> jmt_node \<Rightarrow> jmt_nodes \<Rightarrow> node_hash \<times> jmt_nodes" where
  "store_node sha n nodes = (let h = jmt_node_hash sha n in (h, hm_insert h n nodes))"

function put_recursive ::
    "hash_fn \<Rightarrow> jmt_nodes \<Rightarrow> node_hash \<Rightarrow> bytes \<Rightarrow> bytes \<Rightarrow> nat \<Rightarrow> panic + node_hash \<times> jmt_nodes" where
  "put_recursive sha nodes node_hash key_hash value_hash depth =
     (if 256 \<le> depth then Inr (store_node sha (Leaf key_hash value_hash) nodes)
      else if node_hash = EMPTY_HASH then Inr (store_node sha (Leaf key_hash value_hash) nodes)
      else case hm_get nodes node_hash of
        Some (Leaf existing_key existing_value) \<Rightarrow>
          (if existing_key = key_hash then Inr (store_node sha (Leaf key_hash value_hash) nodes)
           else case get_bit existing_key depth of Inl p \<Rightarrow> Inl p | Inr existing_bit \<Rightarrow>
             (case get_bit key_hash depth of Inl p \<Rightarrow> Inl p | Inr new_bit \<Rightarrow>
               (let (existing_hash, nodes1) = store_node sha (Leaf existing_key existing_value) nodes in
                if existing_bit = new_bit then
                  (case put_recursive sha nodes1 existing_hash key_hash value_hash (depth + 1) of
                     Inl p \<Rightarrow> Inl p
                   | Inr (child_hash, nodes2) \<Rightarrow>
                       Inr (store_node sha
                         (if new_bit then Internal EMPTY_HASH child_hash
                          else Internal child_hash EMPTY_HASH) nodes2))
                else
                  (let (new_hash, nodes2) = store_node sha (Leaf key_hash value_hash) nodes1 in
                   Inr (store_node sha
                     (if new_bit then Internal existing_hash new_hash
                      else Internal new_hash existing_hash) nodes2)))))
      | Some (Internal left right) \<Rightarrow>
          (case get_bit key_hash depth of Inl p \<Rightarrow> Inl p | Inr b \<Rightarrow>
             (if b then
                (case put_recursive sha nodes right key_hash value_hash (depth + 1) of
                   Inl p \<Rightarrow> Inl p
                 | Inr (new_right, nodes1) \<Rightarrow> Inr (store_node sha (Internal left new_right) nodes1))
              else
                (case put_recursive sha nodes left key_hash value_hash (depth + 1) of
                   Inl p \<Rightarrow> Inl p
                 | Inr (new_left, nodes1) \<Rightarrow> Inr (store_node sha (Internal new_left right) nodes1))))
      | _ \<Rightarrow> Inr (store_node sha (Leaf key_hash value_hash) nodes))"
  by pat_completeness auto
termination
  by (relation "measure (\<lambda>(sha, nodes, node_hash, key_hash, value_hash, depth). 256 - depth)") auto

definition jmt_put :: "hash_fn \<Rightarrow> state_key \<Rightarrow> u256 \<Rightarrow> jmt \<Rightarrow> panic + node_hash \<times> jmt" where
  "jmt_put sha key value t =
     (let key_hash = hash_key sha key; value_hash = sha (u256_to_be_bytes value) in
      case put_recursive sha (jt_nodes t) (jt_root t) key_hash value_hash 0 of
        Inl p \<Rightarrow> Inl p
      | Inr (root, nodes) \<Rightarrow>
          Inr (root, \<lparr>jt_nodes = nodes, jt_root = root, jt_version = jt_version t + 1\<rparr>))"

lemma get_bit_bound: "get_bit key_hash pos = Inr b \<Longrightarrow> pos < 8 * length key_hash"
  by (auto simp: get_bit_def Let_def split: if_splits)

function get_recursive :: "jmt_nodes \<Rightarrow> node_hash \<Rightarrow> bytes \<Rightarrow> nat \<Rightarrow> panic + bytes option" where
  "get_recursive nodes node_hash key_hash depth =
     (if node_hash = EMPTY_HASH then Inr None
      else case hm_get nodes node_hash of
        None \<Rightarrow> Inr None
      | Some (Leaf stored_key value_hash) \<Rightarrow>
          Inr (if stored_key = key_hash then Some value_hash else None)
      | Some (Internal left right) \<Rightarrow>
          (case get_bit key_hash depth of Inl p \<Rightarrow> Inl p | Inr b \<Rightarrow>
             if b then get_recursive nodes right key_hash (depth + 1)
             else get_recursive nodes left key_hash (depth + 1))
      | Some Empty \<Rightarrow> Inr None)"
  by pat_completeness auto
termination
  by (relation "measure (\<lambda>(nodes, node_hash, key_hash, depth). 8 * length key_hash - depth)")
    (auto dest: get_bit_bound)

definition jmt_get :: "hash_fn \<Rightarrow> jmt \<Rightarrow> state_key \<Rightarrow> panic + bytes option" where
  "jmt_get sha t key = get_recursive (jt_nodes t) (jt_root t) (hash_key sha key) 0"

record jmt_proof =
  jp_key_hash :: bytes
  jp_siblings :: "(nat \<times> node_hash) list"
  jp_root :: node_hash

function collect_proof_siblings ::
    "jmt_nodes \<Rightarrow> node_hash \<Rightarrow> bytes \<Rightarrow> nat \<Rightarrow> panic + (nat \<times> node_hash) list" where
  "collect_proof_siblings nodes node_hash key_hash depth =
     (if node_hash = EMPTY_HASH \<or> 256 \<le> depth then Inr []
      else case hm_get nodes node_hash of
        Some (Internal left right) \<Rightarrow>
          (case get_bit key_hash depth of Inl p \<Rightarrow> Inl p | Inr b \<Rightarrow>
             if b
             then map_sum id (Cons (depth, left)) (collect_proof_siblings nodes right key_hash (depth + 1))
             else map_sum id (Cons (depth, right)) (collect_proof_siblings nodes left key_hash (depth + 1)))
      | _ \<Rightarrow> Inr [])"
  by pat_completeness auto
termination
  by (relation "measure (\<lambda>(nodes, node_hash, key_hash, depth). 256 - depth)") auto

definition get_proof :: "hash_fn \<Rightarrow> jmt \<Rightarrow> state_key \<Rightarrow> panic + jmt_proof" where
  "get_proof sha t key =
     (let key_hash = hash_key sha key in
      case collect_proof_siblings (jt_nodes t) (jt_root t) key_hash 0 of
        Inl p \<Rightarrow> Inl p
      | Inr siblings \<Rightarrow> Inr \<lparr>jp_key_hash = key_hash, jp_siblings = siblings, jp_root = jt_root t\<rparr>)"

definition jmt_node_count :: "jmt \<Rightarrow> nat" where
  "jmt_node_count t = length (jt_nodes t)"

text \<open>The loop of \<open>verify_inclusion\<close> over the reversed siblings.\<close>

primrec climb :: "hash_fn \<Rightarrow> bytes \<Rightarrow> node_hash \<Rightarrow> (nat \<times> node_hash) list \<Rightarrow> panic + node_hash" where
  "climb sha key_hash current [] = Inr current"
| "climb sha key_hash current (ds # rest) =
     (case ds of (depth, sibling) \<Rightarrow>
        case get_bit key_hash depth of Inl p \<Rightarrow> Inl p | Inr b \<Rightarrow>
          climb sha key_hash
            (jmt_node_hash sha (if b then Internal sibling current else Internal current sibling)) rest)"

definition verify_inclusion :: "hash_fn \<Rightarrow> jmt_proof \<Rightarrow> bytes \<Rightarrow> panic + bool" where
  "verify_inclusion sha p value_hash =
     map_sum id (\<lambda>current. current = jp_root p)
       (climb sha (jp_key_hash p) (jmt_node_hash sha (Leaf (jp_key_hash p) value_hash)) (rev (jp_siblings p)))"

declare put_recursive.simps [simp del] get_recursive.simps [simp del] collect_proof_siblings.simps [simp del]

end
