(* ===== verification/Trie_Spec.thy ===== *)
theory Trie_Spec
  imports Core_Types
begin

text \<open>
  The specification the Jellyfish Merkle tree is checked against: a binary trie over the bits of 32-byte
  keys, its meaning as a partial map, and the fact that a trie in canonical form is determined by the map
  it stands for. The locale \<open>keyed_map\<close> is the contract of a map with insertion and lookup.
\<close>

locale keyed_map =
  fixes empty :: 'm
    and upd :: "'k \<Rightarrow> 'v \<Rightarrow> 'm \<Rightarrow> 'm"
    and look :: "'m \<Rightarrow> 'k \<Rightarrow> 'v option"
    and inv :: "'m \<Rightarrow> bool"
    and ok :: "'k \<Rightarrow> 'v \<Rightarrow> bool"
  assumes inv_empty: "inv empty"
    and look_empty: "look empty k = None"
    and inv_upd: "inv m \<Longrightarrow> ok k v \<Longrightarrow> inv (upd k v m)"
    and look_upd: "inv m \<Longrightarrow> ok k v \<Longrightarrow> look (upd k v m) k' = (if k' = k then Some v else look m k')"
begin

lemma fold_upd:
  assumes "inv m" and "\<forall>(k, v) \<in> set kvs. ok k v"
  shows "inv (fold (\<lambda>(k, v). upd k v) kvs m) \<and>
    look (fold (\<lambda>(k, v). upd k v) kvs m) x =
      (case map_of (rev kvs) x of Some v \<Rightarrow> Some v | None \<Rightarrow> look m x)"
  using assms
proof (induction kvs arbitrary: m)
  case (Cons p kvs)
  obtain k v where p: "p = (k, v)" by (cases p)
  have "inv (upd k v m)" and "look (upd k v m) x = (if x = k then Some v else look m x)"
    using Cons.prems p by (auto simp: inv_upd look_upd)
  with Cons.IH [of "upd k v m"] Cons.prems(2) show ?case
    unfolding p by (auto simp: map_add_def split: option.splits)
qed simp

lemma look_fold_empty:
  "\<forall>(k, v) \<in> set kvs. ok k v \<Longrightarrow> look (fold (\<lambda>(k, v). upd k v) kvs empty) x = map_of (rev kvs) x"
  using fold_upd [OF inv_empty, of kvs x] look_empty by (simp split: option.splits)

end

interpretation hmap: keyed_map "[]" hm_insert hm_get hm_wf "\<lambda>_ _. True"
  by unfold_locales (simp_all add: hmap_simps)

section \<open>Bits of a key\<close>

definition kbit :: "bytes \<Rightarrow> nat \<Rightarrow> bool" where
  "kbit k d = bit (k ! (d div 8)) (7 - d mod 8)"

lemma kbit_inject:
  assumes "length k = 32" and "length k' = 32" and eq: "\<And>d. d < 256 \<Longrightarrow> kbit k d = kbit k' d"
  shows "k = k'"
proof (rule nth_equalityI)
  fix i assume "i < length k"
  then have i: "i < 32" using assms(1) by simp
  show "k ! i = k' ! i"
  proof (rule bit_word_eqI)
    fix j assume "j < LENGTH(8)"
    then have j: "j < 8" by simp
    define m where "m = 7 - j"
    then have m: "m < 8" "7 - m = j" using j by auto
    have "(8 * i + m) div 8 = i" "(8 * i + m) mod 8 = m" using m(1) by simp_all
    with eq [of "8 * i + m"] i m show "bit (k ! i) j = bit (k' ! i) j"
      by (simp add: kbit_def)
  qed
qed (simp add: assms)

definition same_prefix :: "nat \<Rightarrow> bytes \<Rightarrow> bytes \<Rightarrow> bool" where
  "same_prefix d k k' \<longleftrightarrow> (\<forall>i < d. kbit k i = kbit k' i)"

lemma same_prefix_0 [simp]: "same_prefix 0 k k'"
  by (simp add: same_prefix_def)

lemma same_prefix_Suc: "same_prefix (Suc d) k k' \<longleftrightarrow> same_prefix d k k' \<and> kbit k d = kbit k' d"
  by (auto simp: same_prefix_def less_Suc_eq)

lemma same_prefix_full:
  "length k = 32 \<Longrightarrow> length k' = 32 \<Longrightarrow> same_prefix 256 k k' \<Longrightarrow> k = k'"
  using kbit_inject by (auto simp: same_prefix_def)

section \<open>Tries\<close>

datatype trie = TE | TL bytes bytes | TN trie trie

function tput :: "trie \<Rightarrow> bytes \<Rightarrow> bytes \<Rightarrow> nat \<Rightarrow> trie" where
  "tput t k v d =
     (if 256 \<le> d then TL k v
      else case t of
        TE \<Rightarrow> TL k v
      | TL k' v' \<Rightarrow>
          (if k' = k then TL k v
           else if kbit k' d = kbit k d
             then (if kbit k d then TN TE (tput t k v (d + 1)) else TN (tput t k v (d + 1)) TE)
             else (if kbit k d then TN t (TL k v) else TN (TL k v) t))
      | TN l r \<Rightarrow> (if kbit k d then TN l (tput r k v (d + 1)) else TN (tput l k v (d + 1)) r))"
  by pat_completeness auto
termination
  by (relation "measure (\<lambda>(t, k, v, d). 256 - d)") auto

declare tput.simps [simp del]

primrec tget :: "trie \<Rightarrow> bytes \<Rightarrow> nat \<Rightarrow> bytes option" where
  "tget TE k d = None"
| "tget (TL k' v) k d = (if k' = k then Some v else None)"
| "tget (TN l r) k d = (if kbit k d then tget r k (d + 1) else tget l k (d + 1))"

primrec tset :: "trie \<Rightarrow> (bytes \<times> bytes) set" where
  "tset TE = {}"
| "tset (TL k v) = {(k, v)}"
| "tset (TN l r) = tset l \<union> tset r"

primrec twf :: "trie \<Rightarrow> nat \<Rightarrow> bool" where
  "twf TE d \<longleftrightarrow> True"
| "twf (TL k v) d \<longleftrightarrow> length k = 32 \<and> length v = 32"
| "twf (TN l r) d \<longleftrightarrow> d < 256 \<and> twf l (Suc d) \<and> twf r (Suc d) \<and>
     (\<forall>p \<in> tset l. \<not> kbit (fst p) d) \<and> (\<forall>p \<in> tset r. kbit (fst p) d)"

text \<open>Canonical form: every branching node has at least two different keys below it.\<close>

definition two_keys :: "(bytes \<times> bytes) set \<Rightarrow> bool" where
  "two_keys S \<longleftrightarrow> (\<exists>p \<in> S. \<exists>q \<in> S. fst p \<noteq> fst q)"

primrec canon :: "trie \<Rightarrow> bool" where
  "canon TE \<longleftrightarrow> True"
| "canon (TL k v) \<longleftrightarrow> True"
| "canon (TN l r) \<longleftrightarrow> canon l \<and> canon r \<and> two_keys (tset l \<union> tset r)"

lemma two_keys_mono: "two_keys S \<Longrightarrow> fst ` S \<subseteq> fst ` S' \<Longrightarrow> two_keys S'"
  unfolding two_keys_def by (metis (no_types, lifting) image_iff subset_iff)

lemma twf_lengths: "twf t d \<Longrightarrow> (k, v) \<in> tset t \<Longrightarrow> length k = 32 \<and> length v = 32"
  by (induction t arbitrary: d) auto

lemma tget_iff: "twf t d \<Longrightarrow> tget t k d = Some v \<longleftrightarrow> (k, v) \<in> tset t"
  by (induction t arbitrary: d) force+

lemma tput_branch:
  "d < 256 \<Longrightarrow> tput (TN l r) k v d =
     (if kbit k d then TN l (tput r k v (Suc d)) else TN (tput l k v (Suc d)) r)"
  by (simp add: tput.simps [of "TN l r"])

lemma tput_leaf:
  "d < 256 \<Longrightarrow> k' \<noteq> k \<Longrightarrow> tput (TL k' v') k v d =
     (if kbit k' d = kbit k d
      then (if kbit k d then TN TE (tput (TL k' v') k v (Suc d)) else TN (tput (TL k' v') k v (Suc d)) TE)
      else (if kbit k d then TN (TL k' v') (TL k v) else TN (TL k v) (TL k' v')))"
  by (simp add: tput.simps [of "TL k' v'" k v d])

lemma tput_done: "256 \<le> d \<or> t = TE \<or> t = TL k v' \<Longrightarrow> tput t k v d = TL k v"
  by (auto simp: tput.simps [of t])

text \<open>The shapes an insertion can meet.\<close>

lemma tput_cases [case_names base leaf branch]:
  fixes d :: nat
  assumes "256 \<le> d \<or> t = TE \<or> (\<exists>v'. t = TL k v') \<Longrightarrow> P"
    and "\<And>k' v'. d < 256 \<Longrightarrow> t = TL k' v' \<Longrightarrow> k' \<noteq> k \<Longrightarrow> P"
    and "\<And>l r. d < 256 \<Longrightarrow> t = TN l r \<Longrightarrow> P"
  shows P
  using assms by (cases "256 \<le> d"; cases t) auto


text \<open>What an insertion does: it replaces the entry of the key and keeps the shape of the trie.\<close>

definition put_adds :: "trie \<Rightarrow> bytes \<Rightarrow> bytes \<Rightarrow> nat \<Rightarrow> bool" where
  "put_adds t k v d \<longleftrightarrow> tset (tput t k v d) = {p \<in> tset t. fst p \<noteq> k} \<union> {(k, v)} \<and> twf (tput t k v d) d \<and>
     (canon t \<longrightarrow> canon (tput t k v d))"

lemma put_adds_base:
  assumes "twf t d" "d \<le> 256" "length k = 32" "length v = 32" and pre: "\<forall>p \<in> tset t. same_prefix d k (fst p)"
    and base: "256 \<le> d \<or> t = TE \<or> (\<exists>v'. t = TL k v')"
  shows "put_adds t k v d"
proof -
  have "fst p = k" if "p \<in> tset t" for p
    using base that same_prefix_full [of k "fst p"] pre assms(2,3) twf_lengths [OF assms(1), of "fst p" "snd p"]
    by (cases "d = 256") auto
  moreover have "tput t k v d = TL k v" using base by (auto intro: tput_done)
  ultimately show ?thesis using assms(3,4) by (auto simp: put_adds_def)
qed

lemma put_adds_leaf:
  assumes "d < 256" "k' \<noteq> k" "twf (TL k' v') d" "length k = 32" "length v = 32"
    and IH: "kbit k' d = kbit k d \<Longrightarrow> put_adds (TL k' v') k v (Suc d)"
  shows "put_adds (TL k' v') k v d"
proof (cases "kbit k' d = kbit k d")
  case True
  let ?s = "tput (TL k' v') k v (Suc d)"
  have e: "{p \<in> tset (TL k' v'). fst p \<noteq> k} \<union> {(k, v)} = {(k', v'), (k, v)}" using assms(2) by auto
  with IH [OF True] have s: "tset ?s = {(k', v'), (k, v)}" "twf ?s (Suc d)" "canon ?s" unfolding put_adds_def by simp_all
  have "tput (TL k' v') k v d = (if kbit k d then TN TE ?s else TN ?s TE)" using True by (simp add: tput_leaf [OF assms(1,2)])
  moreover have "two_keys {(k', v'), (k, v)}" using assms(2) by (auto simp: two_keys_def)
  ultimately show ?thesis using s True assms(1) unfolding put_adds_def e by (cases "kbit k d") simp_all
next
  case False
  then show ?thesis
    using assms(1-5) unfolding put_adds_def tput_leaf [OF assms(1,2)] by (auto simp: two_keys_def)
qed

lemma put_adds_branch:
  assumes "d < 256" and wf: "twf (TN l r) d" and c: "c = (if kbit k d then r else l)" and IH: "put_adds c k v (Suc d)"
  shows "put_adds (TN l r) k v d"
proof -
  let ?s = "tput c k v (Suc d)"
  have tp: "tput (TN l r) k v d = (if kbit k d then TN l ?s else TN ?s r)" using assms(1) c by (simp add: tput_branch)
  have s: "tset ?s = {p \<in> tset c. fst p \<noteq> k} \<union> {(k, v)}" "twf ?s (Suc d)" "canon c \<Longrightarrow> canon ?s" using IH by (auto simp: put_adds_def)
  have "fst p \<noteq> k" if "p \<in> tset (if kbit k d then l else r)" for p using wf that by (auto split: if_splits)
  then have set: "tset (tput (TN l r) k v d) = {p \<in> tset (TN l r). fst p \<noteq> k} \<union> {(k, v)}"
    unfolding tp using s(1) c by (auto split: if_splits)
  have "two_keys (tset (TN l r)) \<Longrightarrow> two_keys (tset (tput (TN l r) k v d))"
    by (erule two_keys_mono) (auto simp: set)
  then show ?thesis
    using set s wf c unfolding put_adds_def by (simp add: tp split: if_splits)
qed

lemma tput_correct:
  assumes "twf t d" and "d \<le> 256" and "length k = 32" and "length v = 32"
    and "\<forall>p \<in> tset t. same_prefix d k (fst p)"
  shows "put_adds t k v d"
  using assms
proof (induction t k v d rule: tput.induct)
  case (1 t k v d)
  note prems = "1.prems"
  show ?case
  proof (cases rule: tput_cases [of d t k])
    case base
    then show ?thesis using prems by (intro put_adds_base)
  next
    case (leaf k' v')
    have "put_adds t k v (Suc d)" if same: "kbit k' d = kbit k d"
    proof -
      have "\<forall>p \<in> tset t. same_prefix (Suc d) k (fst p)" using prems(5) leaf(2) same by (simp add: same_prefix_Suc)
      then show ?thesis using "1.IH"(1,2) leaf same prems by (cases "kbit k d") simp_all
    qed
    with leaf prems show ?thesis using put_adds_leaf [of d k' k v' v] by simp
  next
    case (branch l r)
    have "\<forall>p \<in> tset l. same_prefix (Suc d) k (fst p)" if "\<not> kbit k d" using prems(1,5) branch that by (auto simp: same_prefix_Suc)
    moreover have "\<forall>p \<in> tset r. same_prefix (Suc d) k (fst p)" if "kbit k d" using prems(1,5) branch that by (auto simp: same_prefix_Suc)
    ultimately have "put_adds (if kbit k d then r else l) k v (Suc d)"
      using "1.IH"(3,4) branch prems by (cases "kbit k d") simp_all
    with branch prems show ?thesis by (auto intro: put_adds_branch)
  qed
qed

lemma canon_unique:
  assumes "twf t d" and "twf t' d" and "canon t" and "canon t'" and "tset t = tset t'"
  shows "t = t'"
  using assms
proof (induction t arbitrary: t' d)
  case TE
  then show ?case by (cases t') (auto simp: two_keys_def)
next
  case (TL k v)
  have "\<not> two_keys (tset t')" using TL.prems(5) [symmetric] by (simp add: two_keys_def)
  with TL.prems show ?case by (cases t') auto
next
  case (TN l r)
  obtain l' r' where t': "t' = TN l' r'"
    using TN.prems(3,5) by (cases t') (auto simp: two_keys_def)
  have split: "tset l = {p \<in> tset (TN l r). \<not> kbit (fst p) d}" "tset r = {p \<in> tset (TN l r). kbit (fst p) d}"
    if "twf (TN l r) d" for l r
    using that by auto
  have "tset l = tset l'" "tset r = tset r'"
    unfolding split [OF TN.prems(1)] split [OF TN.prems(2) [unfolded t']] TN.prems(5) [unfolded t'] by (rule refl)+
  with TN.IH(1) [of "Suc d" l'] TN.IH(2) [of "Suc d" r'] TN.prems t' show ?case by simp
qed

text \<open>The trie as a keyed map over 32-byte keys and values.\<close>

definition trie_inv :: "trie \<Rightarrow> bool" where
  "trie_inv t \<longleftrightarrow> twf t 0 \<and> canon t"

interpretation trie: keyed_map TE "\<lambda>k v t. tput t k v 0" "\<lambda>t k. tget t k 0" trie_inv
  "\<lambda>k v. length k = 32 \<and> length v = 32"
proof
  fix t and k v k' :: bytes
  assume t: "trie_inv t" and len: "length k = 32 \<and> length v = 32"
  then have c: "tset (tput t k v 0) = {p \<in> tset t. fst p \<noteq> k} \<union> {(k, v)}"
      "twf (tput t k v 0) 0" "canon (tput t k v 0)"
    using tput_correct [of t 0 k v] by (auto simp: trie_inv_def put_adds_def)
  then show "trie_inv (tput t k v 0)" by (simp add: trie_inv_def)
  have "tget (tput t k v 0) k' 0 = Some x \<longleftrightarrow> (if k' = k then Some v else tget t k' 0) = Some x" for x
    using c t by (auto simp: tget_iff trie_inv_def)
  then show "tget (tput t k v 0) k' 0 = (if k' = k then Some v else tget t k' 0)"
    by (metis not_None_eq)
qed (simp_all add: trie_inv_def)

end
