(* ===== verification/Jmt_Refinement.thy ===== *)
theory Jmt_Refinement
  imports Jmt Trie_Spec
begin

text \<open>
  The node store of \<^verbatim>\<open>src/storage/jmt.rs\<close> implements the trie of \<open>Trie_Spec\<close>: insertion, lookup and proof
  generation on hashes commute with the trie operations, as long as no two of the nodes that occur have
  the same hash and none hashes to the reserved empty hash.
\<close>

primrec trie_hash :: "hash_fn \<Rightarrow> trie \<Rightarrow> node_hash" where
  "trie_hash sha TE = EMPTY_HASH"
| "trie_hash sha (TL k v) = jmt_node_hash sha (Leaf k v)"
| "trie_hash sha (TN l r) = jmt_node_hash sha (Internal (trie_hash sha l) (trie_hash sha r))"

primrec node_of :: "hash_fn \<Rightarrow> trie \<Rightarrow> jmt_node" where
  "node_of sha TE = Empty"
| "node_of sha (TL k v) = Leaf k v"
| "node_of sha (TN l r) = Internal (trie_hash sha l) (trie_hash sha r)"

primrec nodes_of :: "hash_fn \<Rightarrow> trie \<Rightarrow> jmt_node set" where
  "nodes_of sha TE = {}"
| "nodes_of sha (TL k v) = {Leaf k v}"
| "nodes_of sha (TN l r) =
     insert (Internal (trie_hash sha l) (trie_hash sha r)) (nodes_of sha l \<union> nodes_of sha r)"

lemma trie_hash_node: "trie_hash sha t = jmt_node_hash sha (node_of sha t)"
  by (cases t) (simp_all add: jmt_node_hash_def)

lemma node_of_in: "t \<noteq> TE \<Longrightarrow> node_of sha t \<in> nodes_of sha t"
  by (cases t) simp_all

lemma get_bit_kbit: "length k = 32 \<Longrightarrow> d < 256 \<Longrightarrow> get_bit k d = Inr (kbit k d)"
  by (simp add: get_bit_def kbit_def Let_def bit_iff_odd_drop_bit and_one_eq odd_iff_mod_2_eq_one
      less_mult_imp_div_less)

text \<open>No collisions among the nodes of \<open>K\<close>; a store of nodes of \<open>K\<close> under their own hashes; a store that
  holds all nodes of a trie.\<close>

definition collision_free :: "hash_fn \<Rightarrow> jmt_node set \<Rightarrow> bool" where
  "collision_free sha K \<longleftrightarrow> inj_on (jmt_node_hash sha) K \<and> EMPTY_HASH \<notin> jmt_node_hash sha ` K"

definition store_ok :: "hash_fn \<Rightarrow> jmt_node set \<Rightarrow> jmt_nodes \<Rightarrow> bool" where
  "store_ok sha K nodes \<longleftrightarrow> (\<forall>h n. hm_get nodes h = Some n \<longrightarrow> n \<in> K \<and> h = jmt_node_hash sha n)"

definition holds_nodes :: "hash_fn \<Rightarrow> jmt_nodes \<Rightarrow> jmt_node set \<Rightarrow> bool" where
  "holds_nodes sha nodes N \<longleftrightarrow> (\<forall>n \<in> N. hm_get nodes (jmt_node_hash sha n) = Some n)"

definition put_node :: "hash_fn \<Rightarrow> jmt_node \<Rightarrow> jmt_nodes \<Rightarrow> jmt_nodes" where
  "put_node sha n nodes = hm_insert (jmt_node_hash sha n) n nodes"

lemma store_node_pair: "store_node sha n nodes = (jmt_node_hash sha n, put_node sha n nodes)"
  by (simp add: store_node_def put_node_def Let_def)

text \<open>Storing a node keeps the store well-formed and loses nothing.\<close>

lemma put_node_ok:
  assumes "collision_free sha K" and "store_ok sha K nodes" and "n \<in> K" and "holds_nodes sha nodes N"
  shows "store_ok sha K (put_node sha n nodes)" "holds_nodes sha (put_node sha n nodes) (insert n N)"
proof -
  have get: "hm_get (put_node sha n nodes) h =
      (if h = jmt_node_hash sha n then Some n else hm_get nodes h)" for h
    by (simp add: put_node_def hm_lookup)
  have "m = n" if "m \<in> N" "jmt_node_hash sha m = jmt_node_hash sha n" for m
  proof -
    have "m \<in> K" using assms(2,4) that(1) by (auto simp: store_ok_def holds_nodes_def)
    with assms(1,3) that(2) show ?thesis by (auto simp: collision_free_def dest: inj_onD)
  qed
  then show "holds_nodes sha (put_node sha n nodes) (insert n N)"
    using assms(4) by (auto simp: holds_nodes_def get)
  show "store_ok sha K (put_node sha n nodes)" using assms(2,3) by (auto simp: store_ok_def get)
qed

lemma holds_nodes_mono: "holds_nodes sha nodes N \<Longrightarrow> N' \<subseteq> N \<Longrightarrow> holds_nodes sha nodes N'"
  by (auto simp: holds_nodes_def)

lemma holds_lookup:
  assumes "collision_free sha K" and "store_ok sha K nodes" and "holds_nodes sha nodes (nodes_of sha t)"
    and "t \<noteq> TE"
  shows "trie_hash sha t \<noteq> EMPTY_HASH" "hm_get nodes (trie_hash sha t) = Some (node_of sha t)"
proof -
  show get: "hm_get nodes (trie_hash sha t) = Some (node_of sha t)"
    using assms(3) node_of_in [OF assms(4)] by (simp add: holds_nodes_def trie_hash_node)
  then have "node_of sha t \<in> K" using assms(2) by (simp add: store_ok_def)
  with assms(1) show "trie_hash sha t \<noteq> EMPTY_HASH" by (force simp: collision_free_def trie_hash_node)
qed


lemma put_recursive_leaf:
  assumes "256 \<le> d \<or> h = EMPTY_HASH \<or> (\<exists>v'. hm_get nodes h = Some (Leaf k v'))"
  shows "put_recursive sha nodes h k v d = Inr (jmt_node_hash sha (Leaf k v), put_node sha (Leaf k v) nodes)"
  using assms by (auto simp: put_recursive.simps [of sha nodes h] store_node_pair)

lemma put_recursive_split:
  assumes "d < 256" and "h \<noteq> EMPTY_HASH" and "hm_get nodes h = Some (Leaf k' v')" and "k' \<noteq> k"
    and "length k = 32" and "length k' = 32"
  shows "put_recursive sha nodes h k v d =
    (let eh = jmt_node_hash sha (Leaf k' v'); nodes1 = put_node sha (Leaf k' v') nodes in
     if kbit k' d = kbit k d then
       (case put_recursive sha nodes1 eh k v (Suc d) of
          Inl p \<Rightarrow> Inl p
        | Inr (ch, nodes2) \<Rightarrow>
            Inr (store_node sha (if kbit k d then Internal EMPTY_HASH ch else Internal ch EMPTY_HASH) nodes2))
     else
       (let nh = jmt_node_hash sha (Leaf k v); nodes2 = put_node sha (Leaf k v) nodes1 in
        Inr (store_node sha (if kbit k d then Internal eh nh else Internal nh eh) nodes2)))"
  using assms by (simp add: put_recursive.simps [of sha nodes h] get_bit_kbit store_node_pair [of _ "Leaf _ _"] Let_def)

lemma put_recursive_branch:
  assumes "d < 256" and "h \<noteq> EMPTY_HASH" and "hm_get nodes h = Some (Internal lh rh)" and "length k = 32"
  shows "put_recursive sha nodes h k v d =
    (if kbit k d then
       (case put_recursive sha nodes rh k v (Suc d) of
          Inl p \<Rightarrow> Inl p
        | Inr (ch, nodes1) \<Rightarrow> Inr (store_node sha (Internal lh ch) nodes1))
     else
       (case put_recursive sha nodes lh k v (Suc d) of
          Inl p \<Rightarrow> Inl p
        | Inr (ch, nodes1) \<Rightarrow> Inr (store_node sha (Internal ch rh) nodes1)))"
  using assms by (simp add: put_recursive.simps [of sha nodes h] get_bit_kbit)

text \<open>Insertion on the store is insertion in the trie: what it needs and what it gives, over a store that also
  holds the nodes of \<open>N\<close>.\<close>

definition put_pre ::
    "hash_fn \<Rightarrow> jmt_node set \<Rightarrow> jmt_node set \<Rightarrow> jmt_nodes \<Rightarrow> trie \<Rightarrow> bytes \<Rightarrow> bytes \<Rightarrow> nat \<Rightarrow> bool" where
  "put_pre sha K N nodes t k v d \<longleftrightarrow> store_ok sha K nodes \<and> holds_nodes sha nodes (N \<union> nodes_of sha t) \<and>
     nodes_of sha (tput t k v d) \<subseteq> K \<and> twf t d \<and> length k = 32"

definition put_post ::
    "hash_fn \<Rightarrow> jmt_node set \<Rightarrow> jmt_node set \<Rightarrow> jmt_nodes \<Rightarrow> trie \<Rightarrow> bytes \<Rightarrow> bytes \<Rightarrow> nat \<Rightarrow> bool" where
  "put_post sha K N nodes t k v d \<longleftrightarrow>
     (\<exists>nodes'. put_recursive sha nodes (trie_hash sha t) k v d = Inr (trie_hash sha (tput t k v d), nodes') \<and>
        store_ok sha K nodes' \<and> holds_nodes sha nodes' (N \<union> nodes_of sha t \<union> nodes_of sha (tput t k v d)))"

lemma put_pre_lookup:
  assumes "collision_free sha K" "put_pre sha K N nodes t k v d" "t \<noteq> TE"
  shows "trie_hash sha t \<noteq> EMPTY_HASH" "hm_get nodes (trie_hash sha t) = Some (node_of sha t)" "node_of sha t \<in> K"
proof -
  have "holds_nodes sha nodes (nodes_of sha t)" "store_ok sha K nodes"
    using assms(2) by (auto simp: put_pre_def intro: holds_nodes_mono)
  with holds_lookup [OF assms(1) _ _ assms(3)] show "trie_hash sha t \<noteq> EMPTY_HASH"
      "hm_get nodes (trie_hash sha t) = Some (node_of sha t)" "node_of sha t \<in> K"
    by (auto simp: store_ok_def)
qed

text \<open>The last thing an insertion does is to store the new top node over a store that holds the rest.\<close>

lemma put_post_store:
  assumes "collision_free sha K" "store_ok sha K nodes'" "n \<in> K" "holds_nodes sha nodes' M"
    and "put_recursive sha nodes (trie_hash sha t) k v d = Inr (trie_hash sha (tput t k v d), put_node sha n nodes')"
    and "N \<union> nodes_of sha t \<union> nodes_of sha (tput t k v d) \<subseteq> insert n M"
  shows "put_post sha K N nodes t k v d"
  using put_node_ok [OF assms(1-4)] assms(5,6) holds_nodes_mono unfolding put_post_def by blast

lemma put_refines_base:
  assumes cf: "collision_free sha K" and pre: "put_pre sha K N nodes t k v d"
    and base: "256 \<le> d \<or> t = TE \<or> (\<exists>v'. t = TL k v')"
  shows "put_post sha K N nodes t k v d"
proof -
  have tp: "tput t k v d = TL k v" using base by (auto intro: tput_done)
  have "256 \<le> d \<or> trie_hash sha t = EMPTY_HASH \<or> (\<exists>v'. hm_get nodes (trie_hash sha t) = Some (Leaf k v'))"
    using base put_pre_lookup(2) [OF cf pre] by auto
  then have "put_recursive sha nodes (trie_hash sha t) k v d = Inr (trie_hash sha (tput t k v d), put_node sha (Leaf k v) nodes)"
    unfolding tp by (simp add: put_recursive_leaf)
  then show ?thesis
    using pre unfolding put_pre_def tp by (intro put_post_store [OF cf, where M = "N \<union> nodes_of sha t" and n = "Leaf k v"]) (auto simp: tp)
qed

text \<open>At a leaf with another key the old leaf is stored again, which changes nothing.\<close>

lemma put_refines_leaf:
  assumes cf: "collision_free sha K" and pre: "put_pre sha K N nodes t k v d" and t: "t = TL k' v'"
  shows "store_ok sha K (put_node sha (Leaf k' v') nodes)" "holds_nodes sha (put_node sha (Leaf k' v') nodes) (N \<union> nodes_of sha t)"
proof -
  have K: "Leaf k' v' \<in> K" using put_pre_lookup(3) [OF cf pre] t by simp
  have "store_ok sha K nodes" "holds_nodes sha nodes (N \<union> nodes_of sha t)" using pre by (simp_all add: put_pre_def)
  note ok = put_node_ok [OF cf this(1) K this(2)]
  from ok(1) show "store_ok sha K (put_node sha (Leaf k' v') nodes)" .
  from ok(2) show "holds_nodes sha (put_node sha (Leaf k' v') nodes) (N \<union> nodes_of sha t)" by (rule holds_nodes_mono) auto
qed

lemma put_refines_leaf_down:
  assumes cf: "collision_free sha K" and pre: "put_pre sha K N nodes t k v d"
    and leaf: "d < 256" "t = TL k' v'" "k' \<noteq> k" and same: "kbit k' d = kbit k d"
    and IH: "put_post sha K N (put_node sha (Leaf k' v') nodes) t k v (Suc d)"
  shows "put_post sha K N nodes t k v d"
proof -
  let ?s = "tput t k v (Suc d)"
  let ?top = "if kbit k d then Internal EMPTY_HASH (trie_hash sha ?s) else Internal (trie_hash sha ?s) EMPTY_HASH"
  have tp: "tput t k v d = (if kbit k d then TN TE ?s else TN ?s TE)" using leaf same by (simp add: tput_leaf)
  have top: "?top \<in> K" "length k = 32" "length k' = 32" using pre leaf(2) unfolding put_pre_def tp by (auto split: if_splits)
  obtain n2 where n2: "put_recursive sha (put_node sha (Leaf k' v') nodes) (trie_hash sha t) k v (Suc d) = Inr (trie_hash sha ?s, n2)"
      "store_ok sha K n2" "holds_nodes sha n2 (N \<union> nodes_of sha t \<union> nodes_of sha ?s)" using IH by (auto simp: put_post_def)
  have "put_recursive sha nodes (trie_hash sha t) k v d = Inr (trie_hash sha (tput t k v d), put_node sha ?top n2)"
    unfolding tp
    using put_recursive_split [OF leaf(1) _ _ leaf(3) top(2,3), of "trie_hash sha t" nodes v' sha v] put_pre_lookup [OF cf pre] leaf(2)
      same n2(1) by (simp add: store_node_pair)
  then show ?thesis by (rule put_post_store [OF cf n2(2) top(1) n2(3)]) (auto simp: tp)
qed

lemma put_refines_leaf_split:
  assumes cf: "collision_free sha K" and pre: "put_pre sha K N nodes t k v d"
    and leaf: "d < 256" "t = TL k' v'" "k' \<noteq> k" and diff: "kbit k' d \<noteq> kbit k d"
  shows "put_post sha K N nodes t k v d"
proof -
  let ?n1 = "put_node sha (Leaf k' v') nodes"
  let ?top = "if kbit k d then Internal (trie_hash sha t) (jmt_node_hash sha (Leaf k v))
    else Internal (jmt_node_hash sha (Leaf k v)) (trie_hash sha t)"
  have tp: "tput t k v d = (if kbit k d then TN t (TL k v) else TN (TL k v) t)" using leaf diff by (simp add: tput_leaf)
  have sub: "Leaf k v \<in> K" "?top \<in> K" "length k = 32" "length k' = 32"
    using pre leaf(2) unfolding put_pre_def tp by (auto split: if_splits)
  note n2 = put_node_ok [OF cf put_refines_leaf(1) [OF cf pre leaf(2)] sub(1) put_refines_leaf(2) [OF cf pre leaf(2)]]
  have "put_recursive sha nodes (trie_hash sha t) k v d =
      Inr (trie_hash sha (tput t k v d), put_node sha ?top (put_node sha (Leaf k v) ?n1))"
    unfolding tp
    using put_recursive_split [OF leaf(1) _ _ leaf(3) sub(3,4), of "trie_hash sha t" nodes v' sha v] put_pre_lookup [OF cf pre] leaf(2)
      diff by (simp add: store_node_pair Let_def)
  then show ?thesis by (rule put_post_store [OF cf n2(1) sub(2) n2(2)]) (auto simp: tp)
qed

text \<open>At an inner node the insertion goes on in the child on the side of the key.\<close>

lemma put_refines_branch:
  assumes cf: "collision_free sha K" and pre: "put_pre sha K N nodes (TN l r) k v d" and d: "d < 256"
    and IH: "put_post sha K (N \<union> nodes_of sha (TN l r)) nodes (if kbit k d then r else l) k v (Suc d)"
  shows "put_post sha K N nodes (TN l r) k v d"
proof -
  let ?t = "TN l r" and ?c = "if kbit k d then r else l"
  let ?s = "tput ?c k v (Suc d)"
  let ?top = "if kbit k d then Internal (trie_hash sha l) (trie_hash sha ?s) else Internal (trie_hash sha ?s) (trie_hash sha r)"
  have tp: "tput ?t k v d = (if kbit k d then TN l ?s else TN ?s r)" using d by (simp add: tput_branch)
  have top: "?top \<in> K" "length k = 32" using pre unfolding put_pre_def tp by (auto split: if_splits)
  obtain n1 where n1: "put_recursive sha nodes (trie_hash sha ?c) k v (Suc d) = Inr (trie_hash sha ?s, n1)"
      "store_ok sha K n1" "holds_nodes sha n1 (N \<union> nodes_of sha ?t \<union> nodes_of sha ?c \<union> nodes_of sha ?s)"
    using IH by (auto simp: put_post_def)
  have "put_recursive sha nodes (trie_hash sha ?t) k v d = Inr (trie_hash sha (tput ?t k v d), put_node sha ?top n1)"
    using put_recursive_branch [OF d _ _ top(2), of "trie_hash sha ?t" nodes "trie_hash sha l" "trie_hash sha r" sha v]
      put_pre_lookup [OF cf pre] n1(1) unfolding tp by (simp add: store_node_pair split: if_splits)
  then show ?thesis by (rule put_post_store [OF cf n1(2) top(1) n1(3)]) (auto simp: tp)
qed

lemma put_recursive_refines:
  assumes cf: "collision_free sha K"
  shows "put_pre sha K N nodes t k v d \<Longrightarrow> put_post sha K N nodes t k v d"
proof (induction t k v d arbitrary: nodes N rule: tput.induct)
  case (1 t k v d)
  note pre = "1.prems"
  show ?case
  proof (cases rule: tput_cases [of d t k])
    case base
    then show ?thesis by (rule put_refines_base [OF cf pre])
  next
    case (leaf k' v')
    show ?thesis
    proof (cases "kbit k' d = kbit k d")
      case True
      have "nodes_of sha (tput t k v (Suc d)) \<subseteq> nodes_of sha (tput t k v d)" using leaf True by (auto simp: tput_leaf)
      then have "put_pre sha K N (put_node sha (Leaf k' v') nodes) t k v (Suc d)"
        using pre put_refines_leaf [OF cf pre leaf(2)] leaf(2) by (auto simp: put_pre_def)
      then have "put_post sha K N (put_node sha (Leaf k' v') nodes) t k v (Suc d)"
        using "1.IH"(1,2) leaf True by (cases "kbit k d") simp_all
      with pre leaf True show ?thesis by (blast intro: put_refines_leaf_down [OF cf])
    qed (rule put_refines_leaf_split [OF cf pre leaf])
  next
    case (branch l r)
    have "put_pre sha K (N \<union> nodes_of sha t) nodes (if kbit k d then r else l) k v (Suc d)"
      using pre branch by (auto simp: put_pre_def tput_branch elim: holds_nodes_mono split: if_splits)
    then have "put_post sha K (N \<union> nodes_of sha t) nodes (if kbit k d then r else l) k v (Suc d)"
      using "1.IH"(3,4) branch by (cases "kbit k d") simp_all
    with pre branch show ?thesis using put_refines_branch [OF cf] by simp
  qed
qed

lemma get_recursive_refines:
  assumes "collision_free sha K" and "store_ok sha K nodes" and "holds_nodes sha nodes (nodes_of sha t)"
    and "twf t d" and "length k = 32"
  shows "get_recursive nodes (trie_hash sha t) k d = Inr (tget t k d)"
  using assms(3-)
proof (induction t arbitrary: d)
  case TE
  then show ?case by (simp add: get_recursive.simps)
next
  case (TL k' v)
  then show ?case
    using holds_lookup [OF assms(1,2) TL.prems(1)] by (subst get_recursive.simps) simp
next
  case (TN l r)
  have "holds_nodes sha nodes (nodes_of sha l)" "holds_nodes sha nodes (nodes_of sha r)"
    using TN.prems(1) by (auto elim: holds_nodes_mono)
  with TN show ?case
    using holds_lookup [OF assms(1,2) TN.prems(1)]
    by (subst get_recursive.simps) (simp add: get_bit_kbit)
qed

text \<open>The siblings on the path to a key, from the root down.\<close>

primrec tproof :: "hash_fn \<Rightarrow> trie \<Rightarrow> bytes \<Rightarrow> nat \<Rightarrow> (nat \<times> node_hash) list" where
  "tproof sha TE k d = []"
| "tproof sha (TL k' v) k d = []"
| "tproof sha (TN l r) k d =
     (if kbit k d then (d, trie_hash sha l) # tproof sha r k (Suc d)
      else (d, trie_hash sha r) # tproof sha l k (Suc d))"

lemma collect_refines:
  assumes "collision_free sha K" and "store_ok sha K nodes" and "holds_nodes sha nodes (nodes_of sha t)"
    and "twf t d" and "length k = 32"
  shows "collect_proof_siblings nodes (trie_hash sha t) k d = Inr (tproof sha t k d)"
  using assms(3-)
proof (induction t arbitrary: d)
  case TE
  then show ?case by (simp add: collect_proof_siblings.simps)
next
  case (TL k' v)
  then show ?case
    using holds_lookup [OF assms(1,2) TL.prems(1)] by (subst collect_proof_siblings.simps) simp
next
  case (TN l r)
  have "holds_nodes sha nodes (nodes_of sha l)" "holds_nodes sha nodes (nodes_of sha r)"
    using TN.prems(1) by (auto elim: holds_nodes_mono)
  with TN show ?case
    using holds_lookup [OF assms(1,2) TN.prems(1)]
    by (subst collect_proof_siblings.simps) (simp add: get_bit_kbit)
qed

lemma climb_append:
  "climb sha k c (xs @ ys) =
     (case climb sha k c xs of Inl p \<Rightarrow> Inl p | Inr c' \<Rightarrow> climb sha k c' ys)"
  by (induction xs arbitrary: c) (auto split: sum.splits)

text \<open>Climbing from the leaf of a stored key along its siblings reaches the root.\<close>

lemma climb_complete:
  "twf t d \<Longrightarrow> length k = 32 \<Longrightarrow> tget t k d = Some v \<Longrightarrow>
     climb sha k (jmt_node_hash sha (Leaf k v)) (rev (tproof sha t k d)) = Inr (trie_hash sha t)"
proof (induction t arbitrary: d)
  case (TN l r)
  then show ?case by (cases "kbit k d") (auto simp: climb_append get_bit_kbit)
qed (auto split: if_splits)

text \<open>The nodes whose hashes a verifier computes.\<close>

primrec climb_nodes :: "hash_fn \<Rightarrow> bytes \<Rightarrow> jmt_node \<Rightarrow> (nat \<times> node_hash) list \<Rightarrow> jmt_node list" where
  "climb_nodes sha k n [] = [n]"
| "climb_nodes sha k n (ds # rest) =
     n # climb_nodes sha k
           (if get_bit k (fst ds) = Inr True then Internal (snd ds) (jmt_node_hash sha n)
            else Internal (jmt_node_hash sha n) (snd ds)) rest"

lemma collision_free_mono: "collision_free sha K \<Longrightarrow> K' \<subseteq> K \<Longrightarrow> collision_free sha K'"
  unfolding collision_free_def by (meson image_mono inj_on_subset subsetD)

lemma internal_children:
  "Internal a b \<in> nodes_of sha t \<Longrightarrow>
     \<exists>l r. a = trie_hash sha l \<and> b = trie_hash sha r \<and> nodes_of sha l \<subseteq> nodes_of sha t \<and>
       nodes_of sha r \<subseteq> nodes_of sha t"
  by (induction t) (simp, simp, fastforce)

lemma subtrie_node:
  assumes "jmt_node_hash sha n = trie_hash sha u" and "collision_free sha K" and "n \<in> K"
    and "nodes_of sha u \<subseteq> nodes_of sha t" and "nodes_of sha t \<subseteq> K"
  shows "n \<in> nodes_of sha t"
proof -
  have "u \<noteq> TE" using assms(1-3) by (force simp: collision_free_def)
  then have u: "node_of sha u \<in> nodes_of sha u" by (rule node_of_in)
  then have "node_of sha u \<in> K" using assms(4,5) by blast
  then have "n = node_of sha u"
    using assms(1-3) unfolding collision_free_def trie_hash_node by (auto dest: inj_onD)
  with u assms(4) show ?thesis by blast
qed

text \<open>If climbing ends at the hash of a trie node, then the starting node is a node of the trie.\<close>

lemma climb_sound:
  assumes "climb sha k (jmt_node_hash sha n) ss = Inr (trie_hash sha t)"
    and "collision_free sha (nodes_of sha t \<union> set (climb_nodes sha k n ss))"
  shows "n \<in> nodes_of sha t"
  using assms
proof (induction ss arbitrary: n)
  case Nil
  then show ?case
    by (auto intro: subtrie_node [of sha n t "nodes_of sha t \<union> {n}"])
next
  case (Cons ds ss)
  obtain d s where ds: "ds = (d, s)" by (cases ds)
  from Cons.prems(1) obtain b where b: "get_bit k d = Inr b" by (auto simp: ds split: sum.splits)
  let ?m = "if b then Internal s (jmt_node_hash sha n) else Internal (jmt_node_hash sha n) s"
  have m: "climb sha k (jmt_node_hash sha ?m) ss = Inr (trie_hash sha t)"
    using Cons.prems(1) by (simp add: ds b)
  have K: "set (climb_nodes sha k n (ds # ss)) = insert n (set (climb_nodes sha k ?m ss))"
    by (simp add: ds b)
  have "?m \<in> nodes_of sha t"
    by (intro Cons.IH [OF m] collision_free_mono [OF Cons.prems(2)]) (unfold K, blast)
  then obtain u where "jmt_node_hash sha n = trie_hash sha u" "nodes_of sha u \<subseteq> nodes_of sha t"
    by (cases b) (auto dest: internal_children)
  with subtrie_node [OF _ Cons.prems(2), of n u t] show ?case by auto
qed


section \<open>Runs\<close>

fun jmt_put_all :: "hash_fn \<Rightarrow> (state_key \<times> u256) list \<Rightarrow> jmt \<Rightarrow> panic + jmt" where
  "jmt_put_all sha [] t = Inr t"
| "jmt_put_all sha ((k, v) # ops) t =
     (case jmt_put sha k v t of Inl p \<Rightarrow> Inl p | Inr (root, t') \<Rightarrow> jmt_put_all sha ops t')"

fun hashed_op :: "hash_fn \<Rightarrow> state_key \<times> u256 \<Rightarrow> bytes \<times> bytes" where
  "hashed_op sha (k, v) = (hash_key sha k, sha (u256_to_be_bytes v))"

definition hashed_ops :: "hash_fn \<Rightarrow> (state_key \<times> u256) list \<Rightarrow> (bytes \<times> bytes) list" where
  "hashed_ops sha ops = map (hashed_op sha) ops"

abbreviation trie_run :: "(bytes \<times> bytes) list \<Rightarrow> trie \<Rightarrow> trie" where
  "trie_run kvs t \<equiv> fold (\<lambda>(k, v) t. tput t k v 0) kvs t"

text \<open>The nodes of all the tries a run passes through.\<close>

fun run_nodes :: "hash_fn \<Rightarrow> (bytes \<times> bytes) list \<Rightarrow> trie \<Rightarrow> jmt_node set" where
  "run_nodes sha [] t = nodes_of sha t"
| "run_nodes sha ((k, v) # kvs) t = nodes_of sha t \<union> run_nodes sha kvs (tput t k v 0)"

definition represents :: "hash_fn \<Rightarrow> jmt_node set \<Rightarrow> jmt \<Rightarrow> trie \<Rightarrow> bool" where
  "represents sha K j t \<longleftrightarrow> trie_inv t \<and> jt_root j = trie_hash sha t \<and> store_ok sha K (jt_nodes j) \<and>
     holds_nodes sha (jt_nodes j) (nodes_of sha t)"

lemma represents_new: "represents sha K jmt_new TE"
  by (simp add: represents_def jmt_new_def trie_inv_def store_ok_def holds_nodes_def)

lemma run_nodes_start: "nodes_of sha t \<subseteq> run_nodes sha kvs t"
  by (cases kvs) auto

lemma run_nodes_end: "nodes_of sha (trie_run kvs t) \<subseteq> run_nodes sha kvs t"
  by (induction sha kvs t rule: run_nodes.induct) auto

lemma leaf_in_tset: "Leaf k v \<in> nodes_of sha t \<Longrightarrow> (k, v) \<in> tset t"
  by (induction t) auto

lemma map_sum_eq_Inr: "map_sum id f x = Inr y \<longleftrightarrow> (\<exists>z. x = Inr z \<and> f z = y)"
  by (cases x) auto

lemma jmt_put_represents:
  assumes "collision_free sha K" and len: "\<forall>x. length (sha x) = 32" and rep: "represents sha K j t"
    and "nodes_of sha (tput t (hash_key sha k) (sha (u256_to_be_bytes v)) 0) \<subseteq> K"
  shows "\<exists>j'. jmt_put sha k v j = Inr (jt_root j', j') \<and>
    represents sha K j' (tput t (hash_key sha k) (sha (u256_to_be_bytes v)) 0)"
proof -
  let ?t = "tput t (hash_key sha k) (sha (u256_to_be_bytes v)) 0"
  have "length (hash_key sha k) = 32" using len by (simp add: hash_key_def)
  with put_recursive_refines [OF assms(1), of "{}" "jt_nodes j" t "hash_key sha k" "sha (u256_to_be_bytes v)" 0]
    rep assms(4)
  obtain nodes where n: "put_recursive sha (jt_nodes j) (jt_root j) (hash_key sha k) (sha (u256_to_be_bytes v)) 0 =
      Inr (trie_hash sha ?t, nodes)" "store_ok sha K nodes" "holds_nodes sha nodes (nodes_of sha t \<union> nodes_of sha ?t)"
    by (auto simp: represents_def trie_inv_def put_pre_def put_post_def)
  moreover have "trie_inv ?t"
    using rep len by (intro trie.inv_upd) (auto simp: represents_def hash_key_def)
  moreover have "holds_nodes sha nodes (nodes_of sha ?t)" using n(3) by (rule holds_nodes_mono) simp
  ultimately show ?thesis by (simp add: jmt_put_def Let_def represents_def)
qed

lemma jmt_put_all_represents:
  assumes "collision_free sha K" and "\<forall>x. length (sha x) = 32" and "represents sha K j t"
    and "run_nodes sha (hashed_ops sha ops) t \<subseteq> K"
  shows "\<exists>j'. jmt_put_all sha ops j = Inr j' \<and> represents sha K j' (trie_run (hashed_ops sha ops) t)"
  using assms(3,4)
proof (induction ops arbitrary: j t)
  case (Cons op ops)
  obtain k v where op: "op = (k, v)" by (cases op)
  let ?t = "tput t (hash_key sha k) (sha (u256_to_be_bytes v)) 0"
  have sub: "run_nodes sha (hashed_ops sha ops) ?t \<subseteq> K"
    using Cons.prems(2) by (simp add: op hashed_ops_def)
  with run_nodes_start have "nodes_of sha ?t \<subseteq> K" by blast
  from jmt_put_represents [OF assms(1,2) Cons.prems(1) this] obtain j'
    where "jmt_put sha k v j = Inr (jt_root j', j')" "represents sha K j' ?t" by blast
  with Cons.IH [OF _ sub, of j'] show ?case by (auto simp: op hashed_ops_def)
qed (simp add: hashed_ops_def)

lemma map_of_hashed:
  assumes "inj_on f (insert k (fst ` set xs))"
  shows "map_of (map (\<lambda>(k, v). (f k, g v)) xs) (f k) = map_option g (map_of xs k)"
  using assms
proof (induction xs)
  case (Cons p xs)
  obtain a b where p: "p = (a, b)" by (cases p)
  have "f k = f a \<longleftrightarrow> k = a" using Cons.prems p by (auto dest: inj_onD)
  moreover have "inj_on f (insert k (fst ` set xs))" using Cons.prems by (rule inj_on_subset) auto
  ultimately show ?case using Cons.IH p by simp
qed simp

lemma hashed_op_eq: "hashed_op sha = (\<lambda>(k, v). (hash_key sha k, sha (u256_to_be_bytes v)))"
  by auto

definition keys_ok :: "hash_fn \<Rightarrow> state_key set \<Rightarrow> bool" where
  "keys_ok sha S \<longleftrightarrow> (\<forall>k \<in> S. length (sk_address k) = 20) \<and> inj_on sha (state_key_to_bytes ` S)"

lemma keys_ok_inj: "keys_ok sha S \<Longrightarrow> inj_on (hash_key sha) S"
  unfolding keys_ok_def hash_key_def inj_on_def using state_key_to_bytes_inject by fast

lemma tget_run:
  assumes "\<forall>x. length (sha x) = 32"
  shows "tget (trie_run (hashed_ops sha ops) TE) h 0 = map_of (rev (hashed_ops sha ops)) h"
  using assms by (intro trie.look_fold_empty) (auto simp: hashed_ops_def hash_key_def)

lemma tget_run_key:
  assumes "\<forall>x. length (sha x) = 32" and "keys_ok sha (insert key (fst ` set ops))"
  shows "tget (trie_run (hashed_ops sha ops) TE) (hash_key sha key) 0 =
    map_option (\<lambda>v. sha (u256_to_be_bytes v)) (map_of (rev ops) key)"
  using map_of_hashed [of "hash_key sha" key "rev ops"] keys_ok_inj [OF assms(2)]
  unfolding tget_run [OF assms(1)] unfolding hashed_ops_def hashed_op_eq rev_map by simp


lemma jmt_run_represents:
  assumes "\<forall>x. length (sha x) = 32" and "collision_free sha K" and "run_nodes sha (hashed_ops sha ops) TE \<subseteq> K"
    and "jmt_put_all sha ops jmt_new = Inr j"
  shows "represents sha K j (trie_run (hashed_ops sha ops) TE)"
  using jmt_put_all_represents [OF assms(2,1) represents_new assms(3)] assms(4) by auto

lemma jmt_get_represents:
  assumes "collision_free sha K" and "\<forall>x. length (sha x) = 32" and "represents sha K j t"
  shows "jmt_get sha j key = Inr (tget t (hash_key sha key) 0)"
  using assms get_recursive_refines [OF assms(1)]
  by (simp add: jmt_get_def represents_def trie_inv_def hash_key_def)

lemma run_lookup:
  assumes len: "\<forall>x. length (sha x) = 32"
    and cf: "collision_free sha (run_nodes sha (hashed_ops sha ops) TE)"
    and keys: "keys_ok sha (insert key (fst ` set ops))"
  shows "\<exists>j. jmt_put_all sha ops jmt_new = Inr j \<and>
    jmt_get sha j key = Inr (map_option (\<lambda>v. sha (u256_to_be_bytes v)) (map_of (rev ops) key))"
proof -
  obtain j where j: "jmt_put_all sha ops jmt_new = Inr j"
      "represents sha (run_nodes sha (hashed_ops sha ops) TE) j (trie_run (hashed_ops sha ops) TE)"
    using jmt_put_all_represents [OF cf len represents_new subset_refl] by blast
  with jmt_get_represents [OF cf len j(2)] tget_run_key [OF len keys] show ?thesis by auto
qed

section \<open>Insertion never panics\<close>

definition leaf_keys_ok :: "jmt_nodes \<Rightarrow> bool" where
  "leaf_keys_ok nodes \<longleftrightarrow> (\<forall>h k v. hm_get nodes h = Some (Leaf k v) \<longrightarrow> length k = 32)"

lemma leaf_keys_ok_put_node:
  "leaf_keys_ok nodes \<Longrightarrow> (case n of Leaf k v \<Rightarrow> length k = 32 | _ \<Rightarrow> True) \<Longrightarrow> leaf_keys_ok (put_node sha n nodes)"
  by (auto simp: leaf_keys_ok_def put_node_def hm_lookup)

lemma put_recursive_total:
  assumes "leaf_keys_ok nodes" and "length k = 32"
  shows "\<exists>h' nodes'. put_recursive sha nodes h k v d = Inr (h', nodes') \<and> leaf_keys_ok nodes'"
  using assms
proof (induction "256 - d" arbitrary: d nodes h rule: less_induct)
  case less
  note ok = less.prems(1)
  have leaf: "leaf_keys_ok (put_node sha (Leaf k v) nodes)"
    using ok less.prems(2) by (simp add: leaf_keys_ok_put_node)
  show ?case
  proof (cases "256 \<le> d \<or> h = EMPTY_HASH \<or> (\<exists>v'. hm_get nodes h = Some (Leaf k v'))")
    case True
    with put_recursive_leaf [OF True] leaf show ?thesis by simp
  next
    case False
    then have d: "d < 256" "h \<noteq> EMPTY_HASH" and IH: "leaf_keys_ok n \<Longrightarrow>
        \<exists>h' nodes'. put_recursive sha n x k v (Suc d) = Inr (h', nodes') \<and> leaf_keys_ok nodes'" for n x
      using less.hyps [of "Suc d"] less.prems(2) by auto
    show ?thesis
    proof (cases "hm_get nodes h")
      case None
      with d leaf show ?thesis by (simp add: put_recursive.simps [of sha nodes h] store_node_pair)
    next
      case (Some n)
      show ?thesis
      proof (cases n)
        case (Internal l r)
        from IH [OF ok, of l] IH [OF ok, of r] show ?thesis
          using put_recursive_branch [OF d, of nodes l r k sha v] Some Internal less.prems(2)
          by (auto simp: store_node_pair leaf_keys_ok_put_node)
      next
        case (Leaf k' v')
        have k': "length k' = 32" "k' \<noteq> k" using ok False Some Leaf by (auto simp: leaf_keys_ok_def)
        have ok1: "leaf_keys_ok (put_node sha (Leaf k' v') nodes)" using ok k' by (simp add: leaf_keys_ok_put_node)
        from IH [OF ok1, of "jmt_node_hash sha (Leaf k' v')"] show ?thesis
          using put_recursive_split [OF d, of nodes k' v' k sha v] Some Leaf k' less.prems(2) ok1
          by (auto simp: store_node_pair leaf_keys_ok_put_node Let_def)
      next
        case Empty
        with d Some leaf show ?thesis by (simp add: put_recursive.simps [of sha nodes h] store_node_pair)
      qed
    qed
  qed
qed

definition jmt_ok :: "jmt \<Rightarrow> bool" where
  "jmt_ok j \<longleftrightarrow> leaf_keys_ok (jt_nodes j)"

lemma jmt_ok_new [simp]: "jmt_ok jmt_new"
  by (simp add: jmt_ok_def jmt_new_def leaf_keys_ok_def)

lemma jmt_put_total:
  assumes "\<forall>x. length (sha x) = 32" and "jmt_ok j"
  shows "\<exists>r j'. jmt_put sha k v j = Inr (r, j') \<and> jmt_ok j'"
proof -
  have "length (hash_key sha k) = 32" using assms(1) by (simp add: hash_key_def)
  from put_recursive_total [OF assms(2) [unfolded jmt_ok_def] this, of sha "jt_root j" "sha (u256_to_be_bytes v)" 0]
  show ?thesis by (auto simp: jmt_put_def jmt_ok_def Let_def)
qed

section \<open>Example run\<close>

text \<open>A selection of 32 bytes that has no collisions on the inputs below, and three
  insertions into an empty tree, the last of which overwrites the first.\<close>

definition mix :: hash_fn where
  "mix b = (let p = b @ replicate 64 0 in take 1 p @ take 1 (drop 31 p) @ take 14 (drop 6 p) @ take 16 (drop 33 p))"

lemma mix_length: "\<forall>x. length (mix x) = 32"
  unfolding mix_def Let_def length_append length_take length_drop length_replicate by simp

definition example_key :: "u8 \<Rightarrow> state_key" where
  "example_key a = \<lparr>sk_address = replicate 20 a, sk_slot = U256_ZERO\<rparr>"

definition example_ops :: "(state_key \<times> u256) list" where
  "example_ops = [(example_key 1, u256_from_u64 10), (example_key 200, u256_from_u64 20),
     (example_key 1, u256_from_u64 11)]"

primrec node_list :: "hash_fn \<Rightarrow> trie \<Rightarrow> jmt_node list" where
  "node_list sha TE = []"
| "node_list sha (TL k v) = [Leaf k v]"
| "node_list sha (TN l r) = Internal (trie_hash sha l) (trie_hash sha r) # node_list sha l @ node_list sha r"

fun run_node_list :: "hash_fn \<Rightarrow> (bytes \<times> bytes) list \<Rightarrow> trie \<Rightarrow> jmt_node list" where
  "run_node_list sha [] t = node_list sha t"
| "run_node_list sha ((k, v) # kvs) t = node_list sha t @ run_node_list sha kvs (tput t k v 0)"

lemma set_run_node_list: "set (run_node_list sha kvs t) = run_nodes sha kvs t"
proof -
  have "set (node_list sha t) = nodes_of sha t" for t by (induction t) auto
  then show ?thesis by (induction sha kvs t rule: run_nodes.induct) auto
qed

lemma collision_freeI:
  assumes "distinct (EMPTY_HASH # map (jmt_node_hash sha) (remdups ns))"
  shows "collision_free sha (set ns)"
  using assms by (auto simp: collision_free_def distinct_map)

lemma example_collision_free: "collision_free mix (run_nodes mix (hashed_ops mix example_ops) TE)"
  unfolding set_run_node_list [symmetric] by (rule collision_freeI) code_simp

lemma example_keys_ok: "keys_ok mix (insert (example_key 1) (fst ` set example_ops))"
  by code_simp

section \<open>Properties\<close>

text \<open>Property C2: the tree is a map. After any sequence of insertions into an empty tree, none of which
  panics, looking up a key returns the hash of the value last inserted for it, and nothing for a key that
  was never inserted. The hash returns 32 bytes and has no collisions among the nodes and the keys of the
  run.\<close>

theorem jmt_get_after_puts:
  assumes len: "\<forall>x. length (sha x) = 32"
    and cf: "collision_free sha (run_nodes sha (hashed_ops sha ops) TE)"
    and keys: "keys_ok sha (insert key (fst ` set ops))"
  shows "\<exists>j. jmt_put_all sha ops jmt_new = Inr j \<and>
    jmt_get sha j key = Inr (map_option (\<lambda>v. sha (u256_to_be_bytes v)) (map_of (rev ops) key))"
  using assms by (rule run_lookup)

theorem jmt_get_after_puts_witness:
  "\<exists>j. jmt_put_all mix example_ops jmt_new = Inr j \<and>
     jmt_get mix j (example_key 1) = Inr (Some (mix (u256_to_be_bytes (u256_from_u64 11))))"
proof -
  have "map_of (rev example_ops) (example_key 1) = Some (u256_from_u64 11)"
    by (simp add: example_ops_def)
  with jmt_get_after_puts [OF mix_length example_collision_free example_keys_ok] show ?thesis by simp
qed

text \<open>Property C11: the root commits to the contents and nothing else. Two runs that leave the same value for
  every key end with the same root, whatever the order of their insertions and whatever was overwritten
  in between, if the hash has no collisions among the nodes and keys of the runs.\<close>

theorem jmt_root_order_independent:
  assumes len: "\<forall>x. length (sha x) = 32"
    and cf: "collision_free sha (run_nodes sha (hashed_ops sha ops1) TE)"
      "collision_free sha (run_nodes sha (hashed_ops sha ops2) TE)"
    and keys: "keys_ok sha (fst ` set ops1 \<union> fst ` set ops2)"
    and same: "\<forall>k. map_of (rev ops1) k = map_of (rev ops2) k"
    and run: "jmt_put_all sha ops1 jmt_new = Inr j1" "jmt_put_all sha ops2 jmt_new = Inr j2"
  shows "jmt_root_hash j1 = jmt_root_hash j2"
proof -
  let ?t1 = "trie_run (hashed_ops sha ops1) TE" and ?t2 = "trie_run (hashed_ops sha ops2) TE"
  have r1: "represents sha (run_nodes sha (hashed_ops sha ops1) TE) j1 ?t1"
    using jmt_run_represents [OF len cf(1) subset_refl run(1)] .
  have r2: "represents sha (run_nodes sha (hashed_ops sha ops2) TE) j2 ?t2"
    using jmt_run_represents [OF len cf(2) subset_refl run(2)] .
  have dom: "fst ` set ops1 = fst ` set ops2"
    using same dom_map_of_conv_image_fst [of "rev ops1"] dom_map_of_conv_image_fst [of "rev ops2"]
    by (auto simp: dom_def)
  have "tget ?t1 h 0 = tget ?t2 h 0" for h
  proof (cases "h \<in> hash_key sha ` fst ` set ops1")
    case True
    then obtain k where k: "h = hash_key sha k" "k \<in> fst ` set ops1" by blast
    have "keys_ok sha (insert k (fst ` set ops1))" "keys_ok sha (insert k (fst ` set ops2))"
      using keys k(2) dom by (simp_all add: insert_absorb)
    then show ?thesis using tget_run_key [OF len] same k(1) by simp
  next
    case False
    then have "h \<notin> fst ` set (rev (hashed_ops sha ops1))" "h \<notin> fst ` set (rev (hashed_ops sha ops2))"
      unfolding hashed_ops_def using dom by (force simp: image_iff)+
    then show ?thesis unfolding tget_run [OF len] using map_of_eq_None_iff by metis
  qed
  then have "tset ?t1 = tset ?t2"
    using r1 r2 tget_iff [of ?t1 0] tget_iff [of ?t2 0] by (auto simp: represents_def trie_inv_def)
  then have "?t1 = ?t2"
    using r1 r2 by (intro canon_unique [of _ 0]) (auto simp: represents_def trie_inv_def)
  with r1 r2 show ?thesis by (simp add: represents_def jmt_root_hash_def)
qed

theorem jmt_root_order_independent_witness:
  "\<exists>j1 j2. jmt_put_all mix example_ops jmt_new = Inr j1 \<and>
     jmt_put_all mix (rev (tl example_ops)) jmt_new = Inr j2 \<and> jmt_root_hash j1 = jmt_root_hash j2"
proof -
  have cf: "collision_free mix (run_nodes mix (hashed_ops mix (rev (tl example_ops))) TE)"
    unfolding set_run_node_list [symmetric] by (rule collision_freeI) code_simp
  obtain j1 j2 where run: "jmt_put_all mix example_ops jmt_new = Inr j1"
      "jmt_put_all mix (rev (tl example_ops)) jmt_new = Inr j2"
    using jmt_put_all_represents [OF example_collision_free mix_length represents_new subset_refl]
      jmt_put_all_represents [OF cf mix_length represents_new subset_refl] by blast
  have "keys_ok mix (fst ` set example_ops \<union> fst ` set (rev (tl example_ops)))"
    using example_keys_ok by (simp add: example_ops_def insert_commute)
  moreover have "\<forall>k. map_of (rev example_ops) k = map_of (rev (rev (tl example_ops))) k"
    by (simp add: example_ops_def example_key_def)
  ultimately show ?thesis
    using jmt_root_order_independent [OF mix_length example_collision_free cf _ _ run] run by blast
qed

text \<open>Property C12: proofs are complete. For every key the tree holds, proof generation succeeds and the
  verifier accepts the proof for the stored value hash, if the hash has no collisions among the nodes of the tree.\<close>

theorem jmt_proof_complete:
  assumes len: "\<forall>x. length (sha x) = 32"
    and cf: "collision_free sha (run_nodes sha (hashed_ops sha ops) TE)"
    and run: "jmt_put_all sha ops jmt_new = Inr j"
    and found: "jmt_get sha j key = Inr (Some value_hash)"
  shows "\<exists>p. get_proof sha j key = Inr p \<and> jp_root p = jmt_root_hash j \<and>
    verify_inclusion sha p value_hash = Inr True"
proof -
  let ?t = "trie_run (hashed_ops sha ops) TE"
  note rep = jmt_run_represents [OF len cf subset_refl run]
  then have wf: "twf ?t 0" "jt_root j = trie_hash sha ?t"
    by (simp_all add: represents_def trie_inv_def)
  have k: "length (hash_key sha key) = 32" using len by (simp add: hash_key_def)
  have t: "tget ?t (hash_key sha key) 0 = Some value_hash"
    using found jmt_get_represents [OF cf len rep] by simp
  have "collect_proof_siblings (jt_nodes j) (jt_root j) (hash_key sha key) 0 =
      Inr (tproof sha ?t (hash_key sha key) 0)"
    using rep k collect_refines [OF cf] by (simp add: represents_def trie_inv_def)
  with climb_complete [OF wf(1) k t, of sha] wf(2) show ?thesis
    by (simp add: get_proof_def verify_inclusion_def jmt_root_hash_def Let_def)
qed

theorem jmt_proof_complete_witness:
  "\<exists>j p. jmt_put_all mix example_ops jmt_new = Inr j \<and> get_proof mix j (example_key 200) = Inr p \<and>
     verify_inclusion mix p (mix (u256_to_be_bytes (u256_from_u64 20))) = Inr True"
proof -
  have k: "keys_ok mix (insert (example_key 200) (fst ` set example_ops))"
    using example_keys_ok by (simp add: example_ops_def insert_commute)
  have "map_of (rev example_ops) (example_key 200) = Some (u256_from_u64 20)"
    by (simp add: example_ops_def example_key_def)
  then obtain j where "jmt_put_all mix example_ops jmt_new = Inr j"
      "jmt_get mix j (example_key 200) = Inr (Some (mix (u256_to_be_bytes (u256_from_u64 20))))"
    using run_lookup [OF mix_length example_collision_free k] by auto
  with jmt_proof_complete [OF mix_length example_collision_free] show ?thesis by blast
qed

text \<open>Property C6: proofs are sound. A proof for the tree's root that the verifier accepts, wherever it comes
  from and whatever depths and siblings it lists, proves a pair the tree really holds, unless the hash collides on
  a node of the tree or of the proof.\<close>

theorem jmt_proof_sound:
  assumes len: "\<forall>x. length (sha x) = 32"
    and cf: "collision_free sha (run_nodes sha (hashed_ops sha ops) TE \<union>
      set (climb_nodes sha (jp_key_hash p) (Leaf (jp_key_hash p) value_hash) (rev (jp_siblings p))))"
    and run: "jmt_put_all sha ops jmt_new = Inr j"
    and root: "jp_root p = jmt_root_hash j" and key: "jp_key_hash p = hash_key sha key"
    and accepted: "verify_inclusion sha p value_hash = Inr True"
  shows "jmt_get sha j key = Inr (Some value_hash)"
proof -
  let ?t = "trie_run (hashed_ops sha ops) TE"
  note cf' = collision_free_mono [OF cf Un_upper1]
  note rep = jmt_run_represents [OF len cf' subset_refl run]
  then have wf: "twf ?t 0" "jt_root j = trie_hash sha ?t"
    by (simp_all add: represents_def trie_inv_def)
  have "climb sha (jp_key_hash p) (jmt_node_hash sha (Leaf (jp_key_hash p) value_hash)) (rev (jp_siblings p)) =
      Inr (trie_hash sha ?t)"
    using accepted root wf(2) by (auto simp: verify_inclusion_def jmt_root_hash_def map_sum_eq_Inr)
  then have "Leaf (jp_key_hash p) value_hash \<in> nodes_of sha ?t"
    by (rule climb_sound) (rule collision_free_mono [OF cf Un_mono [OF run_nodes_end subset_refl]])
  then have "(hash_key sha key, value_hash) \<in> tset ?t" unfolding key by (rule leaf_in_tset)
  then show ?thesis using jmt_get_represents [OF cf' len rep] tget_iff [OF wf(1)] by simp
qed

theorem jmt_proof_sound_witness:
  "\<exists>j p. jmt_put_all mix example_ops jmt_new = Inr j \<and> jp_root p = jmt_root_hash j \<and>
     verify_inclusion mix p (mix (u256_to_be_bytes (u256_from_u64 20))) = Inr True \<and>
     jmt_get mix j (example_key 200) = Inr (Some (mix (u256_to_be_bytes (u256_from_u64 20))))"
proof -
  let ?k = "hash_key mix (example_key 200)" and ?v = "mix (u256_to_be_bytes (u256_from_u64 20))"
  let ?s = "jmt_node_hash mix (Leaf (hash_key mix (example_key 1)) (mix (u256_to_be_bytes (u256_from_u64 11))))"
  obtain j where j: "jmt_put_all mix example_ops jmt_new = Inr j"
      "represents mix (run_nodes mix (hashed_ops mix example_ops) TE) j (trie_run (hashed_ops mix example_ops) TE)"
    using jmt_put_all_represents [OF example_collision_free mix_length represents_new subset_refl] by blast
  define p where "p = \<lparr>jp_key_hash = ?k, jp_siblings = [(0, ?s)], jp_root = jmt_root_hash j\<rparr>"
  have "climb mix ?k (jmt_node_hash mix (Leaf ?k ?v)) [(0, ?s)] =
      Inr (trie_hash mix (trie_run (hashed_ops mix example_ops) TE))" by code_simp
  then have acc: "verify_inclusion mix p ?v = Inr True"
    using j(2) by (simp add: p_def verify_inclusion_def represents_def jmt_root_hash_def)
  have "collision_free mix (set (run_node_list mix (hashed_ops mix example_ops) TE @ climb_nodes mix ?k (Leaf ?k ?v) [(0, ?s)]))"
    by (rule collision_freeI) code_simp
  then have "collision_free mix (run_nodes mix (hashed_ops mix example_ops) TE \<union>
      set (climb_nodes mix (jp_key_hash p) (Leaf (jp_key_hash p) ?v) (rev (jp_siblings p))))"
    by (simp add: p_def set_run_node_list)
  moreover have "jp_root p = jmt_root_hash j" "jp_key_hash p = ?k" by (simp_all add: p_def)
  ultimately have "jmt_get mix j (example_key 200) = Inr (Some ?v)"
    using jmt_proof_sound [OF mix_length _ j(1) _ _ acc] by blast
  with j(1) acc \<open>jp_root p = jmt_root_hash j\<close> show ?thesis by blast
qed


text \<open>A verifier can be made to panic. A proof that lists a sibling at depth 256, which proof
  generation never produces, makes the bit lookup index past the end of the key hash.\<close>

theorem verify_inclusion_panics_on_deep_sibling:
  assumes "length (jp_key_hash p) = 32" and "jp_siblings p = ss @ [(256, sibling)]"
  shows "verify_inclusion sha p value_hash = Inl IndexOutOfBounds"
  using assms by (simp add: verify_inclusion_def get_bit_def)

theorem verify_inclusion_panics_on_deep_sibling_witness:
  "verify_inclusion mix \<lparr>jp_key_hash = EMPTY_HASH, jp_siblings = [(256, EMPTY_HASH)], jp_root = EMPTY_HASH\<rparr> [] =
     Inl IndexOutOfBounds"
  by (rule verify_inclusion_panics_on_deep_sibling) (simp_all add: EMPTY_HASH_def)

end
