(* ===== verification/Mvcc_State.thy ===== *)
theory Mvcc_State
  imports Version_Chain Jmt_Refinement
begin

text \<open>
  The multi-version state store, \<^verbatim>\<open>src/execution/mvcc.rs\<close>: version chains per key over a base state, with
  the Jellyfish Merkle tree that \<open>finalize\<close> updates. The shared maps behind \<open>Arc\<close> are the fields of one
  record; every operation returns the updated record. Iterating over \<open>data\<close> is iterating over its
  association list.
\<close>

record mvs =
  mv_data :: "(state_key, version_chain) hmap"
  mv_base :: "(state_key, u256) hmap"
  mv_jmt :: jmt

definition mvs_new :: mvs where
  "mvs_new = \<lparr>mv_data = [], mv_base = [], mv_jmt = jmt_new\<rparr>"

definition mvs_with_base_state :: "(state_key \<times> u256) list \<Rightarrow> mvs" where
  "mvs_with_base_state base =
     \<lparr>mv_data = [], mv_base = fold (\<lambda>(key, val). hm_insert key val) base [], mv_jmt = jmt_new\<rparr>"

definition mvs_read :: "mvs \<Rightarrow> state_key \<Rightarrow> u64 \<Rightarrow> u256 option \<times> u64" where
  "mvs_read s key reader_seq =
     (case hm_get (mv_data s) key of
        Some chain \<Rightarrow>
          (case read_for chain reader_seq of
             Some (val, version) \<Rightarrow> (val, version)
           | None \<Rightarrow> (hm_get (mv_base s) key, 0))
      | None \<Rightarrow> (hm_get (mv_base s) key, 0))"

definition read_tracked :: "mvs \<Rightarrow> state_key \<Rightarrow> u64 \<Rightarrow> read_set \<Rightarrow> u256 option \<times> read_set" where
  "read_tracked s key reader_seq reads =
     (let (val, version) = mvs_read s key reader_seq in (val, rs_record key val version reads))"

definition mvs_write :: "state_key \<Rightarrow> u64 \<Rightarrow> u256 option \<Rightarrow> mvs \<Rightarrow> mvs" where
  "mvs_write key writer_seq val s =
     (let version = \<lparr>sv_tx_sequence = writer_seq, sv_value = val, sv_status = Pending\<rparr>;
          chain = (case hm_get (mv_data s) key of Some c \<Rightarrow> c | None \<Rightarrow> chain_new)
      in s\<lparr>mv_data := hm_insert key (add_version version chain) (mv_data s)\<rparr>)"

definition write_tracked ::
    "state_key \<Rightarrow> u64 \<Rightarrow> u256 option \<Rightarrow> mvs \<times> write_set \<Rightarrow> mvs \<times> write_set" where
  "write_tracked key writer_seq val sw =
     (case sw of (s, writes) \<Rightarrow> (mvs_write key writer_seq val s, ws_record key val writes))"

definition mvs_mark_committed :: "state_key \<Rightarrow> u64 \<Rightarrow> mvs \<Rightarrow> mvs" where
  "mvs_mark_committed key tx_seq s =
     (case hm_get (mv_data s) key of
        Some chain \<Rightarrow> s\<lparr>mv_data := hm_insert key (chain_mark_committed tx_seq chain) (mv_data s)\<rparr>
      | None \<Rightarrow> s)"

definition mvs_mark_aborted :: "state_key \<Rightarrow> u64 \<Rightarrow> mvs \<Rightarrow> mvs" where
  "mvs_mark_aborted key tx_seq s =
     (case hm_get (mv_data s) key of
        Some chain \<Rightarrow> s\<lparr>mv_data := hm_insert key (chain_mark_aborted tx_seq chain) (mv_data s)\<rparr>
      | None \<Rightarrow> s)"

definition commit_write_set :: "u64 \<Rightarrow> write_set \<Rightarrow> mvs \<Rightarrow> mvs" where
  "commit_write_set tx_seq writes s = fold (\<lambda>key. mvs_mark_committed key tx_seq) (ws_keys writes) s"

definition abort_write_set :: "u64 \<Rightarrow> write_set \<Rightarrow> mvs \<Rightarrow> mvs" where
  "abort_write_set tx_seq writes s = fold (\<lambda>key. mvs_mark_aborted key tx_seq) (ws_keys writes) s"

fun finalize_loop ::
    "hash_fn \<Rightarrow> (state_key, version_chain) hmap \<Rightarrow> (state_key, u256) hmap \<Rightarrow> jmt \<Rightarrow>
     panic + (state_key, u256) hmap \<times> jmt" where
  "finalize_loop sha [] base j = Inr (base, j)"
| "finalize_loop sha ((key, chain) # rest) base j =
     (case read_for chain u64_MAX of
        Some (Some v, _) \<Rightarrow>
          (case jmt_put sha key v j of
             Inl p \<Rightarrow> Inl p
           | Inr (_, j') \<Rightarrow> finalize_loop sha rest (hm_insert key v base) j')
      | Some (None, _) \<Rightarrow> finalize_loop sha rest (hm_remove key base) j
      | None \<Rightarrow> finalize_loop sha rest base j)"

definition finalize :: "hash_fn \<Rightarrow> mvs \<Rightarrow> panic + mvs" where
  "finalize sha s =
     (case finalize_loop sha (mv_data s) (mv_base s) (mv_jmt s) of
        Inl p \<Rightarrow> Inl p
      | Inr (base, j) \<Rightarrow> Inr \<lparr>mv_data = [], mv_base = base, mv_jmt = j\<rparr>)"

definition get_base :: "mvs \<Rightarrow> state_key \<Rightarrow> u256 option" where
  "get_base s key = hm_get (mv_base s) key"

definition mvcc_key_count :: "mvs \<Rightarrow> nat" where
  "mvcc_key_count s = length (mv_data s)"

definition base_key_count :: "mvs \<Rightarrow> nat" where
  "base_key_count s = length (mv_base s)"

section \<open>Invariant\<close>

definition chain_of :: "mvs \<Rightarrow> state_key \<Rightarrow> version_chain" where
  "chain_of s key = (case hm_get (mv_data s) key of Some c \<Rightarrow> c | None \<Rightarrow> [])"

definition mvs_inv :: "mvs \<Rightarrow> bool" where
  "mvs_inv s \<longleftrightarrow> hm_wf (mv_data s) \<and> hm_wf (mv_base s) \<and> (\<forall>key. chain_inv (chain_of s key))"

lemma mvs_read_chain:
  "mvs_read s key n = (case read_for (chain_of s key) n of Some r \<Rightarrow> r | None \<Rightarrow> (hm_get (mv_base s) key, 0))"
  by (auto simp: mvs_read_def chain_of_def split: option.splits)

lemma mvs_write_base [simp]: "mv_base (mvs_write key n val s) = mv_base s"
  by (simp add: mvs_write_def Let_def)

lemma chain_of_write:
  "chain_of (mvs_write key n val s) k =
     (if k = key then add_version (pending n val) (chain_of s key) else chain_of s k)"
  by (auto simp: chain_of_def mvs_write_def Let_def hm_lookup pending_def chain_new_def split: option.splits)

lemma chain_of_mark_committed:
  "chain_of (mvs_mark_committed key n s) k =
     (if k = key then chain_mark_committed n (chain_of s key) else chain_of s k)"
  by (auto simp: chain_of_def mvs_mark_committed_def hm_lookup chain_mark_committed_def split: option.splits)

lemma chain_of_mark_aborted:
  "chain_of (mvs_mark_aborted key n s) k =
     (if k = key then chain_mark_aborted n (chain_of s key) else chain_of s k)"
  by (auto simp: chain_of_def mvs_mark_aborted_def hm_lookup chain_mark_aborted_def split: option.splits)

lemma mvs_inv_new [simp]: "mvs_inv mvs_new"
  by (simp add: mvs_inv_def mvs_new_def chain_of_def chain_inv_def)

lemma mvs_inv_with_base: "mvs_inv (mvs_with_base_state base)"
proof -
  have "hm_wf m \<Longrightarrow> hm_wf (fold (\<lambda>(key, val). hm_insert key val) base m)" for m
    by (induction base arbitrary: m) (auto simp: distinct_update)
  then show ?thesis by (simp add: mvs_inv_def mvs_with_base_state_def chain_of_def chain_inv_def)
qed

lemma mvs_inv_write: "mvs_inv s \<Longrightarrow> mvs_inv (mvs_write key n val s)"
proof -
  assume s: "mvs_inv s"
  then have "hm_wf (mv_data (mvs_write key n val s))" by (simp add: mvs_inv_def mvs_write_def Let_def distinct_update)
  with s show ?thesis by (simp add: mvs_inv_def chain_of_write chain_inv_add)
qed

lemma mvs_inv_mark:
  assumes "mvs_inv s"
  shows "mvs_inv (mvs_mark_committed key n s)" "mvs_inv (mvs_mark_aborted key n s)"
proof -
  have "hm_wf (mv_data (mvs_mark_committed key n s))" "hm_wf (mv_data (mvs_mark_aborted key n s))"
    and "mv_base (mvs_mark_committed key n s) = mv_base s" "mv_base (mvs_mark_aborted key n s) = mv_base s"
    using assms by (auto simp: mvs_inv_def mvs_mark_committed_def mvs_mark_aborted_def distinct_update
        split: option.splits)
  with assms show "mvs_inv (mvs_mark_committed key n s)" "mvs_inv (mvs_mark_aborted key n s)"
    by (simp_all add: mvs_inv_def chain_of_mark_committed chain_of_mark_aborted chain_inv_set_status
        chain_mark_committed_def chain_mark_aborted_def)
qed

section \<open>The writes of one transaction\<close>

definition apply_writes :: "u64 \<Rightarrow> (state_key \<times> u256 option) list \<Rightarrow> mvs \<Rightarrow> mvs" where
  "apply_writes n ws s = fold (\<lambda>(key, val). mvs_write key n val) ws s"

definition values_for :: "state_key \<Rightarrow> (state_key \<times> u256 option) list \<Rightarrow> u256 option list" where
  "values_for key ws = map snd (filter (\<lambda>w. fst w = key) ws)"

lemma apply_writes_simps [simp]:
  "apply_writes n [] s = s"
  "apply_writes n ((key, val) # ws) s = apply_writes n ws (mvs_write key n val s)"
  by (simp_all add: apply_writes_def)

lemma apply_writes_append: "apply_writes n (ws @ ws') s = apply_writes n ws' (apply_writes n ws s)"
  by (simp add: apply_writes_def)

lemma mv_base_apply_writes [simp]: "mv_base (apply_writes n ws s) = mv_base s"
  by (induction ws arbitrary: s) auto

lemma mv_jmt_write [simp]: "mv_jmt (mvs_write key n val s) = mv_jmt s"
  by (simp add: mvs_write_def Let_def)

lemma mv_jmt_apply_writes [simp]: "mv_jmt (apply_writes n ws s) = mv_jmt s"
  by (induction ws arbitrary: s) auto

lemma mvs_inv_apply_writes: "mvs_inv s \<Longrightarrow> mvs_inv (apply_writes n ws s)"
  by (induction ws arbitrary: s) (auto simp: mvs_inv_write)

lemma chain_of_apply_writes:
  "chain_of (apply_writes n ws s) key = write_values n (values_for key ws) (chain_of s key)"
  by (induction ws arbitrary: s) (auto simp: values_for_def write_values_def chain_of_write)

text \<open>A transaction does not see its own writes, nor those of later ones.\<close>

lemma mvs_read_apply_writes_unseen:
  "mvs_inv s \<Longrightarrow> m \<le> n \<Longrightarrow> mvs_read (apply_writes n ws s) key m = mvs_read s key m"
  by (simp add: mvs_read_chain chain_of_apply_writes read_for_write_values_unseen mvs_inv_def
      cong: option.case_cong)

text \<open>What a later reader sees of a transaction that wrote a slot up to three times.\<close>

definition seen_of :: "u256 option list \<Rightarrow> u256 option" where
  "seen_of vals = (case vals of [a] \<Rightarrow> a | [a, b] \<Rightarrow> b | [a, b, c] \<Rightarrow> b | _ \<Rightarrow> None)"

definition newest :: "mvs \<Rightarrow> u64 \<Rightarrow> bool" where
  "newest s n \<longleftrightarrow> (\<forall>key. \<forall>x \<in> set (chain_of s key). sv_tx_sequence x < n)"

lemma mvs_read_apply_writes:
  assumes inv: "mvs_inv s" and new: "newest s n" and len: "length (values_for key ws) \<in> {1, 2, 3}" and m: "n < m"
  shows "mvs_read (apply_writes n ws s) key m = (seen_of (values_for key ws), n)"
proof -
  have c: "chain_inv (chain_of s key)" "\<forall>x \<in> set (chain_of s key). sv_tx_sequence x < n"
    using inv new by (auto simp: mvs_inv_def newest_def)
  consider a where "values_for key ws = [a]" | a b where "values_for key ws = [a, b]"
    | a b c where "values_for key ws = [a, b, c]"
    using len by (auto simp: length_Suc_conv eval_nat_numeral)
  then show ?thesis
    by cases (use m in \<open>simp_all add: mvs_read_chain chain_of_apply_writes seen_of_def write_values_one [OF c]
        write_values_two [OF c] write_values_three [OF c]\<close>)
qed

lemma mvs_read_unwritten:
  "values_for key ws = [] \<Longrightarrow> mvs_read (apply_writes n ws s) key m = mvs_read s key m"
  by (simp add: mvs_read_chain chain_of_apply_writes write_values_def cong: option.case_cong)

lemma mvs_read_newest:
  assumes "newest s n" and "n \<le> m"
  shows "mvs_read s key m = mvs_read s key n"
proof -
  have "\<forall>x \<in> set (chain_of s key). sv_tx_sequence x < n" using assms(1) by (simp add: newest_def)
  then have "read_for (chain_of s key) m = read_for (chain_of s key) n"
    using assms(2) unfolding read_for_find by (metis (no_types, lifting) find_cong less_le_trans live_def)
  then show ?thesis by (simp add: mvs_read_chain)
qed


section \<open>Finalization\<close>

text \<open>The puts into the Merkle tree that finalizing makes, in iteration order.\<close>

definition final_puts :: "(state_key, version_chain) hmap \<Rightarrow> (state_key \<times> u256) list" where
  "final_puts data = List.map_filter
     (\<lambda>(key, chain). case read_for chain u64_MAX of Some (Some v, _) \<Rightarrow> Some (key, v) | _ \<Rightarrow> None) data"

lemma final_puts_simps [simp]:
  "final_puts [] = []"
  "final_puts ((key, chain) # rest) =
     (case read_for chain u64_MAX of Some (Some v, _) \<Rightarrow> (key, v) # final_puts rest | _ \<Rightarrow> final_puts rest)"
  by (auto simp: final_puts_def List.map_filter_simps split: option.splits)

lemma finalize_loop_jmt:
  "finalize_loop sha data base j = Inr (base', j') \<Longrightarrow> jmt_put_all sha (final_puts data) j = Inr j'"
  by (induction sha data base j rule: finalize_loop.induct)
    (auto split: option.splits sum.splits prod.splits)

lemma finalize_loop_total:
  assumes "\<forall>x. length (sha x) = 32"
  shows "jmt_ok j \<Longrightarrow> \<exists>base' j'. finalize_loop sha data base j = Inr (base', j') \<and> jmt_ok j'"
proof (induction data arbitrary: base j)
  case (Cons p data)
  obtain key chain where p: "p = (key, chain)" by (cases p)
  have "\<exists>base' j'. (case jmt_put sha key v j of
      Inl p \<Rightarrow> Inl p | Inr (_, j1) \<Rightarrow> finalize_loop sha data (hm_insert key v base) j1) = Inr (base', j') \<and> jmt_ok j'" for v
    using jmt_put_total [OF assms Cons.prems, of key v] Cons.IH by fastforce
  with Cons.IH [OF Cons.prems] show ?case by (auto simp: p split: option.splits)
qed simp

lemma finalize_loop_base:
  assumes "hm_wf data" and "hm_wf base" and "finalize_loop sha data base j = Inr (base', j')"
  shows "hm_wf base' \<and>
    hm_get base' key =
      (case hm_get data key of
         None \<Rightarrow> hm_get base key
       | Some chain \<Rightarrow> (case read_for chain u64_MAX of None \<Rightarrow> hm_get base key | Some (val, _) \<Rightarrow> val))"
  using assms
proof (induction data arbitrary: base j)
  case (Cons p data)
  obtain k chain where p: "p = (k, chain)" by (cases p)
  have k: "hm_get data k = None" and wf: "hm_wf data"
    using Cons.prems(1) by (auto simp: p map_of_eq_None_iff)
  show ?case
  proof (cases "read_for chain u64_MAX")
    case None
    with Cons.IH [OF wf Cons.prems(2)] Cons.prems(3) k show ?thesis by (auto simp: p)
  next
    case (Some r)
    obtain val n where r: "r = (val, n)" by (cases r)
    show ?thesis
    proof (cases val)
      case None
      have "hm_wf (hm_remove k base)" using Cons.prems(2) by (rule distinct_delete)
      with Cons.IH [OF wf this] Cons.prems(3) k Some r None show ?thesis
        by (auto simp: p hm_lookup split: option.splits)
    next
      case (Some v)
      obtain j1 where loop: "finalize_loop sha data (hm_insert k v base) j1 = Inr (base', j')"
        using Cons.prems(3) \<open>read_for chain u64_MAX = Some r\<close> r Some
        by (auto simp: p split: sum.splits)
      have "hm_wf (hm_insert k v base)" using Cons.prems(2) by (rule distinct_update)
      from Cons.IH [OF wf this loop] k \<open>read_for chain u64_MAX = Some r\<close> r Some show ?thesis
        by (simp add: p hm_lookup split: option.splits)
    qed
  qed
qed simp

lemma finalize_outcome:
  assumes inv: "mvs_inv s" and sha: "\<forall>x. length (sha x) = 32" and j: "jmt_ok (mv_jmt s)"
  shows "\<exists>s'. finalize sha s = Inr s' \<and> mvs_inv s' \<and> mv_data s' = [] \<and>
    (\<forall>key. get_base s' key = fst (mvs_read s key u64_MAX)) \<and>
    jmt_put_all sha (final_puts (mv_data s)) (mv_jmt s) = Inr (mv_jmt s') \<and> jmt_ok (mv_jmt s')"
proof -
  obtain base' j' where loop: "finalize_loop sha (mv_data s) (mv_base s) (mv_jmt s) = Inr (base', j')"
    and ok: "jmt_ok j'"
    using finalize_loop_total [OF sha j] by blast
  have wf: "hm_wf (mv_data s)" "hm_wf (mv_base s)" using inv by (simp_all add: mvs_inv_def)
  note base = finalize_loop_base [OF wf loop]
  have "get_base \<lparr>mv_data = [], mv_base = base', mv_jmt = j'\<rparr> key = fst (mvs_read s key u64_MAX)" for key
    using base [of key] by (auto simp: get_base_def mvs_read_def split: option.splits)
  then show ?thesis
    using loop base finalize_loop_jmt [OF loop] ok
    by (simp add: finalize_def mvs_inv_def chain_of_def chain_inv_def)
qed

section \<open>Properties\<close>

text \<open>Property C23: finalizing a block succeeds and leaves exactly what a reader at the end of the block sees.
  The new base value of every key is the newest version that is not aborted (pending ones included), or
  the old base value where there is none; the versions are gone; and the Merkle tree receives precisely
  the keys whose final version is a value, so a key whose final version is a deletion stays in the
  tree.\<close>

theorem finalize_is_last_read:
  assumes "mvs_inv s" and "\<forall>x. length (sha x) = 32" and "jmt_ok (mv_jmt s)"
  shows "\<exists>s'. finalize sha s = Inr s' \<and> mvs_inv s' \<and> mv_data s' = [] \<and>
    (\<forall>key. get_base s' key = fst (mvs_read s key u64_MAX)) \<and>
    jmt_put_all sha (final_puts (mv_data s)) (mv_jmt s) = Inr (mv_jmt s') \<and> jmt_ok (mv_jmt s')"
  using assms by (rule finalize_outcome)

theorem finalize_is_last_read_witness:
  "\<exists>s'. finalize mix (mvs_write (example_key 1) 7 (Some U256_ONE) mvs_new) = Inr s' \<and>
     get_base s' (example_key 1) = Some U256_ONE"
proof -
  let ?s = "mvs_write (example_key 1) 7 (Some U256_ONE) mvs_new"
  have "mvs_inv ?s" by (simp add: mvs_inv_write)
  moreover have "jmt_ok (mv_jmt ?s)" by (simp add: mvs_write_def mvs_new_def Let_def)
  moreover have "fst (mvs_read ?s (example_key 1) u64_MAX) = Some U256_ONE" by code_simp
  ultimately show ?thesis using finalize_is_last_read [OF _ mix_length, of ?s] by auto
qed

end
