(* ===== verification/Ryther_Vm.thy ===== *)
theory Ryther_Vm
  imports Mvcc_State Transactions
begin

text \<open>
  The transaction processor, \<^verbatim>\<open>src/evm/vm.rs\<close>. Keccak-256 is the parameter \<open>keccak\<close>. Arithmetic on \<open>u64\<close> wraps, as in the
  release profile. A function that mutates the state and the read and write sets takes and returns them.
\<close>

definition SLOT_BALANCE :: u64 where "SLOT_BALANCE = 0"
definition SLOT_NONCE :: u64 where "SLOT_NONCE = 1"
definition SLOT_CODE_HASH :: u64 where "SLOT_CODE_HASH = 2"

datatype vm_error =
    InsufficientBalance
  | InvalidNonce u64 u64
  | OutOfGas
  | InvalidOpcode u8
  | StackUnderflow
  | StackOverflow
  | InvalidJump
  | VmRevert string
  | Internal_error string

text \<open>The message of an error is the text of its \<open>error\<close> attribute with the fields printed in it.\<close>

fun vm_error_text :: "vm_error \<Rightarrow> string" where
  "vm_error_text InsufficientBalance = ''Insufficient balance''"
| "vm_error_text (InvalidNonce expected got) =
     ''Invalid nonce: expected '' @ decimal (unat expected) @ '', got '' @ decimal (unat got)"
| "vm_error_text OutOfGas = ''Out of gas''"
| "vm_error_text (InvalidOpcode op) = ''Invalid opcode: '' @ decimal (unat op)"
| "vm_error_text StackUnderflow = ''Stack underflow''"
| "vm_error_text StackOverflow = ''Stack overflow''"
| "vm_error_text InvalidJump = ''Invalid jump destination''"
| "vm_error_text (VmRevert reason) = ''Revert: '' @ reason"
| "vm_error_text (Internal_error reason) = ''Internal error: '' @ reason"

record vm_result =
  vr_success :: bool
  vr_gas_used :: u64
  vr_output :: bytes
  vr_logs :: "evm_log list"
  vr_error :: "string option"

record block_context =
  bc_number :: u64
  bc_timestamp :: u64
  bc_coinbase :: address
  bc_gas_limit :: u64
  bc_base_fee :: u256
  bc_chain_id :: u64

definition block_context_default :: block_context where
  "block_context_default = \<lparr>bc_number = 0, bc_timestamp = 0, bc_coinbase = address_zero,
     bc_gas_limit = 30000000, bc_base_fee = u256_from_u64 1000000000, bc_chain_id = 1\<rparr>"

record ryther_vm =
  vm_chain_id :: u64
  vm_code_storage :: "(address, bytes) hmap"

definition vm_new :: "u64 \<Rightarrow> ryther_vm" where
  "vm_new chain_id = \<lparr>vm_chain_id = chain_id, vm_code_storage = []\<rparr>"

definition deploy_code :: "address \<Rightarrow> bytes \<Rightarrow> ryther_vm \<Rightarrow> ryther_vm" where
  "deploy_code addr code vm = vm\<lparr>vm_code_storage := hm_insert addr code (vm_code_storage vm)\<rparr>"

definition get_code :: "ryther_vm \<Rightarrow> address \<Rightarrow> bytes option" where
  "get_code vm addr = hm_get (vm_code_storage vm) addr"

section \<open>256-bit helpers\<close>

definition u256_to_u64 :: "u256 \<Rightarrow> u64" where
  "u256_to_u64 v = limb0 v"

definition add_u256 :: "u256 \<Rightarrow> u256 \<Rightarrow> u256" where
  "add_u256 a b = u256_wrapping_add a b"

definition sub_u256 :: "u256 \<Rightarrow> u256 \<Rightarrow> u256" where
  "sub_u256 a b =
     (let (diff, borrow) = overflowing_sub (limb0 a) (limb0 b)
      in U256 diff (if borrow \<and> 0 < limb1 a then limb1 a - 1 else limb1 a) (limb2 a) (limb3 a))"

definition compare_u256 :: "u256 \<Rightarrow> u256 \<Rightarrow> int" where
  "compare_u256 a b =
     (if limb3 b < limb3 a then 1 else if limb3 a < limb3 b then -1
      else if limb2 b < limb2 a then 1 else if limb2 a < limb2 b then -1
      else if limb1 b < limb1 a then 1 else if limb1 a < limb1 b then -1
      else if limb0 b < limb0 a then 1 else if limb0 a < limb0 b then -1
      else 0)"

definition calculate_gas_cost :: "decrypted_transaction \<Rightarrow> u256" where
  "calculate_gas_cost tx = u256_from_u64 (dt_gas_limit tx * u256_to_u64 (dt_gas_price tx))"

section \<open>State access\<close>

definition balance_key :: "address \<Rightarrow> state_key" where
  "balance_key addr = \<lparr>sk_address = addr, sk_slot = u256_from_u64 SLOT_BALANCE\<rparr>"

definition nonce_key :: "address \<Rightarrow> state_key" where
  "nonce_key addr = \<lparr>sk_address = addr, sk_slot = u256_from_u64 SLOT_NONCE\<rparr>"

definition read_balance :: "mvs \<Rightarrow> address \<Rightarrow> u64 \<Rightarrow> read_set \<Rightarrow> u256 \<times> read_set" where
  "read_balance s addr seq reads =
     (let (val, reads') = read_tracked s (balance_key addr) seq reads
      in (case val of Some v \<Rightarrow> v | None \<Rightarrow> U256_ZERO, reads'))"

definition read_nonce :: "mvs \<Rightarrow> address \<Rightarrow> u64 \<Rightarrow> read_set \<Rightarrow> u64 \<times> read_set" where
  "read_nonce s addr seq reads =
     (let (val, reads') = read_tracked s (nonce_key addr) seq reads
      in (case val of Some v \<Rightarrow> limb0 v | None \<Rightarrow> 0, reads'))"

definition write_balance :: "address \<Rightarrow> u64 \<Rightarrow> u256 \<Rightarrow> mvs \<times> write_set \<Rightarrow> mvs \<times> write_set" where
  "write_balance addr seq val sw = write_tracked (balance_key addr) seq (Some val) sw"

definition write_nonce :: "address \<Rightarrow> u64 \<Rightarrow> u64 \<Rightarrow> mvs \<times> write_set \<Rightarrow> mvs \<times> write_set" where
  "write_nonce addr seq nonce sw = write_tracked (nonce_key addr) seq (Some (u256_from_u64 nonce)) sw"

section \<open>Execution\<close>

definition rlp_nonce :: "u64 \<Rightarrow> bytes" where
  "rlp_nonce nonce =
     (if nonce = 0 then [0x80]
      else if nonce < 128 then [ucast nonce]
      else let nonce_bytes = dropWhile (\<lambda>b. b = 0) (u64_to_be_bytes nonce)
           in (0x80 + word_of_nat (length nonce_bytes)) # nonce_bytes)"

definition compute_create_address :: "hash_fn \<Rightarrow> address \<Rightarrow> u64 \<Rightarrow> address" where
  "compute_create_address keccak sender nonce =
     take 20 (drop 12 (keccak ([0xd6, 0x94] @ sender @ rlp_nonce nonce)))"

type_synonym call_outcome = "vm_error + bool \<times> u64 \<times> bytes \<times> evm_log list"

definition execute_call ::
    "ryther_vm \<Rightarrow> decrypted_transaction \<Rightarrow> address \<Rightarrow> mvs \<times> read_set \<times> write_set \<Rightarrow>
     call_outcome \<times> mvs \<times> read_set \<times> write_set" where
  "execute_call vm tx to st =
     (case st of (s, reads, writes) \<Rightarrow>
      let (s, reads, writes) =
            (if dt_value tx \<noteq> U256_ZERO then
               (let (to_balance, reads) = read_balance s to (dt_sequence_number tx) reads;
                    new_to_balance = add_u256 to_balance (dt_value tx);
                    (s, writes) = write_balance to (dt_sequence_number tx) new_to_balance (s, writes)
                in (s, reads, writes))
             else (s, reads, writes))
      in case get_code vm to of
           Some code \<Rightarrow>
             if code \<noteq> []
             then (let gas_used = 21000 + word_of_nat (length (dt_data tx)) * 16
                   in (Inr (True, min gas_used (dt_gas_limit tx), [], []), s, reads, writes))
             else (Inr (True, 21000, [], []), s, reads, writes)
         | None \<Rightarrow> (Inr (True, 21000, [], []), s, reads, writes))"

definition execute_create ::
    "hash_fn \<Rightarrow> decrypted_transaction \<Rightarrow> mvs \<times> read_set \<times> write_set \<Rightarrow>
     call_outcome \<times> mvs \<times> read_set \<times> write_set" where
  "execute_create keccak tx st =
     (case st of (s, reads, writes) \<Rightarrow>
      let contract_address = compute_create_address keccak (dt_from tx) (dt_nonce tx);
          (s, writes) =
            (if dt_value tx \<noteq> U256_ZERO
             then write_balance contract_address (dt_sequence_number tx) (dt_value tx) (s, writes)
             else (s, writes));
          code_hash = keccak (dt_data tx);
          code_hash_key = \<lparr>sk_address = contract_address, sk_slot = u256_from_u64 SLOT_CODE_HASH\<rparr>;
          s = mvs_write code_hash_key (dt_sequence_number tx) (Some (u256_from_be_bytes code_hash)) s;
          gas_used = 32000 + word_of_nat (length (dt_data tx)) * 200
      in (Inr (True, min gas_used (dt_gas_limit tx), contract_address, []), s, reads, writes))"

definition execute_inner ::
    "hash_fn \<Rightarrow> ryther_vm \<Rightarrow> decrypted_transaction \<Rightarrow> block_context \<Rightarrow> mvs \<times> read_set \<times> write_set \<Rightarrow>
     (vm_error + vm_result) \<times> mvs \<times> read_set \<times> write_set" where
  "execute_inner keccak vm tx block st =
     (case st of (s, reads, writes) \<Rightarrow>
      let seq = dt_sequence_number tx;
          (sender_balance, reads) = read_balance s (dt_from tx) seq reads;
          (sender_nonce, reads) = read_nonce s (dt_from tx) seq reads
      in if sender_nonce \<noteq> dt_nonce tx
         then (Inl (InvalidNonce sender_nonce (dt_nonce tx)), s, reads, writes)
         else
           let gas_cost = calculate_gas_cost tx;
               total_cost = add_u256 (dt_value tx) gas_cost
           in if compare_u256 sender_balance total_cost < 0
              then (Inl InsufficientBalance, s, reads, writes)
              else
                let new_sender_balance = sub_u256 sender_balance total_cost;
                    (s, writes) = write_balance (dt_from tx) seq new_sender_balance (s, writes);
                    (s, writes) = write_nonce (dt_from tx) seq (sender_nonce + 1) (s, writes);
                    (outcome, s, reads, writes) =
                      (case dt_to tx of
                         Some to \<Rightarrow> execute_call vm tx to (s, reads, writes)
                       | None \<Rightarrow> execute_create keccak tx (s, reads, writes))
                in case outcome of
                     Inl e \<Rightarrow> (Inl e, s, reads, writes)
                   | Inr (success, gas_used, output, logs) \<Rightarrow>
                       let gas_refund = (dt_gas_limit tx - gas_used) * u256_to_u64 (dt_gas_price tx);
                           final_balance = add_u256 new_sender_balance (u256_from_u64 gas_refund);
                           (s, writes) = write_balance (dt_from tx) seq final_balance (s, writes);
                           (coinbase_balance, reads) = read_balance s (bc_coinbase block) seq reads;
                           coinbase_fee = u256_from_u64 (gas_used * u256_to_u64 (dt_gas_price tx));
                           new_coinbase_balance = add_u256 coinbase_balance coinbase_fee;
                           (s, writes) = write_balance (bc_coinbase block) seq new_coinbase_balance (s, writes)
                       in (Inr \<lparr>vr_success = success, vr_gas_used = gas_used, vr_output = output,
                             vr_logs = logs, vr_error = None\<rparr>, s, reads, writes))"

definition vm_execute ::
    "hash_fn \<Rightarrow> ryther_vm \<Rightarrow> decrypted_transaction \<Rightarrow> mvs \<Rightarrow> block_context \<Rightarrow>
     execution_result \<times> mvs" where
  "vm_execute keccak vm tx s block =
     (let (res, s', reads, writes) = execute_inner keccak vm tx block (s, [], [])
      in case res of
           Inr vm_result \<Rightarrow>
             (\<lparr>er_tx_seq = dt_sequence_number tx,
               er_status = (if vr_success vm_result then Success else Revert),
               er_read_set = reads, er_write_set = writes, er_gas_used = vr_gas_used vm_result,
               er_logs = vr_logs vm_result, er_output = vr_output vm_result\<rparr>, s')
         | Inl e \<Rightarrow>
             (\<lparr>er_tx_seq = dt_sequence_number tx, er_status = Failure,
               er_read_set = reads, er_write_set = writes, er_gas_used = dt_gas_limit tx,
               er_logs = [], er_output = as_bytes (vm_error_text e)\<rparr>, s'))"

section \<open>A transaction as a list of reads and writes\<close>

definition balance_at :: "mvs \<Rightarrow> address \<Rightarrow> u64 \<Rightarrow> u256" where
  "balance_at s addr n = (case fst (mvs_read s (balance_key addr) n) of Some v \<Rightarrow> v | None \<Rightarrow> U256_ZERO)"

definition nonce_at :: "mvs \<Rightarrow> address \<Rightarrow> u64 \<Rightarrow> u64" where
  "nonce_at s addr n = (case fst (mvs_read s (nonce_key addr) n) of Some v \<Rightarrow> limb0 v | None \<Rightarrow> 0)"

definition record_reads :: "mvs \<Rightarrow> u64 \<Rightarrow> state_key list \<Rightarrow> read_set \<Rightarrow> read_set" where
  "record_reads s n keys reads =
     fold (\<lambda>key. rs_record key (fst (mvs_read s key n)) (snd (mvs_read s key n))) keys reads"

definition record_writes :: "(state_key \<times> u256 option) list \<Rightarrow> write_set \<Rightarrow> write_set" where
  "record_writes ws writes = fold (\<lambda>(key, val). ws_record key val) ws writes"

definition vm_check :: "mvs \<Rightarrow> decrypted_transaction \<Rightarrow> vm_error option" where
  "vm_check s tx =
     (let n = dt_sequence_number tx; nonce = nonce_at s (dt_from tx) n
      in if nonce \<noteq> dt_nonce tx then Some (InvalidNonce nonce (dt_nonce tx))
         else if compare_u256 (balance_at s (dt_from tx) n) (add_u256 (dt_value tx) (calculate_gas_cost tx)) < 0
         then Some InsufficientBalance else None)"

definition gas_of :: "ryther_vm \<Rightarrow> decrypted_transaction \<Rightarrow> u64" where
  "gas_of vm tx =
     (case dt_to tx of
        None \<Rightarrow> min (32000 + word_of_nat (length (dt_data tx)) * 200) (dt_gas_limit tx)
      | Some to \<Rightarrow>
          if (case get_code vm to of None \<Rightarrow> False | Some code \<Rightarrow> code \<noteq> [])
          then min (21000 + word_of_nat (length (dt_data tx)) * 16) (dt_gas_limit tx) else 21000)"

definition vm_output :: "hash_fn \<Rightarrow> decrypted_transaction \<Rightarrow> bytes" where
  "vm_output keccak tx =
     (case dt_to tx of None \<Rightarrow> compute_create_address keccak (dt_from tx) (dt_nonce tx) | Some to \<Rightarrow> [])"

definition debited :: "mvs \<Rightarrow> decrypted_transaction \<Rightarrow> u256" where
  "debited s tx = sub_u256 (balance_at s (dt_from tx) (dt_sequence_number tx))
     (add_u256 (dt_value tx) (calculate_gas_cost tx))"

definition pre_writes :: "mvs \<Rightarrow> decrypted_transaction \<Rightarrow> (state_key \<times> u256 option) list" where
  "pre_writes s tx =
     [(balance_key (dt_from tx), Some (debited s tx)), (nonce_key (dt_from tx), Some (u256_from_u64 (dt_nonce tx + 1)))]"

definition value_writes :: "hash_fn \<Rightarrow> mvs \<Rightarrow> decrypted_transaction \<Rightarrow> (state_key \<times> u256 option) list" where
  "value_writes keccak s tx =
     (if dt_value tx = U256_ZERO then []
      else case dt_to tx of
        Some to \<Rightarrow> [(balance_key to, Some (add_u256 (balance_at s to (dt_sequence_number tx)) (dt_value tx)))]
      | None \<Rightarrow> [(balance_key (compute_create_address keccak (dt_from tx) (dt_nonce tx)), Some (dt_value tx))])"

definition code_writes :: "hash_fn \<Rightarrow> decrypted_transaction \<Rightarrow> (state_key \<times> u256 option) list" where
  "code_writes keccak tx =
     (case dt_to tx of
        Some to \<Rightarrow> []
      | None \<Rightarrow> [(\<lparr>sk_address = compute_create_address keccak (dt_from tx) (dt_nonce tx),
                  sk_slot = u256_from_u64 SLOT_CODE_HASH\<rparr>, Some (u256_from_be_bytes (keccak (dt_data tx))))])"

definition fee_writes :: "ryther_vm \<Rightarrow> mvs \<Rightarrow> decrypted_transaction \<Rightarrow> block_context \<Rightarrow> (state_key \<times> u256 option) list" where
  "fee_writes vm s tx block =
     [(balance_key (dt_from tx),
       Some (add_u256 (debited s tx)
         (u256_from_u64 ((dt_gas_limit tx - gas_of vm tx) * u256_to_u64 (dt_gas_price tx))))),
      (balance_key (bc_coinbase block),
       Some (add_u256 (balance_at s (bc_coinbase block) (dt_sequence_number tx))
         (u256_from_u64 (gas_of vm tx * u256_to_u64 (dt_gas_price tx)))))]"

definition vm_writes :: "hash_fn \<Rightarrow> ryther_vm \<Rightarrow> mvs \<Rightarrow> decrypted_transaction \<Rightarrow> block_context \<Rightarrow> (state_key \<times> u256 option) list" where
  "vm_writes keccak vm s tx block =
     pre_writes s tx @ value_writes keccak s tx @ code_writes keccak tx @ fee_writes vm s tx block"

definition tracked_writes :: "hash_fn \<Rightarrow> ryther_vm \<Rightarrow> mvs \<Rightarrow> decrypted_transaction \<Rightarrow> block_context \<Rightarrow> (state_key \<times> u256 option) list" where
  "tracked_writes keccak vm s tx block =
     pre_writes s tx @ value_writes keccak s tx @ fee_writes vm s tx block"

definition check_reads :: "decrypted_transaction \<Rightarrow> state_key list" where
  "check_reads tx = [balance_key (dt_from tx), nonce_key (dt_from tx)]"

definition vm_reads :: "decrypted_transaction \<Rightarrow> block_context \<Rightarrow> state_key list" where
  "vm_reads tx block =
     check_reads tx @
     (case dt_to tx of Some to \<Rightarrow> if dt_value tx = U256_ZERO then [] else [balance_key to] | None \<Rightarrow> []) @
     [balance_key (bc_coinbase block)]"

text \<open>Tracked accesses on a state that already carries writes of the running transaction.\<close>

lemma read_balance_pure:
  assumes "mvs_inv s"
  shows "read_balance (apply_writes n ws s) addr n reads = (balance_at s addr n, record_reads s n [balance_key addr] reads)"
  using mvs_read_apply_writes_unseen [OF assms order_refl, of n ws "balance_key addr"]
  by (simp add: read_balance_def read_tracked_def balance_at_def record_reads_def split_beta Let_def)

lemma read_nonce_pure:
  assumes "mvs_inv s"
  shows "read_nonce (apply_writes n ws s) addr n reads = (nonce_at s addr n, record_reads s n [nonce_key addr] reads)"
  using mvs_read_apply_writes_unseen [OF assms order_refl, of n ws "nonce_key addr"]
  by (simp add: read_nonce_def read_tracked_def nonce_at_def record_reads_def split_beta Let_def)

lemma write_balance_pure:
  "write_balance addr n v (apply_writes n ws s, writes) =
     (apply_writes n (ws @ [(balance_key addr, Some v)]) s, record_writes [(balance_key addr, Some v)] writes)"
  by (simp add: write_balance_def write_tracked_def apply_writes_append record_writes_def)

lemma write_nonce_pure:
  "write_nonce addr n v (apply_writes n ws s, writes) =
     (apply_writes n (ws @ [(nonce_key addr, Some (u256_from_u64 v))]) s,
      record_writes [(nonce_key addr, Some (u256_from_u64 v))] writes)"
  by (simp add: write_nonce_def write_tracked_def apply_writes_append record_writes_def)

lemma mvs_write_pure: "mvs_write key n val (apply_writes n ws s) = apply_writes n (ws @ [(key, val)]) s"
  by (simp add: apply_writes_append)

lemmas pure_access = read_balance_pure read_nonce_pure write_balance_pure write_nonce_pure mvs_write_pure

lemma execute_call_pure:
  assumes "mvs_inv s" and "dt_to tx = Some to"
  shows "execute_call vm tx to (apply_writes (dt_sequence_number tx) ws s, reads, writes) =
    (Inr (True, gas_of vm tx, vm_output keccak tx, []),
     apply_writes (dt_sequence_number tx) (ws @ value_writes keccak s tx @ code_writes keccak tx) s,
     record_reads s (dt_sequence_number tx) (if dt_value tx = U256_ZERO then [] else [balance_key to]) reads,
     record_writes (value_writes keccak s tx) writes)"
  by (simp add: execute_call_def pure_access assms gas_of_def vm_output_def value_writes_def code_writes_def
      record_reads_def record_writes_def Let_def split: option.splits)

lemma execute_create_pure:
  assumes "mvs_inv s" and "dt_to tx = None"
  shows "execute_create keccak tx (apply_writes (dt_sequence_number tx) ws s, reads, writes) =
    (Inr (True, gas_of vm tx, vm_output keccak tx, []),
     apply_writes (dt_sequence_number tx) (ws @ value_writes keccak s tx @ code_writes keccak tx) s,
     reads, record_writes (value_writes keccak s tx) writes)"
  by (simp add: execute_create_def pure_access assms gas_of_def vm_output_def value_writes_def code_writes_def
      record_reads_def record_writes_def Let_def)

lemma execute_inner_failed:
  assumes inv: "mvs_inv s" and e: "vm_check s tx = Some e"
  shows "execute_inner keccak vm tx block (s, reads, writes) =
    (Inl e, s, record_reads s (dt_sequence_number tx) (check_reads tx) reads, writes)"
  using e read_balance_pure [OF inv, of "dt_sequence_number tx" "[]"] read_nonce_pure [OF inv, of "dt_sequence_number tx" "[]"]
  by (auto simp: execute_inner_def vm_check_def check_reads_def record_reads_def Let_def split: if_splits)

lemma execute_inner_ok:
  assumes inv: "mvs_inv s" and ok: "vm_check s tx = None"
  shows "execute_inner keccak vm tx block (s, reads, writes) =
    (Inr \<lparr>vr_success = True, vr_gas_used = gas_of vm tx, vr_output = vm_output keccak tx, vr_logs = [], vr_error = None\<rparr>,
     apply_writes (dt_sequence_number tx) (vm_writes keccak vm s tx block) s,
     record_reads s (dt_sequence_number tx) (vm_reads tx block) reads,
     record_writes (tracked_writes keccak vm s tx block) writes)"
proof -
  let ?n = "dt_sequence_number tx"
  have nonce: "nonce_at s (dt_from tx) ?n = dt_nonce tx"
    and bal: "\<not> compare_u256 (balance_at s (dt_from tx) ?n) (add_u256 (dt_value tx) (calculate_gas_cost tx)) < 0"
    using ok by (auto simp: vm_check_def Let_def split: if_splits)
  have s: "s = apply_writes ?n [] s" by simp
  show ?thesis
  proof (cases "dt_to tx")
    case None
    show ?thesis
      by (subst s) (simp add: execute_inner_def pure_access inv nonce bal Let_def None
          execute_create_pure [OF inv None, of _ _ _ _ vm] vm_writes_def tracked_writes_def pre_writes_def fee_writes_def
          vm_reads_def check_reads_def record_reads_def record_writes_def debited_def del: apply_writes_simps)
  next
    case (Some to)
    show ?thesis
      by (subst s) (simp add: execute_inner_def pure_access inv nonce bal Let_def Some
          execute_call_pure [OF inv Some, of _ _ _ _ keccak] vm_writes_def tracked_writes_def pre_writes_def fee_writes_def
          vm_reads_def check_reads_def record_reads_def record_writes_def debited_def del: apply_writes_simps)
  qed
qed

section \<open>The 256-bit helpers as arithmetic\<close>

lemma limb_less:
  assumes "a < (2 ^ 64 :: nat)" and "a' < 2 ^ 64"
  shows "a + 2 ^ 64 * b < a' + 2 ^ 64 * b' \<longleftrightarrow> b < b' \<or> b = b' \<and> a < a'"
  using assms by auto

lemma limb_eq:
  assumes "a < (2 ^ 64 :: nat)" and "a' < 2 ^ 64"
  shows "a + 2 ^ 64 * b = a' + 2 ^ 64 * b' \<longleftrightarrow> a = a' \<and> b = b'"
  using limb_split_unique [OF _ assms] by blast

lemma compare_u256_less: "compare_u256 a b < 0 \<longleftrightarrow> u256_val a < u256_val b"
  unfolding u256_val_nested
  by (simp only: limb_less limb_eq u64_unat_bound) (auto simp: compare_u256_def u64_simps unat_eq_iff)

lemma sub_u256_no_borrow:
  assumes "unat (limb0 b) \<le> unat (limb0 a)"
  shows "u256_val (sub_u256 a b) = u256_val a - unat (limb0 b)"
  using assms u64_sub_nowrap [of "limb0 b" "limb0 a"]
  by (simp add: sub_u256_def overflowing_sub_def u256_val_def u64_simps)

lemma sub_u256_val:
  assumes b: "u256_val b < 2 ^ 64" and le: "u256_val b \<le> u256_val a" and a: "u256_val a < 2 ^ 128"
  shows "u256_val (sub_u256 a b) = u256_val a - u256_val b"
proof -
  have b0: "u256_val b = unat (limb0 b)" using b by (auto simp: u256_val_def)
  have a0: "limb2 a = 0" "limb3 a = 0"
    using a by (auto simp: u256_val_def unat_eq_iff)
  show ?thesis
  proof (cases "unat (limb0 b) \<le> unat (limb0 a)")
    case True
    then show ?thesis by (simp add: sub_u256_no_borrow b0)
  next
    case False
    with le b0 a0 have pos: "0 < unat (limb1 a)" by (auto simp: u256_val_def)
    then have l1: "unat (limb1 a - 1) = unat (limb1 a) - 1" by (simp add: u64_simps)
    have l0: "unat (limb0 a - limb0 b) = 2 ^ 64 + unat (limb0 a) - unat (limb0 b)"
      using False u64_unat_bound [of "limb0 b"] by (simp add: unat_sub_if_size word_size)
    from False pos l0 l1 a0 b0 u64_unat_bound [of "limb0 b"] show ?thesis
      by (cases "unat (limb1 a)") (auto simp: sub_u256_def overflowing_sub_def u256_val_def u64_simps)
  qed
qed

lemma add_u256_val: "u256_val a + u256_val b < 2 ^ 256 \<Longrightarrow> u256_val (add_u256 a b) = u256_val a + u256_val b"
  by (simp add: add_u256_def u256_wrapping_add_nowrap)

lemma u64_mult_nowrap: "unat a * unat b < 2 ^ 64 \<Longrightarrow> unat (a * b) = unat a * unat b" for a b :: u64
  by (simp add: unat_word_ariths)

section \<open>Accounts after a transaction\<close>

lemma key_simps [simp]:
  "balance_key a = balance_key b \<longleftrightarrow> a = b" "nonce_key a = nonce_key b \<longleftrightarrow> a = b"
  "balance_key a \<noteq> nonce_key b" "nonce_key a \<noteq> balance_key b"
  "\<lparr>sk_address = c, sk_slot = u256_from_u64 SLOT_CODE_HASH\<rparr> \<noteq> balance_key a"
  "\<lparr>sk_address = c, sk_slot = u256_from_u64 SLOT_CODE_HASH\<rparr> \<noteq> nonce_key a"
  by (auto simp: balance_key_def nonce_key_def u256_from_u64_def SLOT_BALANCE_def SLOT_NONCE_def SLOT_CODE_HASH_def)

lemma values_for_simps [simp]:
  "values_for key [] = []"
  "values_for key ((k, v) # ws) = (if k = key then v # values_for key ws else values_for key ws)"
  "values_for key (ws @ ws') = values_for key ws @ values_for key ws'"
  by (simp_all add: values_for_def)

lemma balance_of_call:
  assumes "dt_to tx = Some to"
  shows "values_for (balance_key a) (vm_writes keccak vm s tx block) =
    (if a = dt_from tx then [Some (debited s tx)] else []) @
    (if a = to \<and> dt_value tx \<noteq> U256_ZERO
     then [Some (add_u256 (balance_at s to (dt_sequence_number tx)) (dt_value tx))] else []) @
    values_for (balance_key a) (fee_writes vm s tx block)"
  by (simp add: vm_writes_def pre_writes_def value_writes_def code_writes_def assms)

lemma nonce_of_tx:
  "values_for (nonce_key a) (vm_writes keccak vm s tx block) =
    (if a = dt_from tx then [Some (u256_from_u64 (dt_nonce tx + 1))] else [])"
  by (simp add: vm_writes_def pre_writes_def value_writes_def code_writes_def fee_writes_def split: option.splits)

lemma vm_execute_ok:
  assumes "mvs_inv s" and "vm_check s tx = None"
  shows "vm_execute keccak vm tx s block =
    (\<lparr>er_tx_seq = dt_sequence_number tx, er_status = Success,
      er_read_set = record_reads s (dt_sequence_number tx) (vm_reads tx block) [],
      er_write_set = record_writes (tracked_writes keccak vm s tx block) [], er_gas_used = gas_of vm tx,
      er_logs = [], er_output = vm_output keccak tx\<rparr>,
     apply_writes (dt_sequence_number tx) (vm_writes keccak vm s tx block) s)"
  using assms by (simp add: vm_execute_def execute_inner_ok)

lemma vm_execute_failed:
  assumes "mvs_inv s" and "vm_check s tx = Some e"
  shows "vm_execute keccak vm tx s block =
    (\<lparr>er_tx_seq = dt_sequence_number tx, er_status = Failure,
      er_read_set = record_reads s (dt_sequence_number tx) (check_reads tx) [],
      er_write_set = [], er_gas_used = dt_gas_limit tx, er_logs = [], er_output = as_bytes (vm_error_text e)\<rparr>, s)"
  using assms by (simp add: vm_execute_def execute_inner_failed)

lemma balance_after:
  assumes "mvs_inv s" and "newest s n" and "n < m" and "length (values_for (balance_key a) ws) \<in> {1, 2, 3}"
    and "seen_of (values_for (balance_key a) ws) = Some v"
  shows "balance_at (apply_writes n ws s) a m = v"
  using mvs_read_apply_writes [OF assms(1,2,4,3)] assms(5) by (simp add: balance_at_def)

lemma balance_unchanged:
  assumes "newest s n" and "n < m" and "values_for (balance_key a) ws = []"
  shows "balance_at (apply_writes n ws s) a m = balance_at s a n"
  using mvs_read_newest [OF assms(1) less_imp_le [OF assms(2)]]
  by (simp add: balance_at_def mvs_read_unwritten assms(3))

lemma nonce_after:
  assumes "mvs_inv s" and "newest s n" and "n < m" and "n = dt_sequence_number tx"
  shows "nonce_at (apply_writes n (vm_writes keccak vm s tx block) s) a m =
    (if a = dt_from tx then dt_nonce tx + 1 else nonce_at s a n)"
proof (cases "a = dt_from tx")
  case True
  then show ?thesis
    using mvs_read_apply_writes [OF assms(1,2), of "nonce_key a" "vm_writes keccak vm s tx block" m] assms(3)
    by (simp add: nonce_at_def nonce_of_tx seen_of_def u256_from_u64_def)
next
  case False
  then show ?thesis
    using mvs_read_newest [OF assms(2) less_imp_le [OF assms(3)]]
    by (simp add: nonce_at_def mvs_read_unwritten nonce_of_tx)
qed

lemma vm_check_None:
  "vm_check s tx = None \<longleftrightarrow>
     nonce_at s (dt_from tx) (dt_sequence_number tx) = dt_nonce tx \<and>
     u256_val (add_u256 (dt_value tx) (calculate_gas_cost tx)) \<le>
       u256_val (balance_at s (dt_from tx) (dt_sequence_number tx))"
  by (simp add: vm_check_def Let_def compare_u256_less not_less)

lemma gas_of_le: "21000 \<le> dt_gas_limit tx \<Longrightarrow> gas_of vm tx \<le> dt_gas_limit tx"
  by (simp add: gas_of_def split: option.splits)

lemma refunded_val:
  assumes gas: "gas_of vm tx \<le> dt_gas_limit tx"
    and cost: "unat (dt_gas_limit tx) * unat (limb0 (dt_gas_price tx)) < 2 ^ 64"
    and deb: "u256_val d + unat (dt_gas_limit tx) * unat (limb0 (dt_gas_price tx)) < 2 ^ 256"
  shows "u256_val (add_u256 d (u256_from_u64 ((dt_gas_limit tx - gas_of vm tx) * u256_to_u64 (dt_gas_price tx)))) =
      u256_val d + unat (dt_gas_limit tx) * unat (limb0 (dt_gas_price tx)) - unat (gas_of vm tx) * unat (limb0 (dt_gas_price tx))"
    and "unat (gas_of vm tx * u256_to_u64 (dt_gas_price tx)) = unat (gas_of vm tx) * unat (limb0 (dt_gas_price tx))"
    and "unat (gas_of vm tx) * unat (limb0 (dt_gas_price tx)) \<le> unat (dt_gas_limit tx) * unat (limb0 (dt_gas_price tx))"
proof -
  let ?g = "unat (gas_of vm tx)" and ?l = "unat (dt_gas_limit tx)" and ?p = "unat (limb0 (dt_gas_price tx))"
  have le: "?g \<le> ?l" using gas by (simp add: u64_simps)
  then show gp: "?g * ?p \<le> ?l * ?p" by simp
  then show "unat (gas_of vm tx * u256_to_u64 (dt_gas_price tx)) = ?g * ?p"
    unfolding u256_to_u64_def by (intro u64_mult_nowrap order_le_less_trans [OF _ cost])
  have "unat (dt_gas_limit tx - gas_of vm tx) = ?l - ?g" using gas by (rule u64_sub_nowrap)
  then have r: "unat ((dt_gas_limit tx - gas_of vm tx) * u256_to_u64 (dt_gas_price tx)) = ?l * ?p - ?g * ?p"
    using cost u64_mult_nowrap [of "dt_gas_limit tx - gas_of vm tx" "limb0 (dt_gas_price tx)"]
    by (simp add: u256_to_u64_def diff_mult_distrib)
  then have "u256_val d + u256_val (u256_from_u64 ((dt_gas_limit tx - gas_of vm tx) * u256_to_u64 (dt_gas_price tx))) < 2 ^ 256"
    using deb by simp
  from add_u256_val [OF this] r gp
  show "u256_val (add_u256 d (u256_from_u64 ((dt_gas_limit tx - gas_of vm tx) * u256_to_u64 (dt_gas_price tx)))) =
      u256_val d + ?l * ?p - ?g * ?p" by simp
qed

lemma limb0_add_u256: "limb0 (add_u256 a b) = limb0 a + limb0 b"
  by (simp add: add_u256_def u256_wrapping_add_def add_limb_def overflowing_add_def Let_def split_beta)

lemma set_record_writes: "set (ws_keys (record_writes ws writes)) = fst ` set ws \<union> set (ws_keys writes)"
  by (induction ws arbitrary: writes) (simp_all add: record_writes_def ws_record_def ws_keys_def dom_update split_beta)

lemma mv_base_mark_aborted [simp]: "mv_base (mvs_mark_aborted key n s) = mv_base s"
  by (simp add: mvs_mark_aborted_def split: option.split)

lemma mvs_read_abort_other:
  assumes "key \<notin> set (ws_keys writes)"
  shows "mvs_read (abort_write_set n writes s) key m = mvs_read s key m"
proof -
  have "chain_of (fold (\<lambda>k. mvs_mark_aborted k n) ks t) key = chain_of t key \<and>
      mv_base (fold (\<lambda>k. mvs_mark_aborted k n) ks t) = mv_base t" if "key \<notin> set ks" for ks t
    using that by (induction ks arbitrary: t) (simp_all add: chain_of_mark_aborted)
  with assms show ?thesis by (simp add: mvs_read_chain abort_write_set_def cong: option.case_cong)
qed

text \<open>The balances after a successful call between three different accounts.\<close>

lemma transfer_balances:
  assumes inv: "mvs_inv s" and new: "newest s n" and n: "dt_sequence_number tx = n" "n < m"
    and to: "dt_to tx = Some to" and dist: "distinct [dt_from tx, to, bc_coinbase block]"
    and ok: "vm_check s tx = None" and run: "vm_execute keccak vm tx s block = (r, s')"
  shows "balance_at s' (dt_from tx) m =
      add_u256 (debited s tx) (u256_from_u64 ((dt_gas_limit tx - gas_of vm tx) * u256_to_u64 (dt_gas_price tx)))"
    and "balance_at s' to m =
      (if dt_value tx = U256_ZERO then balance_at s to n else add_u256 (balance_at s to n) (dt_value tx))"
    and "balance_at s' (bc_coinbase block) m =
      add_u256 (balance_at s (bc_coinbase block) n) (u256_from_u64 (gas_of vm tx * u256_to_u64 (dt_gas_price tx)))"
    and "er_status r = Success \<and> er_gas_used r = gas_of vm tx"
    and "a \<notin> {dt_from tx, to, bc_coinbase block} \<Longrightarrow> balance_at s' a m = balance_at s a n"
    and "nonce_at s' a m = (if a = dt_from tx then dt_nonce tx + 1 else nonce_at s a n)"
proof -
  let ?ws = "vm_writes keccak vm s tx block"
  have rs: "s' = apply_writes n ?ws s" using run vm_execute_ok [OF inv ok, of keccak vm block] by (simp add: n)
  have ne: "dt_from tx \<noteq> to" "to \<noteq> dt_from tx" "to \<noteq> bc_coinbase block" "bc_coinbase block \<noteq> to"
      "dt_from tx \<noteq> bc_coinbase block" "bc_coinbase block \<noteq> dt_from tx"
    using dist by auto
  note calc = balance_of_call [OF to] fee_writes_def seen_of_def n ne
  note after = balance_after [OF inv new n(2)] and same = balance_unchanged [OF new n(2)]
  show "balance_at s' (dt_from tx) m =
      add_u256 (debited s tx) (u256_from_u64 ((dt_gas_limit tx - gas_of vm tx) * u256_to_u64 (dt_gas_price tx)))"
    unfolding rs by (intro after) (simp_all add: calc)
  show "balance_at s' to m =
      (if dt_value tx = U256_ZERO then balance_at s to n else add_u256 (balance_at s to n) (dt_value tx))"
  proof (cases "dt_value tx = U256_ZERO")
    case True
    then have "balance_at s' to m = balance_at s to n" unfolding rs by (intro same) (simp add: calc)
    with True show ?thesis by simp
  next
    case False
    then have "balance_at s' to m = add_u256 (balance_at s to n) (dt_value tx)"
      unfolding rs by (intro after) (simp_all add: calc)
    with False show ?thesis by simp
  qed
  show "balance_at s' (bc_coinbase block) m =
      add_u256 (balance_at s (bc_coinbase block) n) (u256_from_u64 (gas_of vm tx * u256_to_u64 (dt_gas_price tx)))"
    unfolding rs by (intro after) (simp_all add: calc)
  show "er_status r = Success \<and> er_gas_used r = gas_of vm tx"
    using run vm_execute_ok [OF inv ok, of keccak vm block] by auto
  show "balance_at s' a m = balance_at s a n" if "a \<notin> {dt_from tx, to, bc_coinbase block}"
    using that unfolding rs by (intro same) (auto simp: calc)
  show "nonce_at s' a m = (if a = dt_from tx then dt_nonce tx + 1 else nonce_at s a n)"
    unfolding rs by (rule nonce_after [OF inv new n(2) n(1) [symmetric]])
qed

text \<open>A call writes no other keys.\<close>

lemma transfer_frame:
  assumes inv: "mvs_inv s" and new: "newest s n" and n: "dt_sequence_number tx = n" "n < m" and to: "dt_to tx = Some to"
    and ok: "vm_check s tx = None" and run: "vm_execute keccak vm tx s block = (r, s')"
    and key: "key \<notin> {balance_key (dt_from tx), balance_key to, balance_key (bc_coinbase block), nonce_key (dt_from tx)}"
  shows "mvs_read s' key m = mvs_read s key n"
proof -
  have "s' = apply_writes n (vm_writes keccak vm s tx block) s" using run vm_execute_ok [OF inv ok, of keccak vm block] by (simp add: n)
  moreover have "values_for key (vm_writes keccak vm s tx block) = []"
    using key by (auto simp: vm_writes_def pre_writes_def value_writes_def code_writes_def fee_writes_def to)
  ultimately show ?thesis using mvs_read_newest [OF new less_imp_le [OF n(2)]] by (simp add: mvs_read_unwritten)
qed

section \<open>Properties\<close>

text \<open>Property C4: a transfer conserves value. Let sender, recipient and coinbase be three different accounts, the
  nonce the expected one, the gas limit at least the base cost, and let the value plus the gas limit times the lowest
  limb of the gas price be below 2^64 and within the sender's balance, with the sender's balance below 2^128, the other
  two below 2^255, and no later transaction's writes in the state. Then the transaction succeeds and every later reader
  sees the sender debited by the value and the gas used, the recipient credited with the value, the coinbase with the
  gas fee, the sender's nonce advanced by one, and all other balances, nonces and keys of the state as before.\<close>

theorem transfer_conserves_value:
  assumes inv: "mvs_inv s" and new: "newest s n" and n: "dt_sequence_number tx = n" "n < m"
    and to: "dt_to tx = Some to" and dist: "distinct [dt_from tx, to, bc_coinbase block]"
    and nonce: "nonce_at s (dt_from tx) n = dt_nonce tx"
    and gas: "21000 \<le> dt_gas_limit tx"
    and small: "u256_val (dt_value tx) + unat (dt_gas_limit tx) * unat (limb0 (dt_gas_price tx)) < 2 ^ 64"
    and funds: "u256_val (dt_value tx) + unat (dt_gas_limit tx) * unat (limb0 (dt_gas_price tx)) \<le> u256_val (balance_at s (dt_from tx) n)"
      "u256_val (balance_at s (dt_from tx) n) < 2 ^ 128"
    and room: "u256_val (balance_at s to n) < 2 ^ 255" "u256_val (balance_at s (bc_coinbase block) n) < 2 ^ 255"
    and run: "vm_execute keccak vm tx s block = (r, s')"
  shows "er_status r = Success \<and>
    u256_val (balance_at s' (dt_from tx) m) + u256_val (dt_value tx) + unat (er_gas_used r) * unat (limb0 (dt_gas_price tx))
      = u256_val (balance_at s (dt_from tx) n) \<and>
    u256_val (balance_at s' to m) = u256_val (balance_at s to n) + u256_val (dt_value tx) \<and>
    u256_val (balance_at s' (bc_coinbase block) m)
      = u256_val (balance_at s (bc_coinbase block) n) + unat (er_gas_used r) * unat (limb0 (dt_gas_price tx)) \<and>
    (\<forall>a. a \<notin> {dt_from tx, to, bc_coinbase block} \<longrightarrow> balance_at s' a m = balance_at s a n) \<and>
    (\<forall>a. nonce_at s' a m = (if a = dt_from tx then dt_nonce tx + 1 else nonce_at s a n)) \<and>
    (\<forall>key. key \<notin> {balance_key (dt_from tx), balance_key to, balance_key (bc_coinbase block), nonce_key (dt_from tx)} \<longrightarrow>
       mvs_read s' key m = mvs_read s key n)"
proof -
  let ?l = "unat (dt_gas_limit tx)" and ?p = "unat (limb0 (dt_gas_price tx))" and ?v = "u256_val (dt_value tx)"
  have cost: "u256_val (calculate_gas_cost tx) = ?l * ?p"
    using small by (simp add: calculate_gas_cost_def u256_to_u64_def u64_mult_nowrap)
  have total: "u256_val (add_u256 (dt_value tx) (calculate_gas_cost tx)) = ?v + ?l * ?p"
    using small by (subst add_u256_val) (simp_all add: cost)
  have ok: "vm_check s tx = None" using nonce funds(1) by (simp add: vm_check_None total n)
  have deb: "u256_val (debited s tx) = u256_val (balance_at s (dt_from tx) n) - (?v + ?l * ?p)"
    unfolding debited_def n using sub_u256_val [OF _ _ funds(2)] total small funds(1) by simp
  have bounds: "?l * ?p < 2 ^ 64" "u256_val (debited s tx) + ?l * ?p < 2 ^ 256"
    using small funds deb by simp_all
  define fee where "fee = unat (gas_of vm tx) * ?p"
  note fees = refunded_val [OF gas_of_le [OF gas] bounds, of vm, folded fee_def]
  note after = transfer_balances [OF inv new n to dist ok run]
  have t: "u256_val (balance_at s' to m) = u256_val (balance_at s to n) + ?v"
    using after(2) room(1) small by (simp add: add_u256_val)
  have "u256_val (balance_at s (bc_coinbase block) n) + fee < 2 ^ 256"
    using room(2) order_le_less_trans [OF fees(3) bounds(1)] by simp
  then have c: "u256_val (balance_at s' (bc_coinbase block) m) = u256_val (balance_at s (bc_coinbase block) n) + fee"
    using after(3) add_u256_val [of "balance_at s (bc_coinbase block) n"
        "u256_from_u64 (gas_of vm tx * u256_to_u64 (dt_gas_price tx))"] fees(2) by simp
  have "u256_val (balance_at s' (dt_from tx) m) + ?v + fee = u256_val (balance_at s (dt_from tx) n)"
    using after(1) fees(1,3) deb funds(1) by simp
  moreover note transfer_frame [OF inv new n to ok run]
  ultimately show ?thesis using t c after(4-6) by (simp add: fee_def)
qed

text \<open>Example accounts, a funded state and transactions between them.\<close>

definition acct :: "u8 \<Rightarrow> address" where "acct b = replicate 20 b"

definition example_transfer :: "u8 \<Rightarrow> u8 \<Rightarrow> u256 \<Rightarrow> u64 \<Rightarrow> decrypted_transaction" where
  "example_transfer from to val gas = \<lparr>dt_from = acct from, dt_to = Some (acct to), dt_value = val, dt_gas_limit = gas,
     dt_gas_price = u256_from_u64 1, dt_nonce = 0, dt_data = [], dt_source_commitment = [], dt_sequence_number = 1\<rparr>"

definition example_state :: mvs where
  "example_state = mvs_with_base_state [(balance_key (acct 1), U256 1000000 5 0 0), (balance_key (acct 2), U256 7 0 0 0)]"

definition example_block :: "u8 \<Rightarrow> block_context" where
  "example_block coinbase = block_context_default\<lparr>bc_coinbase := acct coinbase\<rparr>"

lemma acct_eq [simp]: "acct a = acct b \<longleftrightarrow> a = b"
  by (simp add: acct_def)

lemma example_transfer_sel [simp]:
  "dt_from (example_transfer from to val gas) = acct from" "dt_to (example_transfer from to val gas) = Some (acct to)"
  "dt_value (example_transfer from to val gas) = val" "dt_gas_limit (example_transfer from to val gas) = gas"
  "dt_gas_price (example_transfer from to val gas) = u256_from_u64 1" "dt_nonce (example_transfer from to val gas) = 0"
  "dt_sequence_number (example_transfer from to val gas) = 1" "bc_coinbase (example_block coinbase) = acct coinbase"
  by (simp_all add: example_transfer_def example_block_def)

lemma example_state_ok: "mvs_inv example_state" "newest example_state n"
  unfolding example_state_def
  by (rule mvs_inv_with_base) (simp add: newest_def chain_of_def mvs_with_base_state_def)

lemma example_balance:
  "balance_at example_state (acct a) n =
     (if a = 1 then U256 1000000 5 0 0 else if a = 2 then U256 7 0 0 0 else U256_ZERO)"
  "nonce_at example_state (acct a) n = 0"
  by (simp_all add: balance_at_def nonce_at_def example_state_def mvs_with_base_state_def mvs_read_def hm_lookup)

lemma example_check:
  assumes "u256_val val + unat gas < 2 ^ 64 * 5"
  shows "vm_check example_state (example_transfer 1 to val gas) = None"
proof -
  have "u256_val (add_u256 val (u256_from_u64 gas)) = u256_val val + unat gas"
    using add_u256_val [of val "u256_from_u64 gas"] assms by simp
  with assms show ?thesis
    by (simp add: vm_check_None example_balance calculate_gas_cost_def u256_to_u64_def u256_from_u64_def u256_val_def)
qed

theorem transfer_conserves_value_witness:
  "u256_val (balance_at (snd (vm_execute mix (vm_new 1) (example_transfer 1 2 (U256 500 0 0 0) 30000) example_state
     (example_block 3))) (acct 2) 2) = 507"
  using transfer_conserves_value [OF example_state_ok, of "example_transfer 1 2 (U256 500 0 0 0) 30000" 1 2 "acct 2" "example_block 3"
      mix "vm_new 1", OF _ _ _ _ _ _ _ _ _ _ _ surjective_pairing]
  by (simp add: example_balance u256_val_def u256_from_u64_def U256_ZERO_def)



text \<open>Property C40: where exactly two of the three accounts coincide, an accepted transfer of a non-zero
  value does not conserve it. A sender that pays itself
  ends with the value added to its old balance; a coinbase that sends a transaction does not get its fee
  back; a coinbase that receives a transfer gets the fee but not the value.\<close>

theorem aliased_accounts_break_conservation:
  assumes inv: "mvs_inv s" and new: "newest s n" and n: "dt_sequence_number tx = n" "n < m"
    and to: "dt_to tx = Some to" and val: "dt_value tx \<noteq> U256_ZERO" and ok: "vm_check s tx = None"
    and run: "vm_execute keccak vm tx s block = (r, s')"
  shows "(dt_from tx = to \<and> to \<noteq> bc_coinbase block \<longrightarrow>
      balance_at s' to m = add_u256 (balance_at s to n) (dt_value tx)) \<and>
    (dt_from tx = bc_coinbase block \<and> to \<noteq> bc_coinbase block \<longrightarrow>
      balance_at s' (dt_from tx) m = add_u256 (sub_u256 (balance_at s (dt_from tx) n) (add_u256 (dt_value tx) (calculate_gas_cost tx)))
        (u256_from_u64 ((dt_gas_limit tx - er_gas_used r) * u256_to_u64 (dt_gas_price tx)))) \<and>
    (to = bc_coinbase block \<and> dt_from tx \<noteq> to \<longrightarrow>
      balance_at s' to m = add_u256 (balance_at s to n) (u256_from_u64 (er_gas_used r * u256_to_u64 (dt_gas_price tx))))"
proof -
  let ?ws = "vm_writes keccak vm s tx block"
  have rs: "s' = apply_writes n ?ws s" "er_gas_used r = gas_of vm tx"
    using run vm_execute_ok [OF inv ok, of keccak vm block] by (auto simp: n)
  note after = balance_after [OF inv new n(2), of _ ?ws]
  have "dt_from tx = to \<and> to \<noteq> bc_coinbase block \<longrightarrow> balance_at s' to m = add_u256 (balance_at s to n) (dt_value tx)"
    unfolding rs(1) using val by (auto simp: balance_of_call [OF to] fee_writes_def seen_of_def n intro!: after)
  moreover have "dt_from tx = bc_coinbase block \<and> to \<noteq> bc_coinbase block \<longrightarrow>
      balance_at s' (dt_from tx) m = add_u256 (debited s tx)
        (u256_from_u64 ((dt_gas_limit tx - er_gas_used r) * u256_to_u64 (dt_gas_price tx)))"
    unfolding rs by (auto simp: balance_of_call [OF to] fee_writes_def seen_of_def n intro!: after)
  moreover have "to = bc_coinbase block \<and> dt_from tx \<noteq> to \<longrightarrow>
      balance_at s' to m = add_u256 (balance_at s to n) (u256_from_u64 (er_gas_used r * u256_to_u64 (dt_gas_price tx)))"
    unfolding rs using val by (auto simp: balance_of_call [OF to] fee_writes_def seen_of_def n intro!: after)
  ultimately show ?thesis by (simp add: debited_def n)
qed

theorem aliased_accounts_break_conservation_witness:
  "u256_val (balance_at (snd (vm_execute mix (vm_new 1) (example_transfer 1 1 (U256 500 0 0 0) 30000) example_state
     (example_block 3))) (acct 1) 2) = u256_val (balance_at example_state (acct 1) 1) + 500"
proof -
  have "vm_check example_state (example_transfer 1 1 (U256 500 0 0 0) 30000) = None"
    by (rule example_check) (simp add: u256_val_def)
  from aliased_accounts_break_conservation [OF example_state_ok _ _ _ _ this surjective_pairing, of 1 2 "acct 1"
        "example_block 3" mix "vm_new 1"]
  show ?thesis by (simp add: example_balance U256_ZERO_def add_u256_val u256_val_def [of "U256 _ _ _ _"])
qed

text \<open>The subtraction that debits the sender looks at the lowest 64 bits of the amount only. A
  transfer of a multiple of 2^64 credits the recipient in full and costs the sender nothing but gas.\<close>

theorem whole_word_transfer_is_free:
  assumes inv: "mvs_inv s" and new: "newest s n" and n: "dt_sequence_number tx = n" "n < m"
    and to: "dt_to tx = Some to" and dist: "distinct [dt_from tx, to, bc_coinbase block]"
    and val: "limb0 (dt_value tx) = 0" "dt_value tx \<noteq> U256_ZERO" and ok: "vm_check s tx = None"
    and gas: "21000 \<le> dt_gas_limit tx"
      "unat (dt_gas_limit tx) * unat (limb0 (dt_gas_price tx)) \<le> unat (limb0 (balance_at s (dt_from tx) n))"
    and run: "vm_execute keccak vm tx s block = (r, s')"
  shows "balance_at s' to m = add_u256 (balance_at s to n) (dt_value tx) \<and>
    u256_val (balance_at s' (dt_from tx) m) + unat (er_gas_used r) * unat (limb0 (dt_gas_price tx))
      = u256_val (balance_at s (dt_from tx) n)"
proof -
  define cost where "cost = unat (dt_gas_limit tx) * unat (limb0 (dt_gas_price tx))"
  let ?b = "balance_at s (dt_from tx) n"
  have cost: "cost < 2 ^ 64" unfolding cost_def by (rule order_le_less_trans [OF gas(2) u64_unat_bound])
  have "unat (limb0 (add_u256 (dt_value tx) (calculate_gas_cost tx))) = cost"
    using cost by (simp add: limb0_add_u256 val calculate_gas_cost_def u256_from_u64_def u256_to_u64_def u64_mult_nowrap cost_def)
  then have deb: "u256_val (debited s tx) = u256_val ?b - cost"
    using sub_u256_no_borrow gas(2) by (simp add: debited_def n cost_def)
  have le: "cost \<le> u256_val ?b" using gas(2) by (simp add: cost_def u256_val_def)
  then have bound: "u256_val (debited s tx) + cost < 2 ^ 256" using deb u256_val_bound [of ?b] by simp
  define fee where "fee = unat (gas_of vm tx) * unat (limb0 (dt_gas_price tx))"
  note fees = refunded_val [OF gas_of_le [OF gas(1)] cost [unfolded cost_def] bound [unfolded cost_def], of vm,
      folded cost_def fee_def]
  note after = transfer_balances [OF inv new n to dist ok run]
  have "u256_val (balance_at s' (dt_from tx) m) + unat (er_gas_used r) * unat (limb0 (dt_gas_price tx)) = u256_val ?b"
    using after(1,4) fees(1,3) deb le by (simp add: fee_def [symmetric])
  with after(2) val(2) show ?thesis by simp
qed

theorem whole_word_transfer_is_free_witness:
  "u256_val (balance_at (snd (vm_execute mix (vm_new 1) (example_transfer 1 2 (U256 0 4 0 0) 30000) example_state
     (example_block 3))) (acct 1) 2) + 21000 = u256_val (U256 1000000 5 0 0)"
proof -
  let ?tx = "example_transfer 1 2 (U256 0 4 0 0) 30000"
  have ok: "vm_check example_state ?tx = None" by (rule example_check) (simp add: u256_val_def)
  have "er_gas_used (fst (vm_execute mix (vm_new 1) ?tx example_state (example_block 3))) = 21000"
    by (simp add: vm_execute_ok [OF example_state_ok(1) ok] gas_of_def get_code_def vm_new_def)
  with whole_word_transfer_is_free [OF example_state_ok _ _ _ _ _ _ ok _ _ surjective_pairing, of 1 2 "acct 2" "example_block 3"
        mix "vm_new 1"]
  show ?thesis by (simp add: example_balance U256_ZERO_def u256_from_u64_def)
qed

text \<open>A gas limit below the base cost mints coins. A transaction to an account without code that
  offers no gas at all at price one is accepted, and the wrapped-around refund of 2^64 - 21000 is paid to
  the sender.\<close>

theorem zero_gas_limit_mints:
  assumes inv: "mvs_inv s" and new: "newest s n" and n: "dt_sequence_number tx = n" "n < m"
    and to: "dt_to tx = Some to" and dist: "distinct [dt_from tx, to, bc_coinbase block]"
    and nonce: "nonce_at s (dt_from tx) n = dt_nonce tx"
    and tx: "dt_value tx = U256_ZERO" "dt_gas_limit tx = 0" "dt_gas_price tx = U256_ONE" "get_code vm to = None"
    and room: "u256_val (balance_at s (dt_from tx) n) < 2 ^ 255"
    and run: "vm_execute keccak vm tx s block = (r, s')"
  shows "er_status r = Success \<and>
    u256_val (balance_at s' (dt_from tx) m) = u256_val (balance_at s (dt_from tx) n) + (2 ^ 64 - 21000)"
proof -
  let ?b = "balance_at s (dt_from tx) n"
  have zero: "add_u256 (dt_value tx) (calculate_gas_cost tx) = U256_ZERO"
  proof -
    have "u256_val (add_u256 (dt_value tx) (calculate_gas_cost tx)) = 0"
      by (subst add_u256_val) (simp_all add: tx calculate_gas_cost_def u256_from_u64_def u256_val_def U256_ZERO_def)
    then show ?thesis using u256_val_inject [of _ U256_ZERO] by simp
  qed
  have ok: "vm_check s tx = None" using nonce by (simp add: vm_check_None n zero)
  have st: "er_status r = Success" using run vm_execute_ok [OF inv ok, of keccak vm block] by auto
  have deb: "u256_val (debited s tx) = u256_val ?b"
    using sub_u256_no_borrow [of U256_ZERO ?b] by (simp add: debited_def zero n U256_ZERO_def)
  have "unat ((dt_gas_limit tx - gas_of vm tx) * u256_to_u64 (dt_gas_price tx)) = 2 ^ 64 - 21000"
    by (simp add: tx gas_of_def to u256_to_u64_def U256_ONE_def)
  with transfer_balances(1) [OF inv new n to dist ok run] deb room st show ?thesis
    by (simp add: add_u256_val)
qed

theorem zero_gas_limit_mints_witness:
  "u256_val (balance_at (snd (vm_execute mix (vm_new 1) (example_transfer 9 2 U256_ZERO 0) example_state
     (example_block 3))) (acct 9) 2) = 2 ^ 64 - 21000"
  using zero_gas_limit_mints [OF example_state_ok, of "example_transfer 9 2 U256_ZERO 0" 1 2 "acct 2" "example_block 3"
      "vm_new 1" mix, OF _ _ _ _ _ _ _ _ _ _ surjective_pairing]
  by (simp add: example_balance u256_val_def u256_from_u64_def U256_ZERO_def U256_ONE_def get_code_def vm_new_def)

text \<open>A contract creation is only partly tracked. The code hash is written to the state but not to
  the write set, so aborting the transaction leaves it in place for every later reader.\<close>

theorem aborted_creation_keeps_code_hash:
  assumes inv: "mvs_inv s" and new: "newest s n" and n: "dt_sequence_number tx = n" "n < m"
    and create: "dt_to tx = None" and ok: "vm_check s tx = None"
    and run: "vm_execute keccak vm tx s block = (r, s')"
  shows "fst (mvs_read (abort_write_set n (er_write_set r) s')
      \<lparr>sk_address = er_output r, sk_slot = u256_from_u64 SLOT_CODE_HASH\<rparr> m) = Some (u256_from_be_bytes (keccak (dt_data tx)))"
proof -
  let ?k = "\<lparr>sk_address = er_output r, sk_slot = u256_from_u64 SLOT_CODE_HASH\<rparr>" and ?ws = "vm_writes keccak vm s tx block"
  have rs: "s' = apply_writes n ?ws s" "er_output r = compute_create_address keccak (dt_from tx) (dt_nonce tx)"
      "er_write_set r = record_writes (tracked_writes keccak vm s tx block) []"
    using run vm_execute_ok [OF inv ok, of keccak vm block] create by (auto simp: n vm_output_def)
  have "?k \<notin> fst ` set (tracked_writes keccak vm s tx block)"
    by (auto simp: tracked_writes_def pre_writes_def value_writes_def fee_writes_def create split: if_splits)
  then have "?k \<notin> set (ws_keys (er_write_set r))"
    by (simp add: rs(3) set_record_writes ws_keys_def [of "[]"])
  then have "mvs_read (abort_write_set n (er_write_set r) s') ?k m = mvs_read s' ?k m"
    by (rule mvs_read_abort_other)
  moreover have "values_for ?k ?ws = [Some (u256_from_be_bytes (keccak (dt_data tx)))]"
    by (simp add: vm_writes_def pre_writes_def value_writes_def code_writes_def fee_writes_def create rs(2) [symmetric])
      (metis key_simps(5,6))
  ultimately show ?thesis
    using mvs_read_apply_writes [OF inv new _ n(2), of ?k ?ws] by (simp add: rs(1) seen_of_def)
qed

theorem aborted_creation_keeps_code_hash_witness:
  "fst (mvs_read (abort_write_set 1 (er_write_set (fst (vm_execute mix (vm_new 1)
      (example_transfer 1 2 U256_ZERO 40000\<lparr>dt_to := None\<rparr>) example_state (example_block 3))))
      (snd (vm_execute mix (vm_new 1) (example_transfer 1 2 U256_ZERO 40000\<lparr>dt_to := None\<rparr>) example_state (example_block 3))))
      \<lparr>sk_address = er_output (fst (vm_execute mix (vm_new 1)
         (example_transfer 1 2 U256_ZERO 40000\<lparr>dt_to := None\<rparr>) example_state (example_block 3))), sk_slot = u256_from_u64 SLOT_CODE_HASH\<rparr> 2)
   = Some (u256_from_be_bytes (mix []))"
proof -
  let ?tx = "example_transfer 1 2 U256_ZERO 40000\<lparr>dt_to := None\<rparr>"
  have "vm_check example_state ?tx = vm_check example_state (example_transfer 1 2 U256_ZERO 40000)"
    by (simp add: vm_check_def calculate_gas_cost_def Let_def)
  also have "\<dots> = None" by (rule example_check) simp
  finally show ?thesis
    using aborted_creation_keeps_code_hash [OF example_state_ok _ _ _ _ surjective_pairing, of ?tx 1 2 mix "vm_new 1" "example_block 3"]
    by (simp add: example_transfer_def)
qed

end
