(* ===== verification/Conflict_Detector.thy ===== *)
theory Conflict_Detector
  imports Version_Chain
begin

text \<open>
  Validation of speculative results, \<^verbatim>\<open>src/execution/conflict.rs\<close>.
\<close>

type_synonym conflict_detector = "(state_key, u64) hmap"

definition detector_new :: conflict_detector where
  "detector_new = []"

definition has_conflict :: "conflict_detector \<Rightarrow> u64 \<Rightarrow> read_set \<Rightarrow> bool" where
  "has_conflict committed_writes tx_seq reads =
     list_ex (\<lambda>(key, val, read_version).
        case hm_get committed_writes key of
          Some write_seq \<Rightarrow> read_version < write_seq \<and> write_seq < tx_seq
        | None \<Rightarrow> False) reads"

definition record_commit :: "u64 \<Rightarrow> write_set \<Rightarrow> conflict_detector \<Rightarrow> conflict_detector" where
  "record_commit tx_seq writes committed_writes =
     fold (\<lambda>key. hm_insert key tx_seq) (ws_keys writes) committed_writes"

definition committed_keys :: "conflict_detector \<Rightarrow> state_key list" where
  "committed_keys committed_writes = map fst committed_writes"

definition detector_reset :: "conflict_detector \<Rightarrow> conflict_detector" where
  "detector_reset committed_writes = []"

record validation_result =
  val_committed :: "u64 list"
  val_aborted :: "u64 list"

definition validate_step ::
    "execution_result \<Rightarrow> conflict_detector \<times> u64 list \<times> u64 list \<Rightarrow> conflict_detector \<times> u64 list \<times> u64 list" where
  "validate_step r st =
     (case st of (detector, committed, aborted) \<Rightarrow>
        if has_conflict detector (er_tx_seq r) (er_read_set r)
        then (detector, committed, aborted @ [er_tx_seq r])
        else (record_commit (er_tx_seq r) (er_write_set r) detector, committed @ [er_tx_seq r], aborted))"

definition validate_batch :: "execution_result list \<Rightarrow> validation_result" where
  "validate_batch results =
     (let sorted_results = sort_key er_tx_seq results;
          (detector, committed, aborted) = fold validate_step sorted_results (detector_new, [], [])
      in \<lparr>val_committed = committed, val_aborted = aborted\<rparr>)"

section \<open>What the detector remembers\<close>

lemma record_commit_get:
  "hm_get (record_commit s ws m) k = (if k \<in> fst ` set ws then Some s else hm_get m k)"
proof -
  have "hm_get (fold (\<lambda>key. hm_insert key s) ks m) k = (if k \<in> set ks then Some s else hm_get m k)" for ks
    by (induction ks arbitrary: m) (auto simp: hm_lookup)
  then show ?thesis by (simp add: record_commit_def ws_keys_def)
qed

definition writes_key :: "execution_result \<Rightarrow> state_key \<Rightarrow> bool" where
  "writes_key r k \<longleftrightarrow> k \<in> fst ` set (er_write_set r)"

text \<open>A stale read: some transaction of the list, committed and between the version read and the reader,
  wrote the key.\<close>

definition stale_read :: "execution_result list \<Rightarrow> u64 list \<Rightarrow> execution_result \<Rightarrow> bool" where
  "stale_read rs committed r \<longleftrightarrow>
     (\<exists>(key, val, version) \<in> set (er_read_set r). \<exists>w \<in> set rs.
        er_tx_seq w \<in> set committed \<and> writes_key w key \<and> version < er_tx_seq w \<and> er_tx_seq w < er_tx_seq r)"

definition last_writer :: "execution_result list \<Rightarrow> u64 list \<Rightarrow> state_key \<Rightarrow> u64 option \<Rightarrow> bool" where
  "last_writer rs committed k w \<longleftrightarrow>
     (case w of
        None \<Rightarrow> \<forall>w \<in> set rs. er_tx_seq w \<in> set committed \<longrightarrow> \<not> writes_key w k
      | Some s \<Rightarrow>
          (\<exists>w \<in> set rs. er_tx_seq w = s \<and> s \<in> set committed \<and> writes_key w k) \<and>
          (\<forall>w \<in> set rs. er_tx_seq w \<in> set committed \<and> writes_key w k \<longrightarrow> er_tx_seq w \<le> s))"

definition last_writer_ok :: "execution_result list \<Rightarrow> u64 list \<Rightarrow> conflict_detector \<Rightarrow> bool" where
  "last_writer_ok rs committed m \<longleftrightarrow> (\<forall>k. last_writer rs committed k (hm_get m k))"

lemma has_conflict_iff_stale:
  assumes "last_writer_ok rs committed m" and "\<forall>w \<in> set rs. er_tx_seq w < er_tx_seq r"
  shows "has_conflict m (er_tx_seq r) (er_read_set r) \<longleftrightarrow> stale_read rs committed r"
proof -
  have "(case hm_get m key of Some s \<Rightarrow> version < s \<and> s < er_tx_seq r | None \<Rightarrow> False) \<longleftrightarrow>
      (\<exists>w \<in> set rs. er_tx_seq w \<in> set committed \<and> writes_key w key \<and> version < er_tx_seq w \<and> er_tx_seq w < er_tx_seq r)"
    for key version
  proof (cases "hm_get m key")
    case None
    then show ?thesis using assms(1) [unfolded last_writer_ok_def last_writer_def, THEN spec, of key] by auto
  next
    case (Some s)
    then have "(\<exists>w \<in> set rs. er_tx_seq w = s \<and> s \<in> set committed \<and> writes_key w key) \<and>
        (\<forall>w \<in> set rs. er_tx_seq w \<in> set committed \<and> writes_key w key \<longrightarrow> er_tx_seq w \<le> s)"
      using assms(1) [unfolded last_writer_ok_def last_writer_def, THEN spec, of key] by simp
    with Some assms(2) show ?thesis by (auto intro: less_le_trans)
  qed
  then show ?thesis
    by (simp add: has_conflict_def stale_read_def list_ex_iff case_prod_unfold)
qed

definition validation_inv :: "execution_result list \<Rightarrow> conflict_detector \<times> u64 list \<times> u64 list \<Rightarrow> bool" where
  "validation_inv rs st \<longleftrightarrow>
     (case st of (m, committed, aborted) \<Rightarrow>
        last_writer_ok rs committed m \<and>
        set committed \<union> set aborted = er_tx_seq ` set rs \<and> set committed \<inter> set aborted = {} \<and>
        sorted_wrt (<) committed \<and> sorted_wrt (<) aborted \<and>
        (\<forall>r \<in> set rs. er_tx_seq r \<in> set aborted \<longleftrightarrow> stale_read rs committed r))"


lemma stale_read_snoc:
  assumes "\<forall>w \<in> set rs. er_tx_seq w < er_tx_seq x" and "r \<in> set rs \<or> r = x"
    and "set committed' - {er_tx_seq x} = set committed - {er_tx_seq x}"
  shows "stale_read (rs @ [x]) committed' r \<longleftrightarrow> stale_read rs committed r"
proof -
  have "er_tx_seq w \<in> set committed' \<longleftrightarrow> er_tx_seq w \<in> set committed" if "w \<in> set rs" for w
    using assms(1,3) that by (metis DiffE DiffI insertE less_irrefl singletonD)
  moreover have "\<not> er_tx_seq x < er_tx_seq r" using assms(1,2) by (metis less_asym less_irrefl)
  ultimately show ?thesis by (auto simp: stale_read_def)
qed

lemma validation_inv_step:
  assumes inv: "validation_inv rs st" and lt: "\<forall>w \<in> set rs. er_tx_seq w < er_tx_seq x"
  shows "validation_inv (rs @ [x]) (validate_step x st)"
proof -
  obtain m c a where st: "st = (m, c, a)" by (cases st)
  have I: "last_writer_ok rs c m" "set c \<union> set a = er_tx_seq ` set rs" "set c \<inter> set a = {}"
      "sorted_wrt (<) c" "sorted_wrt (<) a" "\<forall>r \<in> set rs. er_tx_seq r \<in> set a \<longleftrightarrow> stale_read rs c r"
    using inv by (simp_all add: validation_inv_def st)
  have "\<forall>s \<in> set c \<union> set a. s < er_tx_seq x" using lt unfolding I(2) by blast
  then have new: "er_tx_seq x \<notin> set c" "er_tx_seq x \<notin> set a" "\<forall>s \<in> set c. s < er_tx_seq x" "\<forall>s \<in> set a. s < er_tx_seq x"
    by auto
  note conf = has_conflict_iff_stale [OF I(1) lt]
  show ?thesis
  proof (cases "has_conflict m (er_tx_seq x) (er_read_set x)")
    case True
    have "last_writer_ok (rs @ [x]) c m"
      unfolding last_writer_ok_def
    proof
      fix k show "last_writer (rs @ [x]) c k (hm_get m k)"
        using I(1) [unfolded last_writer_ok_def, THEN spec, of k] new(1)
        by (cases "hm_get m k") (auto simp: last_writer_def)
    qed
    moreover have "er_tx_seq r \<in> set (a @ [er_tx_seq x]) \<longleftrightarrow> stale_read (rs @ [x]) c r"
      if "r \<in> set (rs @ [x])" for r
      using stale_read_snoc [OF lt, of r c c] that I(6) True conf lt by auto
    ultimately show ?thesis
      using True I new by (auto simp: validation_inv_def st validate_step_def sorted_wrt_append)
  next
    case False
    let ?c = "c @ [er_tx_seq x]"
    have "last_writer_ok (rs @ [x]) ?c (record_commit (er_tx_seq x) (er_write_set x) m)"
      unfolding last_writer_ok_def record_commit_get
    proof
      fix k show "last_writer (rs @ [x]) ?c k (if k \<in> fst ` set (er_write_set x) then Some (er_tx_seq x) else hm_get m k)"
        using I(1) [unfolded last_writer_ok_def, THEN spec, of k] lt
        by (cases "hm_get m k") (auto simp: last_writer_def writes_key_def less_imp_le)
    qed
    moreover have "er_tx_seq r \<in> set a \<longleftrightarrow> stale_read (rs @ [x]) ?c r" if "r \<in> set (rs @ [x])" for r
      using stale_read_snoc [OF lt, of r ?c c] that I(6) False conf new(2) by auto
    ultimately show ?thesis
      using False I new by (auto simp: validation_inv_def st validate_step_def sorted_wrt_append)
  qed
qed

lemma validation_inv_fold:
  "sorted_wrt (<) (map er_tx_seq rs) \<Longrightarrow> validation_inv rs (fold validate_step rs (detector_new, [], []))"
proof (induction rs rule: rev_induct)
  case Nil
  then show ?case by (simp add: validation_inv_def last_writer_ok_def last_writer_def detector_new_def)
next
  case (snoc x rs)
  then show ?case using validation_inv_step [of rs _ x] by (simp add: sorted_wrt_append)
qed

lemma validation_inv_batch:
  assumes "distinct (map er_tx_seq results)"
  shows "validation_inv (sort_key er_tx_seq results) (fold validate_step (sort_key er_tx_seq results) (detector_new, [], []))"
proof -
  let ?rs = "sort_key er_tx_seq results"
  have "mset (map er_tx_seq ?rs) = mset (map er_tx_seq results)" by simp
  from mset_eq_imp_distinct_iff [OF this] have "distinct (map er_tx_seq ?rs)" using assms by simp
  then have "sorted_wrt (<) (map er_tx_seq ?rs)" by (simp add: strict_sorted_iff)
  then show ?thesis by (rule validation_inv_fold)
qed

text \<open>A batch without stale reads is committed as a whole.\<close>

lemma validate_batch_clean:
  assumes dist: "distinct (map er_tx_seq results)" and fresh: "\<And>r c. r \<in> set results \<Longrightarrow> \<not> stale_read results c r"
  shows "val_aborted (validate_batch results) = [] \<and>
    val_committed (validate_batch results) = map er_tx_seq (sort_key er_tx_seq results)"
proof -
  let ?rs = "sort_key er_tx_seq results"
  obtain m c a where f: "fold validate_step ?rs (detector_new, [], []) = (m, c, a)" by (cases "fold validate_step ?rs (detector_new, [], [])")
  have inv: "set c \<union> set a = er_tx_seq ` set results" "sorted_wrt (<) c"
      "\<forall>r \<in> set results. er_tx_seq r \<in> set a \<longleftrightarrow> stale_read ?rs c r"
    using validation_inv_batch [OF dist] by (simp_all add: validation_inv_def f)
  have "set a = {}"
  proof (rule ccontr)
    assume "set a \<noteq> {}"
    then obtain x where x: "x \<in> set a" by fastforce
    then have "x \<in> er_tx_seq ` set results" using inv(1) by blast
    with x obtain r where "r \<in> set results" "er_tx_seq r \<in> set a" by blast
    with inv(3) fresh [of r c] show False by (simp add: stale_read_def)
  qed
  moreover have "sorted (map er_tx_seq ?rs)" "distinct (map er_tx_seq ?rs)"
    using dist mset_eq_imp_distinct_iff [of "map er_tx_seq ?rs" "map er_tx_seq results"] by simp_all
  moreover have "set (map er_tx_seq ?rs) = set c" using inv(1) \<open>set a = {}\<close> by simp
  moreover have "sorted c" "distinct c" using inv(2) by (simp_all add: strict_sorted_iff)
  ultimately show ?thesis
    using sorted_distinct_set_unique [of c "map er_tx_seq ?rs"] by (simp add: validate_batch_def Let_def f)
qed

section \<open>Properties\<close>

text \<open>Property C26: validation is the documented conflict rule. For results with different sequence numbers,
  validation splits them into a committed and an aborted part, both in sequence order, and aborts a
  transaction exactly if it read some key at a version older than a committed write to that key by an
  earlier transaction.\<close>

theorem validate_batch_rule:
  assumes "distinct (map er_tx_seq results)" and v: "validate_batch results = v"
  shows "set (val_committed v) \<union> set (val_aborted v) = er_tx_seq ` set results \<and>
    set (val_committed v) \<inter> set (val_aborted v) = {} \<and>
    sorted_wrt (<) (val_committed v) \<and> sorted_wrt (<) (val_aborted v) \<and>
    (\<forall>r \<in> set results. er_tx_seq r \<in> set (val_aborted v) \<longleftrightarrow> stale_read results (val_committed v) r)"
proof -
  let ?rs = "sort_key er_tx_seq results"
  note inv = validation_inv_batch [OF assms(1)]
  have "stale_read ?rs c r = stale_read results c r" for c r by (simp add: stale_read_def)
  with inv show ?thesis
    using v by (auto simp: validation_inv_def validate_batch_def Let_def split: prod.splits)
qed

definition example_result :: "u64 \<Rightarrow> read_set \<Rightarrow> write_set \<Rightarrow> execution_result" where
  "example_result s reads writes = \<lparr>er_tx_seq = s, er_status = Success, er_read_set = reads,
     er_write_set = writes, er_gas_used = 21000, er_logs = [], er_output = []\<rparr>"

definition example_slot :: state_key where
  "example_slot = \<lparr>sk_address = replicate 20 1, sk_slot = U256_ZERO\<rparr>"

theorem validate_batch_rule_witness:
  "stale_read [example_result 2 [(example_slot, None, 0)] [], example_result 1 [] [(example_slot, None)]] [1]
     (example_result 2 [(example_slot, None, 0)] [])"
proof -
  let ?rs = "[example_result 2 [(example_slot, None, 0)] [], example_result 1 [] [(example_slot, None)]]"
  have d: "distinct (map er_tx_seq ?rs)" by (simp add: example_result_def)
  have v: "validate_batch ?rs = \<lparr>val_committed = [1], val_aborted = [2]\<rparr>" by code_simp
  from validate_batch_rule [OF d v] show ?thesis by (simp add: example_result_def)
qed

end
