(* ===== verification/Parallel_Executor.thy ===== *)
theory Parallel_Executor
  imports Ryther_Vm Conflict_Detector
begin

text \<open>
  The batch executor, \<^verbatim>\<open>src/execution/executor.rs\<close>: speculative execution of a batch, validation in
  sequence order, re-execution of what was aborted. \<open>execute_parallel\<close> is an ordinary iterator chain and runs
  the transactions one after the other. The functions take the call of the virtual machine as an argument;
  \<open>execute_single\<close> is the one the code passes, and the locale \<open>speculative_vm\<close> states what the executor relies on.
\<close>

record executor_config =
  ec_worker_threads :: nat
  ec_max_retries :: nat

definition executor_config_default :: "nat \<Rightarrow> executor_config" where
  "executor_config_default num_cpus = \<lparr>ec_worker_threads = max num_cpus 4, ec_max_retries = 3\<rparr>"

record parallel_executor =
  pe_config :: executor_config
  pe_state :: mvs
  pe_vm :: ryther_vm

definition executor_new :: "mvs \<Rightarrow> ryther_vm \<Rightarrow> executor_config \<Rightarrow> parallel_executor" where
  "executor_new s vm config = \<lparr>pe_config = config, pe_state = s, pe_vm = vm\<rparr>"

type_synonym vm_call = "decrypted_transaction \<Rightarrow> mvs \<Rightarrow> execution_result \<times> mvs"

definition execute_single ::
    "hash_fn \<Rightarrow> ryther_vm \<Rightarrow> block_context \<Rightarrow> vm_call" where
  "execute_single keccak vm block tx s = vm_execute keccak vm tx s block"

fun execute_parallel ::
    "vm_call \<Rightarrow> u64 list \<Rightarrow> (u64, decrypted_transaction) hmap \<Rightarrow> mvs \<Rightarrow> execution_result list \<times> mvs" where
  "execute_parallel single [] tx_map s = ([], s)"
| "execute_parallel single (seq # sequences) tx_map s =
     (case hm_get tx_map seq of
        Some tx \<Rightarrow>
          (let (r, s1) = single tx s; (rs, s2) = execute_parallel single sequences tx_map s1 in (r # rs, s2))
      | None \<Rightarrow> execute_parallel single sequences tx_map s)"

definition commit_results :: "(u64, execution_result) hmap \<Rightarrow> u64 list \<Rightarrow> mvs \<Rightarrow> mvs" where
  "commit_results results committed s =
     fold (\<lambda>seq s. case hm_get results seq of Some r \<Rightarrow> commit_write_set seq (er_write_set r) s | None \<Rightarrow> s)
       committed s"

definition abort_results ::
    "u64 list \<Rightarrow> (u64, execution_result) hmap \<times> mvs \<Rightarrow> (u64, execution_result) hmap \<times> mvs" where
  "abort_results aborted rs =
     fold (\<lambda>seq (results, s).
        (hm_remove seq results,
         case hm_get results seq of Some r \<Rightarrow> abort_write_set seq (er_write_set r) s | None \<Rightarrow> s))
       aborted rs"

text \<open>The loop \<open>for attempt in 0..=max_retries\<close>, with the number of attempts left.\<close>

fun batch_loop ::
    "vm_call \<Rightarrow> (u64, decrypted_transaction) hmap \<Rightarrow> nat \<Rightarrow> u64 list \<Rightarrow> (u64, execution_result) hmap \<Rightarrow> mvs \<Rightarrow>
     (u64, execution_result) hmap \<times> mvs" where
  "batch_loop single tx_map 0 todo results s = (results, s)"
| "batch_loop single tx_map (Suc attempts) todo results s =
     (if todo = [] then (results, s)
      else
        let (new_results, s1) = execute_parallel single todo tx_map s;
            results1 = fold (\<lambda>r. hm_insert (er_tx_seq r) r) new_results results;
            validation = validate_batch (map snd results1);
            s2 = commit_results results1 (val_committed validation) s1;
            (results2, s3) = abort_results (val_aborted validation) (results1, s2)
        in if val_aborted validation = [] then (results2, s3)
           else batch_loop single tx_map attempts (val_aborted validation) results2 s3)"

definition execute_batch ::
    "vm_call \<Rightarrow> executor_config \<Rightarrow> decrypted_transaction list \<Rightarrow> mvs \<Rightarrow> execution_result list \<times> mvs" where
  "execute_batch single config transactions s =
     (if transactions = [] then ([], s)
      else
        let tx_map = fold (\<lambda>tx. hm_insert (dt_sequence_number tx) tx) transactions [];
            todo = sort (map fst tx_map);
            (results, s') = batch_loop single tx_map (Suc (ec_max_retries config)) todo [] s
        in (sort_key er_tx_seq (map snd results), s'))"

definition run_batch ::
    "hash_fn \<Rightarrow> block_context \<Rightarrow> decrypted_transaction list \<Rightarrow> parallel_executor \<Rightarrow>
     execution_result list \<times> parallel_executor" where
  "run_batch keccak block transactions pe =
     (let (results, s) = execute_batch (execute_single keccak (pe_vm pe) block) (pe_config pe) transactions (pe_state pe)
      in (results, pe\<lparr>pe_state := s\<rparr>))"

record execution_stats =
  es_total_txs :: nat
  es_first_pass_success :: nat
  es_reexecutions :: nat
  es_max_retries_used :: nat
  es_total_gas :: u64

section \<open>Serial execution\<close>

fun run_serial :: "vm_call \<Rightarrow> decrypted_transaction list \<Rightarrow> mvs \<Rightarrow> execution_result list \<times> mvs" where
  "run_serial single [] s = ([], s)"
| "run_serial single (tx # txs) s =
     (let (r, s1) = single tx s; (rs, s2) = run_serial single txs s1 in (r # rs, s2))"

definition commit_all :: "execution_result list \<Rightarrow> mvs \<Rightarrow> mvs" where
  "commit_all rs s = fold (\<lambda>r. commit_write_set (er_tx_seq r) (er_write_set r)) rs s"

section \<open>Filling and reading the maps\<close>

lemma insert_all:
  "distinct (map f xs) \<Longrightarrow> set (map f xs) \<inter> fst ` set m = {} \<Longrightarrow>
     fold (\<lambda>x. hm_insert (f x) x) xs m = m @ map (\<lambda>x. (f x, x)) xs"
proof (induction xs arbitrary: m)
  case (Cons x xs)
  then have "hm_insert (f x) x m = m @ [(f x, x)]" by (intro hm_insert_new) (auto simp: map_of_eq_None_iff)
  moreover have "set (map f xs) \<inter> fst ` set (m @ [(f x, x)]) = {}" using Cons.prems by auto
  ultimately show ?case using Cons.IH [of "m @ [(f x, x)]"] Cons.prems(1) by simp
qed simp

lemma get_keyed: "distinct (map f xs) \<Longrightarrow> x \<in> set xs \<Longrightarrow> hm_get (map (\<lambda>x. (f x, x)) xs) (f x) = Some x"
  by (induction xs) (auto simp: image_iff)

lemma sort_map_key: "sort (map f xs) = map f (sort_key f xs)"
  by (rule properties_for_sort) simp_all

lemma execute_parallel_serial:
  "\<forall>tx \<in> set txs. hm_get tx_map (f tx) = Some tx \<Longrightarrow>
     execute_parallel single (map f txs) tx_map s = run_serial single txs s"
  by (induction txs arbitrary: s) (simp_all add: Let_def)

lemma commit_results_all:
  "\<forall>r \<in> set rs. hm_get results (er_tx_seq r) = Some r \<Longrightarrow>
     commit_results results (map er_tx_seq rs) s = commit_all rs s"
  by (induction rs arbitrary: s) (simp_all add: commit_results_def commit_all_def)

section \<open>What the executor relies on\<close>

definition live_at :: "mvs \<Rightarrow> state_key \<Rightarrow> u64 \<Rightarrow> bool" where
  "live_at s key n \<longleftrightarrow> (\<exists>x \<in> set (chain_of s key). sv_tx_sequence x = n \<and> sv_status x \<noteq> Aborted)"

lemma mvs_read_live:
  assumes "mvs_inv s" and "live_at s key n" and "n < m"
  shows "n \<le> snd (mvs_read s key m)"
proof -
  obtain x where x: "x \<in> set (chain_of s key)" "live m x" "sv_tx_sequence x = n"
    using assms(2,3) by (auto simp: live_at_def live_def)
  then obtain v k where r: "read_for (chain_of s key) m = Some (v, k)"
    using read_for_None [of "chain_of s key" m] by (cases "read_for (chain_of s key) m") auto
  have "chain_inv (chain_of s key)" using assms(1) by (simp add: mvs_inv_def)
  from read_for_Some [OF this r] x have "n \<le> k" by blast
  with r show ?thesis by (simp add: mvs_read_chain)
qed

locale speculative_vm =
  fixes single :: vm_call
  assumes seq: "single tx s = (r, s') \<Longrightarrow> mvs_inv s \<Longrightarrow> er_tx_seq r = dt_sequence_number tx"
    and keeps_inv: "single tx s = (r, s') \<Longrightarrow> mvs_inv s \<Longrightarrow> mvs_inv s'"
    and reads: "single tx s = (r, s') \<Longrightarrow> mvs_inv s \<Longrightarrow> (key, val, version) \<in> set (er_read_set r) \<Longrightarrow>
      (val, version) = mvs_read s key (dt_sequence_number tx)"
    and writes: "single tx s = (r, s') \<Longrightarrow> mvs_inv s \<Longrightarrow> writes_key r key \<Longrightarrow> live_at s' key (dt_sequence_number tx)"
    and keeps_live: "single tx s = (r, s') \<Longrightarrow> mvs_inv s \<Longrightarrow> live_at s key n \<Longrightarrow> live_at s' key n"
    and adds_pending: "single tx s = (r, s') \<Longrightarrow> mvs_inv s \<Longrightarrow> x \<in> set (chain_of s' key) \<Longrightarrow>
      x \<in> set (chain_of s key) \<or> sv_status x = Pending"
    and keeps_base: "single tx s = (r, s') \<Longrightarrow> mvs_inv s \<Longrightarrow> mv_base s' = mv_base s \<and> mv_jmt s' = mv_jmt s"
begin

lemma run_serial_seqs:
  "run_serial single txs s = (rs, s') \<Longrightarrow> mvs_inv s \<Longrightarrow> map er_tx_seq rs = map dt_sequence_number txs \<and> mvs_inv s'"
proof (induction txs arbitrary: s rs)
  case (Cons tx txs)
  then show ?case using seq keeps_inv by (fastforce simp: Let_def split: prod.splits)
qed simp

text \<open>No result of a serial run has read past a write of the same run, or of the results \<open>before\<close> it.\<close>

lemma run_serial_fresh_reads:
  assumes "run_serial single txs s = (rs, s')" and "mvs_inv s" and "sorted_wrt (<) (map dt_sequence_number txs)"
    and "\<And>w key. w \<in> set before \<Longrightarrow> writes_key w key \<Longrightarrow> live_at s key (er_tx_seq w)"
    and "r \<in> set rs" and "w \<in> set before \<union> set rs" and "er_tx_seq w < er_tx_seq r"
    and "(key, val, version) \<in> set (er_read_set r)" and "writes_key w key"
  shows "er_tx_seq w \<le> version"
  using assms
proof (induction txs arbitrary: s rs "before")
  case (Cons tx txs)
  obtain r1 s1 where one: "single tx s = (r1, s1)" by fastforce
  obtain rs1 where rest: "run_serial single txs s1 = (rs1, s')" and rs: "rs = r1 # rs1"
    using Cons.prems(1) one by (auto simp: Let_def split: prod.splits)
  note inv1 = keeps_inv [OF one Cons.prems(2)]
  have seqs: "er_tx_seq r1 = dt_sequence_number tx" "er_tx_seq ` set rs1 = dt_sequence_number ` set txs"
    using seq [OF one Cons.prems(2)] run_serial_seqs [OF rest inv1] by (simp, metis list.set_map)
  show ?case
  proof (cases "r = r1 \<and> r \<notin> set rs1")
    case True
    have "w \<in> set before"
    proof (rule ccontr)
      assume "w \<notin> set before"
      then have "w \<in> set (r1 # rs1)" using Cons.prems(6) rs by simp
      then have "er_tx_seq w \<in> insert (dt_sequence_number tx) (dt_sequence_number ` set txs)" using seqs by auto
      then have "dt_sequence_number tx \<le> er_tx_seq w" using Cons.prems(3) by fastforce
      with True seqs(1) Cons.prems(7) show False by simp
    qed
    from mvs_read_live [OF Cons.prems(2) Cons.prems(4) [OF this Cons.prems(9)], of "dt_sequence_number tx"]
    have "er_tx_seq w \<le> snd (mvs_read s key (dt_sequence_number tx))"
      using Cons.prems(7) True seqs(1) by simp
    moreover have "(val, version) = mvs_read s key (dt_sequence_number tx)"
      using reads [OF one Cons.prems(2)] Cons.prems(8) True by blast
    ultimately show ?thesis by (metis snd_conv)
  next
    case False
    show ?thesis
    proof (rule Cons.IH [OF rest inv1, of "r1 # before"])
      show "live_at s1 key (er_tx_seq w)" if "w \<in> set (r1 # before)" "writes_key w key" for w key
      proof (cases "w \<in> set before")
        case True
        then show ?thesis using keeps_live [OF one Cons.prems(2)] Cons.prems(4) that(2) by blast
      next
        case False
        with that have "w = r1" by simp
        then show ?thesis using writes [OF one Cons.prems(2)] that(2) seqs(1) by simp
      qed
    qed (use Cons.prems rs False in auto)
  qed
qed simp

lemma run_serial_not_stale:
  assumes "run_serial single txs s = (rs, s')" and "mvs_inv s" and "sorted_wrt (<) (map dt_sequence_number txs)"
    and "r \<in> set rs"
  shows "\<not> stale_read rs c r"
proof
  assume "stale_read rs c r"
  then obtain key val version w where "(key, val, version) \<in> set (er_read_set r)" "w \<in> set rs"
      "writes_key w key" "version < er_tx_seq w" "er_tx_seq w < er_tx_seq r"
    by (auto simp: stale_read_def)
  with run_serial_fresh_reads [OF assms(1-3), of "[]" r w key val version] assms(4) show False by simp
qed

lemma execute_batch_serial:
  assumes inv: "mvs_inv s" and dist: "distinct (map dt_sequence_number txs)"
    and run: "run_serial single (sort_key dt_sequence_number txs) s = (rs, s')"
  shows "execute_batch single config txs s = (rs, commit_all rs s')"
proof (cases "txs = []")
  case True
  with run show ?thesis by (simp add: execute_batch_def commit_all_def)
next
  case False
  let ?ts = "sort_key dt_sequence_number txs" and ?tx_map = "map (\<lambda>tx. (dt_sequence_number tx, tx)) txs"
  let ?results = "map (\<lambda>r. (er_tx_seq r, r)) rs"
  have tx_map: "fold (\<lambda>tx. hm_insert (dt_sequence_number tx) tx) txs [] = ?tx_map"
    using insert_all [OF dist, of "[]"] by simp
  have "distinct (map dt_sequence_number ?ts)"
    using dist mset_eq_imp_distinct_iff [of "map dt_sequence_number ?ts" "map dt_sequence_number txs"] by simp
  then have sorted: "sorted_wrt (<) (map dt_sequence_number ?ts)" by (simp add: strict_sorted_iff)
  have ne: "?ts \<noteq> []" using False by (metis length_0_conv length_sort)
  have seqs: "map er_tx_seq rs = map dt_sequence_number ?ts" using run_serial_seqs [OF run inv] by simp
  then have rs: "distinct (map er_tx_seq rs)" "sort_key er_tx_seq rs = rs"
    using sorted by (simp_all add: strict_sorted_iff sort_key_id_if_sorted)
  have pending: "sort (map fst ?tx_map) = map dt_sequence_number ?ts"
    using sort_map_key [of dt_sequence_number txs] by (simp add: comp_def)
  have par: "execute_parallel single (map dt_sequence_number ?ts) ?tx_map s = (rs, s')"
    using execute_parallel_serial [of ?ts ?tx_map dt_sequence_number single s] get_keyed [OF dist] run by simp
  have results: "fold (\<lambda>r. hm_insert (er_tx_seq r) r) rs [] = ?results" using insert_all [OF rs(1), of "[]"] by simp
  have "val_aborted (validate_batch rs) = [] \<and> val_committed (validate_batch rs) = map er_tx_seq rs"
    using validate_batch_clean [OF rs(1)] run_serial_not_stale [OF run inv sorted] rs(2) by simp
  moreover have "commit_results ?results (map er_tx_seq rs) s' = commit_all rs s'"
    using get_keyed [OF rs(1)] by (intro commit_results_all) simp
  moreover have "map snd ?results = rs" by (simp add: comp_def)
  ultimately have "batch_loop single ?tx_map (Suc (ec_max_retries config)) (map dt_sequence_number ?ts) [] s =
      (?results, commit_all rs s')"
    using ne par results by (simp add: Let_def abort_results_def)
  then show ?thesis
    unfolding execute_batch_def tx_map Let_def pending using False rs(2) by (simp add: comp_def)
qed

end

section \<open>The virtual machine keeps the contract\<close>

lemma record_reads_entry:
  assumes "(key, val, version) \<in> set (record_reads s n keys [])"
  shows "(val, version) = mvs_read s key n"
proof -
  have "(key, val, version) \<in> set (record_reads s n keys m) \<Longrightarrow>
      (key, val, version) \<in> set m \<or> (val, version) = mvs_read s key n" for m
  proof (induction keys arbitrary: m)
    case (Cons k keys)
    then show ?case using set_hm_insert [of k "mvs_read s k n" m] by (auto simp: record_reads_def rs_record_def)
  qed (simp add: record_reads_def)
  with assms show ?thesis by force
qed

lemma chain_after_writes:
  "x \<in> set (chain_of (apply_writes n ws s) key) \<longleftrightarrow>
     (\<exists>val. (key, val) \<in> set ws \<and> x = pending n val) \<or> x \<in> set (chain_of s key)"
  by (force simp: chain_of_apply_writes set_write_values values_for_def)

lemma tracked_are_written: "set (tracked_writes keccak vm s tx block) \<subseteq> set (vm_writes keccak vm s tx block)"
  by (auto simp: tracked_writes_def vm_writes_def)

interpretation ryther: speculative_vm "execute_single keccak vm block"
  for keccak vm block
proof
  fix tx s r s' key val version n x
  assume run: "execute_single keccak vm block tx s = (r, s')" and inv: "mvs_inv s"
  let ?n = "dt_sequence_number tx" and ?ws = "vm_writes keccak vm s tx block"
  consider (fail) e where "vm_check s tx = Some e" | (ok) "vm_check s tx = None" by (cases "vm_check s tx") auto
  note outcome = this
  have s': "s' = s \<or> s' = apply_writes ?n ?ws s"
    using run vm_execute_ok [OF inv] vm_execute_failed [OF inv] by (cases rule: outcome) (auto simp: execute_single_def)
  show "er_tx_seq r = ?n"
    using run vm_execute_ok [OF inv] vm_execute_failed [OF inv] by (cases rule: outcome) (auto simp: execute_single_def)
  show "mvs_inv s'" using s' inv mvs_inv_apply_writes by auto
  show "(val, version) = mvs_read s key ?n" if "(key, val, version) \<in> set (er_read_set r)"
    using that run vm_execute_ok [OF inv] vm_execute_failed [OF inv] record_reads_entry
    by (cases rule: outcome) (auto simp: execute_single_def)
  show "live_at s' key ?n" if "writes_key r key"
  proof (cases rule: outcome)
    case fail
    with that run show ?thesis using vm_execute_failed [OF inv] by (auto simp: execute_single_def writes_key_def)
  next
    case ok
    with run have rs: "er_write_set r = record_writes (tracked_writes keccak vm s tx block) []" "s' = apply_writes ?n ?ws s"
      using vm_execute_ok [OF inv] by (auto simp: execute_single_def)
    then have "key \<in> fst ` set (tracked_writes keccak vm s tx block)"
      using that set_record_writes [of "tracked_writes keccak vm s tx block" "[]"] by (simp add: writes_key_def ws_keys_def)
    then obtain v where "(key, v) \<in> set ?ws" using tracked_are_written by fastforce
    then have "pending ?n v \<in> set (chain_of s' key)" unfolding rs(2) chain_after_writes by blast
    then show ?thesis by (force simp: live_at_def)
  qed
  show "live_at s' key n" if "live_at s key n"
    using that s' by (auto simp: live_at_def chain_after_writes)
  show "x \<in> set (chain_of s key) \<or> sv_status x = Pending" if "x \<in> set (chain_of s' key)"
    using that s' by (auto simp: chain_after_writes)
  show "mv_base s' = mv_base s \<and> mv_jmt s' = mv_jmt s" using s' by auto
qed

section \<open>Committing does not change what is read\<close>

definition no_aborted :: "mvs \<Rightarrow> bool" where
  "no_aborted s \<longleftrightarrow> (\<forall>key. \<forall>x \<in> set (chain_of s key). sv_status x \<noteq> Aborted)"

lemma set_status_committed:
  assumes "\<forall>x \<in> set vs. sv_status x \<noteq> Aborted"
  shows "read_for (set_status Committed n vs) m = read_for vs m" "\<forall>x \<in> set (set_status Committed n vs). sv_status x \<noteq> Aborted"
  using assms by (induction vs) (auto split: tx_status.splits)

lemma mark_committed_same:
  assumes "no_aborted s"
  shows "no_aborted (mvs_mark_committed key n s) \<and> mvs_read (mvs_mark_committed key n s) k m = mvs_read s k m"
proof -
  have base: "mv_base (mvs_mark_committed key n s) = mv_base s"
    by (simp add: mvs_mark_committed_def split: option.split)
  have "\<forall>x \<in> set (chain_of s key). sv_status x \<noteq> Aborted" using assms by (simp add: no_aborted_def)
  from set_status_committed [OF this, of n] assms base show ?thesis
    by (simp add: no_aborted_def mvs_read_chain chain_of_mark_committed chain_mark_committed_def cong: option.case_cong)
qed

lemma commit_write_set_same:
  assumes "no_aborted s" and "mvs_inv s"
  shows "no_aborted (commit_write_set n ws s) \<and> mvs_inv (commit_write_set n ws s) \<and>
    mv_jmt (commit_write_set n ws s) = mv_jmt s \<and> mvs_read (commit_write_set n ws s) k m = mvs_read s k m"
proof -
  have jmt: "mv_jmt (mvs_mark_committed key n t) = mv_jmt t" for key t
    by (simp add: mvs_mark_committed_def split: option.split)
  have "no_aborted t \<Longrightarrow> mvs_inv t \<Longrightarrow>
      no_aborted (fold (\<lambda>key. mvs_mark_committed key n) ks t) \<and> mvs_inv (fold (\<lambda>key. mvs_mark_committed key n) ks t) \<and>
      mv_jmt (fold (\<lambda>key. mvs_mark_committed key n) ks t) = mv_jmt t \<and>
      mvs_read (fold (\<lambda>key. mvs_mark_committed key n) ks t) k m = mvs_read t k m" for ks t
    by (induction ks arbitrary: t) (simp_all add: jmt mark_committed_same mvs_inv_mark)
  with assms show ?thesis by (simp add: commit_write_set_def)
qed

lemma commit_all_same:
  "no_aborted s \<Longrightarrow> mvs_inv s \<Longrightarrow>
     mvs_inv (commit_all rs s) \<and> mv_jmt (commit_all rs s) = mv_jmt s \<and> mvs_read (commit_all rs s) k m = mvs_read s k m"
proof (induction rs arbitrary: s)
  case (Cons r rs)
  note c = commit_write_set_same [OF Cons.prems, of "er_tx_seq r" "er_write_set r"]
  with Cons.IH [of "commit_write_set (er_tx_seq r) (er_write_set r) s"] show ?case by (simp add: commit_all_def)
qed (simp add: commit_all_def)

context speculative_vm begin

lemma run_serial_no_aborted:
  "run_serial single txs s = (rs, s') \<Longrightarrow> mvs_inv s \<Longrightarrow> no_aborted s \<Longrightarrow> no_aborted s' \<and> mv_jmt s' = mv_jmt s"
proof (induction txs arbitrary: s rs)
  case (Cons tx txs)
  obtain r1 s1 where one: "single tx s = (r1, s1)" by fastforce
  obtain rs1 where rest: "run_serial single txs s1 = (rs1, s')"
    using Cons.prems(1) one by (auto simp: Let_def split: prod.splits)
  have "no_aborted s1"
    using adds_pending [OF one Cons.prems(2)] Cons.prems(3) unfolding no_aborted_def by (metis tx_status.distinct(3))
  with Cons.IH [OF rest keeps_inv [OF one Cons.prems(2)]] keeps_base [OF one Cons.prems(2)] show ?case by simp
qed simp

end

section \<open>Properties\<close>

text \<open>Property C3: speculative execution is serializable, and the retries never happen. Whatever the retry
  limit, a batch of transactions with different sequence numbers, in whatever order it is given, yields the
  results and the state of running the transactions one after the other in sequence order, with all their
  write sets marked committed.\<close>

theorem execute_batch_is_serial:
  assumes "mvs_inv s" and "distinct (map dt_sequence_number txs)"
    and "run_serial (execute_single keccak vm block) (sort_key dt_sequence_number txs) s = (rs, s')"
  shows "execute_batch (execute_single keccak vm block) config txs s = (rs, commit_all rs s')"
  using assms by (rule ryther.execute_batch_serial)

theorem execute_batch_is_serial_witness:
  "map er_tx_seq (fst (execute_batch (execute_single mix (vm_new 1) (example_block 3)) (executor_config_default 8)
     [example_transfer 2 1 U256_ONE 0\<lparr>dt_sequence_number := 7\<rparr>, example_transfer 1 2 U256_ONE 30000] example_state)) = [1, 7]"
proof -
  let ?txs = "[example_transfer 2 1 U256_ONE 0\<lparr>dt_sequence_number := 7\<rparr>, example_transfer 1 2 U256_ONE 30000]"
  let ?single = "execute_single mix (vm_new 1) (example_block 3)"
  have d: "distinct (map dt_sequence_number ?txs)" by simp
  have seqs: "map dt_sequence_number (sort_key dt_sequence_number ?txs) = [1, 7]" by (simp add: word_le_nat_alt)
  from execute_batch_is_serial [OF example_state_ok(1) d surjective_pairing]
    ryther.run_serial_seqs [OF surjective_pairing example_state_ok(1)]
  show ?thesis using seqs by (metis fst_conv)
qed

text \<open>Property C8: a block leaves the serial state. Executing a batch on a state between blocks and finalizing
  it succeeds, and every key then has the value that the last of the serially executed transactions left
  there, or its old value where none wrote it.\<close>

theorem block_leaves_serial_state:
  assumes inv: "mvs_inv s" and fresh: "mv_data s = []" and dist: "distinct (map dt_sequence_number txs)"
    and sha: "\<forall>x. length (sha x) = 32" and jmt: "jmt_ok (mv_jmt s)"
    and run: "run_serial (execute_single keccak vm block) (sort_key dt_sequence_number txs) s = (rs, s')"
  shows "\<exists>s''. finalize sha (snd (execute_batch (execute_single keccak vm block) config txs s)) = Inr s'' \<and>
    mv_data s'' = [] \<and> mvs_inv s'' \<and> (\<forall>key. get_base s'' key = fst (mvs_read s' key u64_MAX))"
proof -
  have "no_aborted s" by (simp add: no_aborted_def chain_of_def fresh)
  then have s': "no_aborted s'" "mv_jmt s' = mv_jmt s" "mvs_inv s'"
    using ryther.run_serial_no_aborted [OF run inv] ryther.run_serial_seqs [OF run inv] by auto
  note same = commit_all_same [OF s'(1,3), of rs]
  have "snd (execute_batch (execute_single keccak vm block) config txs s) = commit_all rs s'"
    using ryther.execute_batch_serial [OF inv dist run] by simp
  with finalize_outcome [of "commit_all rs s'" sha] same sha jmt s'(2) show ?thesis by auto
qed

theorem block_leaves_serial_state_witness:
  "\<exists>s''. finalize mix (snd (execute_batch (execute_single mix (vm_new 1) (example_block 3))
     (executor_config_default 8) [example_transfer 1 2 U256_ONE 30000] example_state)) = Inr s'' \<and> mv_data s'' = []"
proof -
  have "mv_data example_state = []" and "jmt_ok (mv_jmt example_state)"
    by (simp_all add: example_state_def mvs_with_base_state_def)
  from block_leaves_serial_state [OF example_state_ok(1) this(1) _ mix_length this(2) surjective_pairing,
      of "[example_transfer 1 2 U256_ONE 30000]" mix "vm_new 1" "example_block 3" "executor_config_default 8"]
  show ?thesis by auto
qed

end
