(* ===== verification/Mempool.thy ===== *)
theory Mempool
  imports Transactions "HOL-Library.Product_Lexorder"
begin

text \<open>
  The transaction pool, \<^verbatim>\<open>src/node/mempool.rs\<close>. The price index, a \<open>BTreeMap\<close>, is an association list in
  ascending key order; its keys are ordered like the Rust tuple of the price (with the derived order of
  \<open>U256\<close>) and the commitment. An \<open>Instant\<close> is a number of nanoseconds, and the current one is an argument.
\<close>

section \<open>Ordered maps\<close>

fun bt_insert :: "'k::linorder \<Rightarrow> 'v \<Rightarrow> ('k \<times> 'v) list \<Rightarrow> ('k \<times> 'v) list" where
  "bt_insert k v [] = [(k, v)]"
| "bt_insert k v ((k', v') # m) =
     (if k < k' then (k, v) # (k', v') # m
      else if k = k' then (k, v) # m
      else (k', v') # bt_insert k v m)"

abbreviation bt_sorted :: "('k::linorder \<times> 'v) list \<Rightarrow> bool" where
  "bt_sorted m \<equiv> sorted_wrt (<) (map fst m)"

lemma set_bt_insert: "k \<notin> fst ` set m \<Longrightarrow> set (bt_insert k v m) = insert (k, v) (set m)"
  by (induction k v m rule: bt_insert.induct) auto

lemma keys_bt_insert: "set (map fst (bt_insert k v m)) = insert k (set (map fst m))"
  by (induction k v m rule: bt_insert.induct) auto

lemma bt_sorted_insert: "bt_sorted m \<Longrightarrow> bt_sorted (bt_insert k v m)"
proof (induction k v m rule: bt_insert.induct)
  case (2 k v k' v' m)
  have below: "\<forall>x \<in> set (map fst m). k' < x" using 2(2) by simp
  consider "k < k'" | "k = k'" | "k' < k" by (rule linorder_cases)
  then show ?case
  proof cases
    case 1
    with 2(2) below show ?thesis by (auto intro: less_trans)
  next
    case 2
    with \<open>bt_sorted ((k', v') # m)\<close> show ?thesis by simp
  next
    case 3
    then have "\<forall>x \<in> set (map fst (bt_insert k v m)). k' < x" using below unfolding keys_bt_insert by simp
    with 3 2(1,2) show ?thesis by auto
  qed
qed simp

lemma bt_sorted_delete: "bt_sorted m \<Longrightarrow> bt_sorted (AList.delete k m)"
  by (induction m) (auto simp: AList.delete_eq)

section \<open>The pool\<close>

record pending_transaction =
  pt_transaction :: encrypted_transaction
  pt_gas_price :: u256
  pt_received_at :: nat
  pt_broadcast_count :: u32

record transaction_pool =
  tp_transactions :: "(bytes, pending_transaction) hmap"
  tp_by_price :: "((u256 \<times> bytes) \<times> bytes) list"
  tp_known :: "bytes hset"
  tp_max_size :: nat
  tp_max_age_secs :: nat

datatype pool_error = AlreadyKnown | PoolFull | GasPriceTooLow | InvalidTransaction string

fun pool_error_text :: "pool_error \<Rightarrow> string" where
  "pool_error_text AlreadyKnown = ''Transaction already known''"
| "pool_error_text PoolFull = ''Transaction pool is full''"
| "pool_error_text GasPriceTooLow = ''Gas price too low''"
| "pool_error_text (InvalidTransaction msg) = ''Invalid transaction: '' @ msg"

definition pool_new :: "nat \<Rightarrow> transaction_pool" where
  "pool_new max_size = \<lparr>tp_transactions = [], tp_by_price = [], tp_known = [], tp_max_size = max_size, tp_max_age_secs = 3600\<rparr>"

definition pool_remove :: "bytes \<Rightarrow> transaction_pool \<Rightarrow> pending_transaction option \<times> transaction_pool" where
  "pool_remove commitment p =
     (case hm_get (tp_transactions p) commitment of
        None \<Rightarrow> (None, p)
      | Some t \<Rightarrow>
          (Some t,
           p\<lparr>tp_transactions := hm_remove commitment (tp_transactions p),
             tp_by_price := AList.delete (pt_gas_price t, commitment) (tp_by_price p)\<rparr>))"

definition evict_lowest :: "u256 \<Rightarrow> transaction_pool \<Rightarrow> bool \<times> transaction_pool" where
  "evict_lowest new_price p =
     (case tp_by_price p of
        [] \<Rightarrow> (False, p)
      | ((price, commitment), _) # _ \<Rightarrow>
          if price < new_price then (True, snd (pool_remove commitment p)) else (False, p))"

definition pool_add ::
    "nat \<Rightarrow> encrypted_transaction \<Rightarrow> u256 \<Rightarrow> transaction_pool \<Rightarrow> (pool_error + unit) \<times> transaction_pool" where
  "pool_add now tx gas_price p =
     (let commitment = et_commitment tx
      in if commitment \<in> set (tp_known p) then (Inl AlreadyKnown, p)
         else
           let (room, p1) = (if tp_max_size p \<le> length (tp_transactions p) then evict_lowest gas_price p else (True, p))
           in if \<not> room then (Inl PoolFull, p1)
              else
                let t = \<lparr>pt_transaction = tx, pt_gas_price = gas_price, pt_received_at = now, pt_broadcast_count = 0\<rparr>
                in (Inr (),
                    p1\<lparr>tp_transactions := hm_insert commitment t (tp_transactions p1),
                       tp_by_price := bt_insert (gas_price, commitment) commitment (tp_by_price p1),
                       tp_known := List.insert commitment (tp_known p1)\<rparr>))"

definition pool_get :: "bytes \<Rightarrow> transaction_pool \<Rightarrow> pending_transaction option" where
  "pool_get commitment p = hm_get (tp_transactions p) commitment"

definition pool_contains :: "bytes \<Rightarrow> transaction_pool \<Rightarrow> bool" where
  "pool_contains commitment p = (commitment \<in> set (tp_known p))"

definition pool_best :: "nat \<Rightarrow> transaction_pool \<Rightarrow> pending_transaction list" where
  "pool_best limit p =
     List.map_filter (\<lambda>commitment. hm_get (tp_transactions p) commitment) (take limit (rev (map snd (tp_by_price p))))"

definition pool_all :: "transaction_pool \<Rightarrow> pending_transaction list" where
  "pool_all p = map snd (tp_transactions p)"

definition pool_len :: "transaction_pool \<Rightarrow> nat" where
  "pool_len p = length (tp_transactions p)"

definition pool_is_empty :: "transaction_pool \<Rightarrow> bool" where
  "pool_is_empty p = (tp_transactions p = [])"

definition prune_expired :: "nat \<Rightarrow> transaction_pool \<Rightarrow> nat \<times> transaction_pool" where
  "prune_expired now p =
     (let max_age = tp_max_age_secs p * 1000000000;
          expired = map fst (filter (\<lambda>(k, t). max_age < now - pt_received_at t) (tp_transactions p))
      in (length expired, fold (\<lambda>commitment p. snd (pool_remove commitment p)) expired p))"

fun mark_included :: "bytes list \<Rightarrow> transaction_pool \<Rightarrow> nat \<times> transaction_pool" where
  "mark_included [] p = (0, p)"
| "mark_included (commitment # commitments) p =
     (let (removed, p1) = pool_remove commitment p; (count, p2) = mark_included commitments p1
      in (if removed = None then count else count + 1, p2))"

definition clear_known :: "transaction_pool \<Rightarrow> transaction_pool" where
  "clear_known p = p\<lparr>tp_known := []\<rparr>"

section \<open>Invariant\<close>

text \<open>The price index lists exactly the transactions of the pool, all of them are known, and the pool is no
  larger than its limit.\<close>

definition index_ok :: "transaction_pool \<Rightarrow> bool" where
  "index_ok p \<longleftrightarrow> (\<forall>price c d. ((price, c), d) \<in> set (tp_by_price p) \<longleftrightarrow>
     d = c \<and> (\<exists>t. hm_get (tp_transactions p) c = Some t \<and> pt_gas_price t = price))"

definition pool_inv :: "transaction_pool \<Rightarrow> bool" where
  "pool_inv p \<longleftrightarrow> hm_wf (tp_transactions p) \<and> bt_sorted (tp_by_price p) \<and> index_ok p \<and>
     (\<forall>c t. hm_get (tp_transactions p) c = Some t \<longrightarrow> et_commitment (pt_transaction t) = c \<and> c \<in> set (tp_known p)) \<and>
     length (tp_transactions p) \<le> tp_max_size p"

lemma pool_inv_new: "pool_inv (pool_new n)"
  by (simp add: pool_inv_def pool_new_def index_ok_def)

lemma index_ok_remove:
  assumes "index_ok p" and "hm_get (tp_transactions p) c = Some t"
  shows "index_ok (p\<lparr>tp_transactions := hm_remove c (tp_transactions p), tp_by_price := AList.delete (pt_gas_price t, c) (tp_by_price p)\<rparr>)"
  unfolding index_ok_def
proof (intro allI)
  fix price c' d
  show "((price, c'), d) \<in> set (tp_by_price (p\<lparr>tp_transactions := hm_remove c (tp_transactions p),
        tp_by_price := AList.delete (pt_gas_price t, c) (tp_by_price p)\<rparr>)) \<longleftrightarrow>
      d = c' \<and> (\<exists>u. hm_get (tp_transactions (p\<lparr>tp_transactions := hm_remove c (tp_transactions p),
        tp_by_price := AList.delete (pt_gas_price t, c) (tp_by_price p)\<rparr>)) c' = Some u \<and> pt_gas_price u = price)"
    using assms(1) [unfolded index_ok_def, THEN spec, THEN spec, THEN spec, of price c' d] assms(2)
    by (cases "c' = c") (auto simp: set_hm_remove hm_lookup)
qed

lemma pool_remove_ok:
  assumes inv: "pool_inv p"
  shows "pool_inv (snd (pool_remove c p)) \<and> tp_known (snd (pool_remove c p)) = tp_known p \<and>
    tp_max_size (snd (pool_remove c p)) = tp_max_size p \<and> fst (pool_remove c p) = hm_get (tp_transactions p) c \<and>
    (\<forall>k. hm_get (tp_transactions (snd (pool_remove c p))) k = (if k = c then None else hm_get (tp_transactions p) k)) \<and>
    (hm_get (tp_transactions p) c \<noteq> None \<longrightarrow> Suc (length (tp_transactions (snd (pool_remove c p)))) = length (tp_transactions p))"
proof (cases "hm_get (tp_transactions p) c")
  case None
  with inv show ?thesis by (simp add: pool_remove_def)
next
  case (Some t)
  note I = inv [unfolded pool_inv_def]
  have len: "Suc (length (hm_remove c (tp_transactions p))) = length (tp_transactions p)"
    using hm_remove_length [of "tp_transactions p" c] I Some length_pos_if_in_set [OF map_of_SomeD [OF Some]] by auto
  let ?q = "p\<lparr>tp_transactions := hm_remove c (tp_transactions p), tp_by_price := AList.delete (pt_gas_price t, c) (tp_by_price p)\<rparr>"
  have "pool_inv ?q"
    using I len index_ok_remove [OF _ Some] unfolding pool_inv_def
    by (auto simp: bt_sorted_delete distinct_delete hm_lookup split: if_splits)
  with Some len show ?thesis by (simp add: pool_remove_def hm_lookup)
qed

lemma index_entry:
  assumes "pool_inv p" and "((price, c), d) \<in> set (tp_by_price p)"
  obtains t where "hm_get (tp_transactions p) c = Some t" "pt_gas_price t = price" "d = c"
  using assms unfolding pool_inv_def index_ok_def by blast

text \<open>The head of the index is the transaction with the smallest price, among those the one with the
  smallest commitment.\<close>

lemma index_head:
  assumes inv: "pool_inv p" and idx: "tp_by_price p = ((price, c), d) # rest"
    and t: "hm_get (tp_transactions p) c' = Some t"
  shows "price \<le> pt_gas_price t"
proof -
  have "((pt_gas_price t, c'), c') \<in> set (tp_by_price p)" using inv t unfolding pool_inv_def index_ok_def by blast
  then have "(pt_gas_price t, c') \<in> set (map fst (tp_by_price p))" by force
  moreover have "bt_sorted (tp_by_price p)" using inv by (simp add: pool_inv_def)
  ultimately have "(price, c) \<le> (pt_gas_price t, c')" by (auto simp: idx)
  then show ?thesis by (auto simp: less_eq_prod_def)
qed

definition pending_tx :: "nat \<Rightarrow> encrypted_transaction \<Rightarrow> u256 \<Rightarrow> pending_transaction" where
  "pending_tx now tx gas_price =
     \<lparr>pt_transaction = tx, pt_gas_price = gas_price, pt_received_at = now, pt_broadcast_count = 0\<rparr>"

lemma pool_insert_ok:
  assumes inv: "pool_inv p" and new: "et_commitment tx \<notin> set (tp_known p)" and room: "length (tp_transactions p) < tp_max_size p"
  defines "c \<equiv> et_commitment tx"
  shows "pool_inv (p\<lparr>tp_transactions := hm_insert c (pending_tx now tx price) (tp_transactions p),
    tp_by_price := bt_insert (price, c) c (tp_by_price p), tp_known := List.insert c (tp_known p)\<rparr>)"
proof -
  note I = inv [unfolded pool_inv_def]
  have fresh: "hm_get (tp_transactions p) c = None" using I new unfolding c_def by (metis option.exhaust)
  have "(price', c) \<notin> fst ` set (tp_by_price p)" for price'
    using index_entry [OF inv] fresh by (metis (no_types, lifting) imageE option.distinct(1) prod.collapse)
  note idx = set_bt_insert [OF this]
  let ?q = "p\<lparr>tp_transactions := hm_insert c (pending_tx now tx price) (tp_transactions p),
    tp_by_price := bt_insert (price, c) c (tp_by_price p), tp_known := List.insert c (tp_known p)\<rparr>"
  have "index_ok ?q"
    unfolding index_ok_def
  proof (intro allI)
    fix price' c' d
    show "((price', c'), d) \<in> set (tp_by_price ?q) \<longleftrightarrow>
        d = c' \<and> (\<exists>t. hm_get (tp_transactions ?q) c' = Some t \<and> pt_gas_price t = price')"
      using I fresh unfolding index_ok_def by (cases "c' = c") (auto simp: idx hm_lookup pending_tx_def)
  qed
  moreover have "length (hm_insert c (pending_tx now tx price) (tp_transactions p)) = Suc (length (tp_transactions p))"
    using fresh by (simp add: hm_insert_new)
  ultimately show ?thesis
    using I room unfolding pool_inv_def by (auto simp: bt_sorted_insert hm_lookup pending_tx_def c_def split: if_splits)
qed

text \<open>The three ways of an addition: the transaction is known, there is room, or the cheapest one has to go.\<close>

lemma pool_add_cases:
  assumes inv: "pool_inv p" and add: "pool_add now tx price p = (res, p')"
  obtains (known) "et_commitment tx \<in> set (tp_known p)" "res = Inl AlreadyKnown" "p' = p"
  | (full) "et_commitment tx \<notin> set (tp_known p)" "res = Inl PoolFull" "p' = p" "tp_max_size p \<le> length (tp_transactions p)"
      "\<And>c t. hm_get (tp_transactions p) c = Some t \<Longrightarrow> \<not> pt_gas_price t < price"
  | (room) "et_commitment tx \<notin> set (tp_known p)" "res = Inr ()" "length (tp_transactions p) < tp_max_size p"
      "\<And>k. hm_get (tp_transactions p') k = (if k = et_commitment tx then Some (pending_tx now tx price) else hm_get (tp_transactions p) k)"
  | (evicted) c t where "et_commitment tx \<notin> set (tp_known p)" "res = Inr ()" "tp_max_size p \<le> length (tp_transactions p)"
      "hm_get (tp_transactions p) c = Some t" "pt_gas_price t < price"
      "\<And>c' t'. hm_get (tp_transactions p) c' = Some t' \<Longrightarrow> pt_gas_price t \<le> pt_gas_price t'"
      "\<And>k. hm_get (tp_transactions p') k =
         (if k = et_commitment tx then Some (pending_tx now tx price) else if k = c then None else hm_get (tp_transactions p) k)"
proof (cases "et_commitment tx \<in> set (tp_known p)")
  case True
  with add show thesis by (intro known) (simp_all add: pool_add_def Let_def)
next
  case new: False
  show thesis
  proof (cases "tp_max_size p \<le> length (tp_transactions p)")
    case False
    then show thesis using add new by (intro room) (auto simp: pool_add_def Let_def pending_tx_def hm_lookup)
  next
    case is_full: True
    show thesis
    proof (cases "tp_by_price p")
      case Nil
      then have "hm_get (tp_transactions p) c \<noteq> Some t" for c t
        using inv unfolding pool_inv_def index_ok_def by fastforce
      with Nil is_full new add show thesis by (intro full) (auto simp: pool_add_def Let_def evict_lowest_def)
    next
      case (Cons e rest)
      obtain low c d where e: "e = ((low, c), d)" by (metis prod.collapse)
      note min = index_head [OF inv Cons [unfolded e]]
      show thesis
      proof (cases "low < price")
        case False
        with Cons e is_full new add min show thesis
          by (intro full) (auto simp: pool_add_def Let_def evict_lowest_def dest: less_le_trans le_less_trans)
      next
        case True
        obtain t where t: "hm_get (tp_transactions p) c = Some t" "pt_gas_price t = low"
          using index_entry [OF inv, of low c d] Cons e by auto
        have "hm_get (tp_transactions (snd (pool_remove c p))) k = (if k = c then None else hm_get (tp_transactions p) k)" for k
          using pool_remove_ok [OF inv] by blast
        with Cons e is_full new add min True t show thesis
          by (intro evicted [of c t]) (auto simp: pool_add_def Let_def evict_lowest_def pending_tx_def hm_lookup)
      qed
    qed
  qed
qed

lemma pool_inv_add:
  assumes inv: "pool_inv p"
  shows "pool_inv (snd (pool_add now tx price p))"
proof (cases "et_commitment tx \<in> set (tp_known p)")
  case True
  with inv show ?thesis by (simp add: pool_add_def)
next
  case new: False
  show ?thesis
  proof (cases "tp_max_size p \<le> length (tp_transactions p)")
    case False
    with new pool_insert_ok [OF inv new, where now = now and price = price] show ?thesis by (simp add: pool_add_def Let_def pending_tx_def)
  next
    case is_full: True
    show ?thesis
    proof (cases "tp_by_price p")
      case Nil
      with inv new is_full show ?thesis by (simp add: pool_add_def Let_def evict_lowest_def)
    next
      case (Cons e rest)
      obtain low c d where e: "e = ((low, c), d)" by (metis prod.collapse)
      obtain t where t: "hm_get (tp_transactions p) c = Some t" using index_entry [OF inv, of low c d] Cons e by auto
      let ?q = "snd (pool_remove c p)"
      have q: "pool_inv ?q" "tp_known ?q = tp_known p" "tp_max_size ?q = tp_max_size p"
          "Suc (length (tp_transactions ?q)) = length (tp_transactions p)"
        using pool_remove_ok [OF inv, of c] t by auto
      moreover have "length (tp_transactions p) \<le> tp_max_size p" using inv by (simp add: pool_inv_def)
      ultimately have "length (tp_transactions ?q) < tp_max_size ?q" by simp
      with pool_insert_ok [OF q(1), where tx = tx and now = now and price = price] new q(2) inv is_full Cons e show ?thesis
        by (simp add: pool_add_def Let_def evict_lowest_def pending_tx_def)
    qed
  qed
qed

lemma pool_inv_remove_all:
  "pool_inv p \<Longrightarrow> pool_inv (fold (\<lambda>commitment p. snd (pool_remove commitment p)) cs p)"
proof (induction cs arbitrary: p)
  case (Cons c cs)
  then show ?case using pool_remove_ok [of p c] by simp
qed simp

lemma mark_included_pool: "snd (mark_included cs p) = fold (\<lambda>commitment p. snd (pool_remove commitment p)) cs p"
  by (induction cs arbitrary: p) (simp_all add: Let_def split_beta)

section \<open>Runs of operations\<close>

datatype pool_op =
    PAdd nat encrypted_transaction u256
  | PRemove bytes
  | PPrune nat
  | PInclude "bytes list"

fun pool_step :: "pool_op \<Rightarrow> transaction_pool \<Rightarrow> transaction_pool" where
  "pool_step (PAdd now tx gas_price) p = snd (pool_add now tx gas_price p)"
| "pool_step (PRemove commitment) p = snd (pool_remove commitment p)"
| "pool_step (PPrune now) p = snd (prune_expired now p)"
| "pool_step (PInclude commitments) p = snd (mark_included commitments p)"

lemma pool_inv_step: "pool_inv p \<Longrightarrow> pool_inv (pool_step op p)"
  using pool_inv_add pool_remove_ok pool_inv_remove_all
  by (cases op) (auto simp: prune_expired_def mark_included_pool Let_def)

interpretation pool: component pool_step pool_inv
  by unfold_locales (rule pool_inv_step)

lemma pool_max_size_remove: "tp_max_size (snd (pool_remove c p)) = tp_max_size p"
  by (simp add: pool_remove_def split: option.split)

lemma pool_max_size_run: "tp_max_size (fold pool_step ops p) = tp_max_size p"
proof -
  have "tp_max_size (fold (\<lambda>commitment p. snd (pool_remove commitment p)) cs q) = tp_max_size q" for cs q
    by (induction cs arbitrary: q) (simp_all add: pool_max_size_remove)
  then have "tp_max_size (pool_step op q) = tp_max_size q" for op q
    by (cases op) (auto simp: pool_add_def evict_lowest_def prune_expired_def mark_included_pool pool_max_size_remove Let_def
        split: list.split prod.split)
  then show ?thesis by (induction ops arbitrary: p) simp_all
qed

text \<open>The transactions in index order.\<close>

lemma pool_best_index:
  assumes inv: "pool_inv p"
  shows "map (\<lambda>t. (pt_gas_price t, et_commitment (pt_transaction t))) (pool_best limit p) = take limit (rev (map fst (tp_by_price p)))"
proof -
  have "map (\<lambda>t. (pt_gas_price t, et_commitment (pt_transaction t)))
      (List.map_filter (\<lambda>c. hm_get (tp_transactions p) c) (map snd es)) = map fst es" if "set es \<subseteq> set (tp_by_price p)" for es
    using that
  proof (induction es)
    case (Cons e es)
    obtain price c d where e: "e = ((price, c), d)" by (metis prod.collapse)
    then obtain t where "hm_get (tp_transactions p) c = Some t" "pt_gas_price t = price" "d = c"
      using index_entry [OF inv, of price c d] Cons.prems by auto
    moreover have "et_commitment (pt_transaction t) = c" using inv calculation(1) unfolding pool_inv_def by blast
    ultimately show ?case using Cons e by (simp add: List.map_filter_simps)
  qed (simp add: List.map_filter_simps)
  from this [of "take limit (rev (tp_by_price p))"] show ?thesis
    using set_take_subset [of limit "rev (tp_by_price p)"] by (simp add: pool_best_def rev_map take_map)
qed

lemma index_of:
  assumes "pool_inv p" and "hm_get (tp_transactions p) c = Some t"
  shows "((pt_gas_price t, c), c) \<in> set (tp_by_price p)"
proof -
  have "index_ok p" using assms(1) by (simp add: pool_inv_def)
  from this [unfolded index_ok_def, THEN spec, THEN spec, THEN spec, of "pt_gas_price t" c c] assms(2) show ?thesis by blast
qed

lemma pool_index_length:
  assumes inv: "pool_inv p"
  shows "length (tp_by_price p) = pool_len p"
proof -
  let ?ks = "map fst (tp_by_price p)" and ?f = "\<lambda>(c, t). (pt_gas_price t, c)"
  have wf: "hm_wf (tp_transactions p)" using inv by (simp add: pool_inv_def)
  have "set ?ks = ?f ` set (tp_transactions p)"
  proof (intro set_eqI iffI)
    fix k assume "k \<in> set ?ks"
    then obtain price c d where k: "k = (price, c)" "((price, c), d) \<in> set (tp_by_price p)" by auto
    obtain t where "hm_get (tp_transactions p) c = Some t" "pt_gas_price t = price" by (rule index_entry [OF inv k(2)])
    then show "k \<in> ?f ` set (tp_transactions p)" using k(1) by (force dest: map_of_SomeD)
  next
    fix k assume "k \<in> ?f ` set (tp_transactions p)"
    then obtain c t where ct: "(c, t) \<in> set (tp_transactions p)" "k = (pt_gas_price t, c)" by auto
    from index_of [OF inv map_of_is_SomeI [OF wf ct(1)]] ct(2) show "k \<in> set ?ks" by force
  qed
  moreover have "inj_on ?f (set (tp_transactions p))"
    using wf by (auto simp: inj_on_def dest: eq_key_imp_eq_value)
  ultimately have "card (set ?ks) = card (set (tp_transactions p))" by (simp add: card_image del: set_map)
  moreover have "distinct ?ks" using inv by (simp add: pool_inv_def strict_sorted_iff)
  moreover have "distinct (tp_transactions p)" using wf by (simp add: distinct_map)
  ultimately show ?thesis using distinct_card [of ?ks] distinct_card [of "tp_transactions p"] by (simp add: pool_len_def)
qed

text \<open>All public operations. \<open>clear_known\<close>, which the source has for its tests, forgets which commitments are in the
  pool; it keeps the invariant only while the pool is empty.\<close>

datatype pool_call = POp pool_op | PClearKnown

fun call_step :: "pool_call \<Rightarrow> transaction_pool \<Rightarrow> transaction_pool" where
  "call_step (POp op) p = pool_step op p"
| "call_step PClearKnown p = clear_known p"

fun clears_when_empty :: "pool_call list \<Rightarrow> transaction_pool \<Rightarrow> bool" where
  "clears_when_empty [] p = True"
| "clears_when_empty (call # calls) p =
     ((call = PClearKnown \<longrightarrow> pool_is_empty p) \<and> clears_when_empty calls (call_step call p))"

lemma call_step_inv: "pool_inv p \<Longrightarrow> call = PClearKnown \<longrightarrow> pool_is_empty p \<Longrightarrow> pool_inv (call_step call p)"
proof (cases call)
  case PClearKnown
  then show "pool_inv p \<Longrightarrow> call = PClearKnown \<longrightarrow> pool_is_empty p \<Longrightarrow> ?thesis"
    by (simp add: pool_inv_def pool_is_empty_def clear_known_def index_ok_def)
qed (simp add: pool_inv_step)

lemma call_step_max_size: "tp_max_size (call_step call p) = tp_max_size p"
proof (cases call)
  case (POp op)
  then show ?thesis using pool_max_size_run [of "[op]" p] by simp
qed (simp add: clear_known_def)

lemma calls_inv:
  "pool_inv p \<Longrightarrow> clears_when_empty calls p \<Longrightarrow>
     pool_inv (fold call_step calls p) \<and> tp_max_size (fold call_step calls p) = tp_max_size p"
  by (induction calls arbitrary: p) (simp_all add: call_step_inv call_step_max_size)

section \<open>Properties\<close>

text \<open>Property C21: the pool keeps its bound and its index. After any sequence of additions, removals,
  inclusions and expiries on a fresh pool, in which the known set is cleared only while the pool is empty, there are at
  most \<open>max_size\<close> transactions, each filed under its own commitment, and the price index holds exactly one
  entry per transaction, in strictly ascending order.\<close>

theorem pool_bounded_and_indexed:
  assumes "clears_when_empty calls (pool_new max_size)"
  shows "pool_inv (fold call_step calls (pool_new max_size)) \<and> pool_len (fold call_step calls (pool_new max_size)) \<le> max_size \<and>
    length (tp_by_price (fold call_step calls (pool_new max_size))) = pool_len (fold call_step calls (pool_new max_size))"
proof -
  have p: "pool_inv (fold call_step calls (pool_new max_size))" "tp_max_size (fold call_step calls (pool_new max_size)) = max_size"
    using calls_inv [OF pool_inv_new assms] by (simp_all add: pool_new_def)
  then show ?thesis using pool_index_length [OF p(1)] by (simp add: pool_inv_def [of "fold _ _ _"] pool_len_def)
qed

text \<open>The best transactions. \<open>best\<close> returns as many transactions as asked for or as there are, in
  strictly descending order of price and commitment, and every transaction it leaves out is below all it
  returns.\<close>

theorem pool_best_is_best:
  assumes inv: "pool_inv p"
  defines "key \<equiv> \<lambda>t. (pt_gas_price t, et_commitment (pt_transaction t))"
  shows "length (pool_best limit p) = min limit (pool_len p) \<and> sorted_wrt (\<lambda>a b. key b < key a) (pool_best limit p) \<and>
    (\<forall>c t. pool_get c p = Some t \<longrightarrow> t \<in> set (pool_best limit p) \<or> (\<forall>b \<in> set (pool_best limit p). key t < key b))"
proof -
  let ?ks = "map fst (tp_by_price p)"
  note best = pool_best_index [OF inv, of limit, folded key_def]
  have sorted: "sorted_wrt (>) (rev ?ks)" using inv by (simp add: pool_inv_def sorted_wrt_rev)
  note card = pool_index_length [OF inv]
  have "length (pool_best limit p) = min limit (pool_len p)"
    using arg_cong [OF best, of length] card by simp
  moreover have "sorted_wrt (>) (map key (pool_best limit p))" unfolding best using sorted by (rule sorted_wrt_take)
  then have "sorted_wrt (\<lambda>a b. key b < key a) (pool_best limit p)" by (simp add: sorted_wrt_map)
  moreover have "t \<in> set (pool_best limit p) \<or> (\<forall>b \<in> set (pool_best limit p). key t < key b)" if t: "pool_get c p = Some t" for c t
  proof -
    have c: "et_commitment (pt_transaction t) = c" using inv t by (auto simp: pool_inv_def pool_get_def)
    have "key t \<in> set (rev ?ks)" using index_of [OF inv t [unfolded pool_get_def]] c by (force simp: key_def)
    then consider "key t \<in> set (take limit (rev ?ks))" | "key t \<in> set (drop limit (rev ?ks))"
      by (metis Un_iff append_take_drop_id set_append)
    then show ?thesis
    proof cases
      case 1
      then have "key t \<in> key ` set (pool_best limit p)" using best by (metis set_map)
      then obtain b where b: "b \<in> set (pool_best limit p)" "key t = key b" by auto
      then obtain c' where "hm_get (tp_transactions p) c' = Some b" by (auto simp: pool_best_def set_map_filter)
      moreover have "c' = c" using inv calculation b(2) c by (auto simp: pool_inv_def key_def)
      ultimately show ?thesis using b(1) t by (simp add: pool_get_def)
    next
      case 2
      have "sorted_wrt (>) (take limit (rev ?ks) @ drop limit (rev ?ks))" using sorted by simp
      then have "\<forall>x \<in> set (take limit (rev ?ks)). key t < x" using 2 unfolding sorted_wrt_append by blast
      then have "\<forall>x \<in> key ` set (pool_best limit p). key t < x" using best by (metis set_map)
      then show ?thesis by simp
    qed
  qed
  ultimately show ?thesis by blast
qed

definition example_encrypted :: "u8 \<Rightarrow> encrypted_transaction" where
  "example_encrypted i = \<lparr>et_ciphertext = [i], et_capsule = \<lparr>ephemeral_pubkey = [], encrypted_shares = []\<rparr>,
     et_commitment = replicate 32 i\<rparr>"

definition example_pool :: transaction_pool where
  "example_pool = fold pool_step [PAdd 0 (example_encrypted 1) (u256_from_u64 5), PAdd 0 (example_encrypted 2) (u256_from_u64 9)] (pool_new 2)"

text \<open>A pool of size 1: the known set is cleared once the first transaction is included, which can then come again; the
  third one takes its place.\<close>

theorem pool_bounded_and_indexed_witness:
  "let calls = [POp (PAdd 0 (example_encrypted 1) (u256_from_u64 5)), POp (PInclude [replicate 32 1]), PClearKnown,
       POp (PAdd 1 (example_encrypted 1) (u256_from_u64 7)), POp (PAdd 2 (example_encrypted 2) (u256_from_u64 8))]
   in clears_when_empty calls (pool_new 1) \<and> pool_get (replicate 32 2) (fold call_step calls (pool_new 1)) \<noteq> None \<and>
     length (tp_by_price (fold call_step calls (pool_new 1))) = pool_len (fold call_step calls (pool_new 1)) \<and>
     pool_len (fold call_step calls (pool_new 1)) \<le> 1"
proof -
  let ?calls = "[POp (PAdd 0 (example_encrypted 1) (u256_from_u64 5)), POp (PInclude [replicate 32 1]), PClearKnown,
       POp (PAdd 1 (example_encrypted 1) (u256_from_u64 7)), POp (PAdd 2 (example_encrypted 2) (u256_from_u64 8))]"
  have c: "clears_when_empty ?calls (pool_new 1)" by code_simp
  moreover have "pool_get (replicate 32 2) (fold call_step ?calls (pool_new 1)) \<noteq> None" by code_simp
  ultimately show ?thesis using pool_bounded_and_indexed [OF c] unfolding Let_def by blast
qed

text \<open>Cleared while transactions are pending, the pool loses its index and its bound. A commitment that is added again
  at another price leaves the old entry in the index. Once the transaction is gone, evicting this entry removes nothing,
  and the pool of size 2 has three transactions.\<close>

theorem clear_known_breaks_bound:
  "let start = [POp (PAdd 0 (example_encrypted 1) (u256_from_u64 5)), PClearKnown, POp (PAdd 0 (example_encrypted 1) (u256_from_u64 9))];
       more = [POp (PAdd 0 (example_encrypted 2) (u256_from_u64 7)), POp (PAdd 0 (example_encrypted 3) (u256_from_u64 8)),
         POp (PAdd 0 (example_encrypted 4) (u256_from_u64 10))]
   in pool_len (fold call_step start (pool_new 2)) = 1 \<and> length (tp_by_price (fold call_step start (pool_new 2))) = 2 \<and>
     pool_len (fold call_step (start @ more) (pool_new 2)) = 3"
  by code_simp

theorem pool_best_is_best_witness:
  "length (pool_best 1 example_pool) = 1 \<and> map pt_gas_price (pool_best 1 example_pool) = [u256_from_u64 9]"
proof -
  have "pool_inv example_pool" unfolding example_pool_def by (rule pool.run_inv [OF pool_inv_new])
  from pool_best_is_best [OF this, of 1] have "length (pool_best 1 example_pool) = min 1 (pool_len example_pool)" by blast
  moreover have "pool_len example_pool = 2" "map pt_gas_price (pool_best 1 example_pool) = [u256_from_u64 9]" by code_simp+
  ultimately show ?thesis by simp
qed

text \<open>The admission rule. A transaction whose commitment is known is refused; otherwise it is
  admitted if there is room, or if the cheapest transaction of the pool costs less, which then has to leave;
  otherwise the pool is full and unchanged. Nothing else in the pool changes.\<close>

theorem pool_admission_rule:
  assumes inv: "pool_inv p" and add: "pool_add now tx price p = (res, p')"
  shows "case res of
      Inl e \<Rightarrow> p' = p \<and>
        (if pool_contains (et_commitment tx) p then e = AlreadyKnown
         else e = PoolFull \<and> tp_max_size p \<le> pool_len p \<and> (\<forall>c t. pool_get c p = Some t \<longrightarrow> price \<le> pt_gas_price t))
    | Inr _ \<Rightarrow> \<not> pool_contains (et_commitment tx) p \<and> pool_get (et_commitment tx) p' = Some (pending_tx now tx price) \<and>
        (if pool_len p < tp_max_size p
         then \<forall>c. c \<noteq> et_commitment tx \<longrightarrow> pool_get c p' = pool_get c p
         else \<exists>v t. pool_get v p = Some t \<and> pt_gas_price t < price \<and>
           (\<forall>c u. pool_get c p = Some u \<longrightarrow> pt_gas_price t \<le> pt_gas_price u) \<and>
           (\<forall>c. c \<noteq> et_commitment tx \<longrightarrow> pool_get c p' = (if c = v then None else pool_get c p)))"
  using inv add
proof (cases rule: pool_add_cases)
  case known
  then show ?thesis by (simp add: pool_contains_def)
next
  case full
  then show ?thesis by (auto simp: pool_contains_def pool_len_def pool_get_def not_less)
next
  case room
  then show ?thesis by (simp add: pool_contains_def pool_len_def pool_get_def)
next
  case (evicted v t)
  then have "pool_get v p = Some t \<and> pt_gas_price t < price \<and>
      (\<forall>c u. pool_get c p = Some u \<longrightarrow> pt_gas_price t \<le> pt_gas_price u) \<and>
      (\<forall>c. c \<noteq> et_commitment tx \<longrightarrow> pool_get c p' = (if c = v then None else pool_get c p))"
    by (simp add: pool_get_def)
  then have ex: "\<exists>v t. pool_get v p = Some t \<and> pt_gas_price t < price \<and>
      (\<forall>c u. pool_get c p = Some u \<longrightarrow> pt_gas_price t \<le> pt_gas_price u) \<and>
      (\<forall>c. c \<noteq> et_commitment tx \<longrightarrow> pool_get c p' = (if c = v then None else pool_get c p))" by blast
  have "\<not> pool_len p < tp_max_size p" "\<not> pool_contains (et_commitment tx) p" "pool_get (et_commitment tx) p' = Some (pending_tx now tx price)"
    using evicted by (simp_all add: pool_contains_def pool_len_def pool_get_def)
  with ex evicted(2) show ?thesis by (simp only: sum.case if_False simp_thms)
qed

theorem pool_admission_rule_witness:
  "pool_get (replicate 32 3) (snd (pool_add 7 (example_encrypted 3) (u256_from_u64 6) example_pool)) =
     Some (pending_tx 7 (example_encrypted 3) (u256_from_u64 6))"
proof -
  have "pool_inv example_pool" unfolding example_pool_def by (rule pool.run_inv [OF pool_inv_new])
  moreover have "fst (pool_add 7 (example_encrypted 3) (u256_from_u64 6) example_pool) = Inr ()" by code_simp
  ultimately show ?thesis
    using pool_admission_rule [of example_pool 7 "example_encrypted 3" "u256_from_u64 6", OF _ surjective_pairing]
    by (simp add: example_encrypted_def)
qed

text \<open>Prices are compared with the derived order of the limbs, lowest limb first: in a full pool a price of
  2^64 gives way to a price of 1. The transaction that was driven out stays known and cannot come back.\<close>

theorem high_price_evicted_by_low_price:
  "let p = snd (pool_add 0 (example_encrypted 1) (U256 0 1 0 0) (pool_new 1));
       (res, p') = pool_add 0 (example_encrypted 2) U256_ONE p
   in u256_val U256_ONE < u256_val (U256 0 1 0 0) \<and> res = Inr () \<and> pool_get (replicate 32 1) p' = None \<and>
      fst (pool_add 0 (example_encrypted 1) (U256 0 1 0 0) p') = Inl AlreadyKnown"
proof -
  have v: "u256_val U256_ONE < u256_val (U256 0 1 0 0)" by (simp add: u256_val_def U256_ONE_def)
  have "case pool_add 0 (example_encrypted 2) U256_ONE (snd (pool_add 0 (example_encrypted 1) (U256 0 1 0 0) (pool_new 1))) of
      (res, p') \<Rightarrow> res = Inr () \<and> pool_get (replicate 32 1) p' = None \<and>
        fst (pool_add 0 (example_encrypted 1) (U256 0 1 0 0) p') = Inl AlreadyKnown" by code_simp
  with v show ?thesis by (simp only: Let_def split: prod.splits) simp
qed

end
