(* ===== verification/Socket_Addr.thy ===== *)
theory Socket_Addr
  imports Text_Format
begin

text \<open>
  Socket addresses as the Rust standard library has them: \<open>std::net::SocketAddr\<close>, its parser (\<open>FromStr\<close>) and
  its text form (\<open>Display\<close>). The node reads its bootstrap peers with the parser and hashes the text form of an
  accepted connection's address. A reader takes the text and returns what it read with the rest; where it fails, the
  caller goes on with the text it had.
\<close>

datatype socket_addr =
    SocketV4 (octets: bytes) (port: u16)
  | SocketV6 (segments: "u16 list") (port: u16) (flowinfo: u32) (scope_id: u32)

type_synonym 'a reader = "string \<Rightarrow> ('a \<times> string) option"

section \<open>Parsing\<close>

definition read_given_char :: "char \<Rightarrow> string \<Rightarrow> string option" where
  "read_given_char target s = (case s of c # s \<Rightarrow> if c = target then Some s else None | [] \<Rightarrow> None)"

definition read_separator :: "char \<Rightarrow> nat \<Rightarrow> 'a reader \<Rightarrow> 'a reader" where
  "read_separator sep index inner s =
     (if 0 < index then Option.bind (read_given_char sep s) inner else inner s)"

definition is_digit :: "nat \<Rightarrow> char \<Rightarrow> bool" where
  "is_digit radix c \<longleftrightarrow> to_digit radix c \<noteq> None"

text \<open>The digits are read as far as they go; \<open>bound\<close> is one more than the largest value of the type.\<close>

definition read_number :: "nat \<Rightarrow> nat option \<Rightarrow> bool \<Rightarrow> nat \<Rightarrow> nat reader" where
  "read_number radix max_digits allow_zero_prefix bound s =
     (let digits = takeWhile (is_digit radix) s; rest = dropWhile (is_digit radix) s
      in if digits = [] then None
         else if (case max_digits of Some m \<Rightarrow> m < length digits | None \<Rightarrow> False) then None
         else if \<not> allow_zero_prefix \<and> hd digits = CHR ''0'' \<and> 1 < length digits then None
         else (case parse_digits radix 0 digits of
                 Some v \<Rightarrow> if v < bound then Some (v, rest) else None
               | None \<Rightarrow> None))"

abbreviation read_octet :: "nat reader" where
  "read_octet \<equiv> read_number 10 (Some 3) False 256"

abbreviation read_group :: "nat reader" where
  "read_group \<equiv> read_number 16 (Some 4) True 65536"

fun read_octets :: "nat \<Rightarrow> nat \<Rightarrow> bytes reader" where
  "read_octets i 0 s = Some ([], s)"
| "read_octets i (Suc k) s =
     (case read_separator (CHR ''.'') i read_octet s of
        None \<Rightarrow> None
      | Some (v, s) \<Rightarrow>
          (case read_octets (Suc i) k s of None \<Rightarrow> None | Some (vs, s) \<Rightarrow> Some (word_of_nat v # vs, s)))"

definition read_ipv4_addr :: "bytes reader" where
  "read_ipv4_addr s = read_octets 0 4 s"

text \<open>The two last groups of an IPv6 address may be written as an IPv4 address.\<close>

definition groups_of_octets :: "bytes \<Rightarrow> u16 list" where
  "groups_of_octets os =
     [word_of_nat (unat (os ! 0) * 256 + unat (os ! 1)), word_of_nat (unat (os ! 2) * 256 + unat (os ! 3))]"

fun read_groups :: "nat \<Rightarrow> nat \<Rightarrow> string \<Rightarrow> u16 list \<times> bool \<times> string" where
  "read_groups i 0 s = ([], False, s)"
| "read_groups i (Suc k) s =
     (case (if 0 < k then read_separator (CHR '':'') i read_ipv4_addr s else None) of
        Some (v4, s) \<Rightarrow> (groups_of_octets v4, True, s)
      | None \<Rightarrow>
          (case read_separator (CHR '':'') i read_group s of
             Some (g, s) \<Rightarrow> (case read_groups (Suc i) k s of (gs, b, s) \<Rightarrow> (word_of_nat g # gs, b, s))
           | None \<Rightarrow> ([], False, s)))"

definition read_ipv6_addr :: "u16 list reader" where
  "read_ipv6_addr s =
     (case read_groups 0 8 s of (head, head_ipv4, s) \<Rightarrow>
        if length head = 8 then Some (head, s)
        else if head_ipv4 then None
        else Option.bind (read_given_char (CHR '':'') s) (\<lambda>s.
             Option.bind (read_given_char (CHR '':'') s) (\<lambda>s.
               case read_groups 0 (8 - (length head + 1)) s of (tail, _, s) \<Rightarrow>
                 Some (head @ replicate (8 - length head - length tail) 0 @ tail, s))))"

definition read_port :: "nat reader" where
  "read_port s = Option.bind (read_given_char (CHR '':'') s) (read_number 10 None True 65536)"

definition read_scope_id :: "nat reader" where
  "read_scope_id s = Option.bind (read_given_char (CHR ''%'') s) (read_number 10 None True 4294967296)"

definition read_socket_addr_v4 :: "socket_addr reader" where
  "read_socket_addr_v4 s =
     Option.bind (read_ipv4_addr s) (\<lambda>(ip, s).
     Option.bind (read_port s) (\<lambda>(p, s). Some (SocketV4 ip (word_of_nat p), s)))"

definition read_socket_addr_v6 :: "socket_addr reader" where
  "read_socket_addr_v6 s =
     Option.bind (read_given_char (CHR ''['') s) (\<lambda>s.
     Option.bind (read_ipv6_addr s) (\<lambda>(ip, s).
       let (scope, s) = (case read_scope_id s of Some r \<Rightarrow> r | None \<Rightarrow> (0, s))
       in Option.bind (read_given_char (CHR '']'') s) (\<lambda>s.
          Option.bind (read_port s) (\<lambda>(p, s). Some (SocketV6 ip (word_of_nat p) 0 (word_of_nat scope), s)))))"

definition read_socket_addr :: "socket_addr reader" where
  "read_socket_addr s = (case read_socket_addr_v4 s of Some r \<Rightarrow> Some r | None \<Rightarrow> read_socket_addr_v6 s)"

definition parse_socket_addr :: "string \<Rightarrow> socket_addr option" where
  "parse_socket_addr s =
     (case read_socket_addr s of Some (a, rest) \<Rightarrow> if rest = [] then Some a else None | None \<Rightarrow> None)"

section \<open>Printing\<close>

fun join_with :: "string \<Rightarrow> string list \<Rightarrow> string" where
  "join_with sep [] = []"
| "join_with sep [x] = x"
| "join_with sep (x # y # xs) = x @ sep @ join_with sep (y # xs)"

definition ipv4_text :: "bytes \<Rightarrow> string" where
  "ipv4_text os = join_with ''.'' (map (\<lambda>b. decimal (unat b)) os)"

abbreviation groups_text :: "u16 list \<Rightarrow> string" where
  "groups_text gs \<equiv> join_with '':'' (map (\<lambda>g. hex_digits (unat g)) gs)"

text \<open>The first longest run of zero groups, as start and length; \<open>cur\<close> is the run that ends where the scan is.\<close>

fun zero_run :: "nat \<Rightarrow> nat \<times> nat \<Rightarrow> nat \<times> nat \<Rightarrow> u16 list \<Rightarrow> nat \<times> nat" where
  "zero_run i cur longest [] = longest"
| "zero_run i cur longest (g # gs) =
     (if g = 0
      then let cur = (if snd cur = 0 then i else fst cur, snd cur + 1)
           in zero_run (Suc i) cur (if snd longest < snd cur then cur else longest) gs
      else zero_run (Suc i) (0, 0) longest gs)"

definition ipv6_text :: "u16 list \<Rightarrow> string" where
  "ipv6_text gs =
     (if take 6 gs = replicate 5 0 @ [0xffff]
      then ''::ffff:'' @ ipv4_text [ucast (gs ! 6 div 256), ucast (gs ! 6), ucast (gs ! 7 div 256), ucast (gs ! 7)]
      else let (start, len) = zero_run 0 (0, 0) (0, 0) gs
           in if 1 < len then groups_text (take start gs) @ ''::'' @ groups_text (drop (start + len) gs)
              else groups_text gs)"

fun socket_addr_text :: "socket_addr \<Rightarrow> string" where
  "socket_addr_text (SocketV4 os p) = ipv4_text os @ '':'' @ decimal (unat p)"
| "socket_addr_text (SocketV6 gs p _ scope) =
     ''['' @ ipv6_text gs @ (if scope = 0 then [] else ''%'' @ decimal (unat scope)) @ '']:'' @ decimal (unat p)"

text \<open>The addresses a connection can have: the flow label is not part of the text and is read as zero.\<close>

fun addr_ok :: "socket_addr \<Rightarrow> bool" where
  "addr_ok (SocketV4 os p) \<longleftrightarrow> length os = 4"
| "addr_ok (SocketV6 gs p fl scope) \<longleftrightarrow> length gs = 8 \<and> fl = 0"

section \<open>Reading what was printed\<close>

definition stops :: "nat \<Rightarrow> string \<Rightarrow> bool" where
  "stops r rest \<longleftrightarrow> (\<forall>c cs. rest = c # cs \<longrightarrow> to_digit r c = None)"

lemma to_digit_mono: "to_digit 16 c = None \<Longrightarrow> r \<le> 16 \<Longrightarrow> to_digit r c = None"
  by (auto simp: to_digit_def split: option.splits if_splits)

lemma stops_mono: "stops 16 rest \<Longrightarrow> r \<le> 16 \<Longrightarrow> stops r rest"
  unfolding stops_def using to_digit_mono by blast

lemma takeWhile_digits:
  assumes "2 \<le> r" "r \<le> 16" "stops r rest"
  shows "takeWhile (is_digit r) (radix_digits r n @ rest) = radix_digits r n"
    "dropWhile (is_digit r) (radix_digits r n @ rest) = rest"
proof -
  have all: "is_digit r c" if "c \<in> set (radix_digits r n)" for c
    using radix_digits_digit [OF assms(1,2) that] by (simp add: is_digit_def)
  have "takeWhile (is_digit r) rest = []" "dropWhile (is_digit r) rest = rest"
    using assms(3) by (cases rest; simp add: stops_def is_digit_def)+
  with all show "takeWhile (is_digit r) (radix_digits r n @ rest) = radix_digits r n"
    "dropWhile (is_digit r) (radix_digits r n @ rest) = rest"
    by (simp_all add: takeWhile_append2 dropWhile_append2)
qed

lemma radix_digits_zero_prefix:
  assumes "2 \<le> r" "r \<le> 16" "hd (radix_digits r n) = CHR ''0''"
  shows "length (radix_digits r n) = 1"
proof -
  have "n = 0" using radix_digits_hd [OF assms(1,2)] assms(3) by blast
  with assms(1) show ?thesis by (subst radix_digits.simps) simp
qed

lemma read_number_printed:
  assumes "2 \<le> r" "r \<le> 16" "stops r rest" "n < bound" "\<forall>m. max_digits = Some m \<longrightarrow> length (radix_digits r n) \<le> m"
  shows "read_number r max_digits zeros bound (radix_digits r n @ rest) = Some (n, rest)"
proof -
  have "\<not> (case max_digits of Some m \<Rightarrow> m < length (radix_digits r n) | None \<Rightarrow> False)"
    using assms(5) by (cases max_digits) auto
  moreover have "hd (radix_digits r n) = CHR ''0'' \<Longrightarrow> length (radix_digits r n) = 1"
    by (rule radix_digits_zero_prefix [OF assms(1,2)])
  ultimately show ?thesis
    using assms(4) by (auto simp: read_number_def takeWhile_digits [OF assms(1-3)] parse_radix_digits [OF assms(1,2)] Let_def)
qed

lemma read_number_none: "stops r s \<Longrightarrow> read_number r max_digits zeros bound s = None"
  by (cases s) (simp_all add: read_number_def stops_def is_digit_def)

lemma read_octet_printed: "stops 10 rest \<Longrightarrow> read_octet (decimal (unat b) @ rest) = Some (unat b, rest)" for b :: u8
  using u8_unat_bound [of b] radix_digits_length [of 10 "unat b" 2] by (simp add: read_number_printed)

lemma u16_unat_bound: "unat g < 65536" for g :: u16
  using unsigned_less [of g] by simp

lemma read_group_printed: "stops 16 rest \<Longrightarrow> read_group (hex_digits (unat g) @ rest) = Some (unat g, rest)" for g :: u16
  using u16_unat_bound [of g] radix_digits_length [of 16 "unat g" 3] by (simp add: read_number_printed)

lemma read_number_port:
  "stops 10 rest \<Longrightarrow> read_number 10 None True 65536 (decimal (unat p) @ rest) = Some (unat p, rest)" for p :: u16
  using u16_unat_bound [of p] by (simp add: read_number_printed)

lemma join_with_Cons: "join_with sep (x # xs) = x @ concat (map ((@) sep) xs)"
  by (induction sep "x # xs" arbitrary: x xs rule: join_with.induct) simp_all

lemma stops_char [simp]: "stops r (c # s) \<longleftrightarrow> to_digit r c = None" "stops r []"
  by (auto simp: stops_def)

lemma to_digit_separators [simp]:
  "to_digit r (CHR '':'') = None" "to_digit r (CHR ''.'') = None" "to_digit r (CHR '']'') = None" "to_digit r (CHR ''%'') = None"
  "to_digit r (CHR ''['') = None"
  by (simp_all add: to_digit_def hex_value_def)

lemma read_octets_printed:
  assumes "stops 10 rest"
  shows "read_octets (Suc i) (length os) (concat (map (\<lambda>b. CHR ''.'' # decimal (unat b)) os) @ rest) = Some (os, rest)"
  using assms
proof (induction os arbitrary: i)
  case (Cons b os)
  let ?tail = "concat (map (\<lambda>b. CHR ''.'' # decimal (unat b)) os) @ rest"
  have "stops 10 ?tail" using Cons.prems by (cases os) simp_all
  with Cons.IH [OF Cons.prems, of "Suc i"] show ?case
    by (simp add: read_separator_def read_given_char_def read_octet_printed)
qed simp

lemma read_ipv4_printed:
  assumes "length os = 4" "stops 10 rest"
  shows "read_ipv4_addr (ipv4_text os @ rest) = Some (os, rest)"
proof -
  obtain b os' where os: "os = b # os'" "length os' = 3" using assms(1) by (auto simp: length_Suc_conv eval_nat_numeral)
  let ?tail = "concat (map (\<lambda>b. CHR ''.'' # decimal (unat b)) os') @ rest"
  have "stops 10 ?tail" using assms(2) by (cases os') simp_all
  moreover have "ipv4_text os @ rest = decimal (unat b) @ ?tail"
    by (simp add: ipv4_text_def os join_with_Cons comp_def)
  ultimately have "read_octets 0 (Suc (length os')) (ipv4_text os @ rest) = Some (os, rest)"
    using read_octets_printed [OF assms(2), of 0 os'] by (simp add: os(1) read_separator_def read_octet_printed)
  with os(2) show ?thesis by (simp add: read_ipv4_addr_def)
qed

lemma read_port_printed: "read_port (CHR '':'' # decimal (unat p)) = Some (unat p, [])" for p :: u16
  using read_number_port [of "[]" p] by (simp add: read_port_def read_given_char_def)

text \<open>Reading an IPv4 address fails where the digits are not followed by a dot.\<close>

lemma dropWhile_digits_hd:
  assumes "dropWhile (is_digit r) (w @ rest) = c # cs" "stops r rest"
  shows "c \<in> set w \<or> (\<exists>cs'. rest = c # cs')"
  using assms
proof (induction w)
  case Nil
  then show ?case by (cases rest) (auto simp: stops_def is_digit_def)
qed (auto split: if_splits)

lemma read_ipv4_none:
  assumes "stops 10 rest" "\<forall>c cs. rest = c # cs \<longrightarrow> c \<noteq> CHR ''.''" "CHR ''.'' \<notin> set w"
  shows "read_ipv4_addr (w @ rest) = None"
proof -
  have sep: "read_separator (CHR ''.'') (Suc 0) read_octet s = None" if "read_octet (w @ rest) = Some (v, s)" for v s
  proof (cases s)
    case (Cons c cs)
    have "dropWhile (is_digit 10) (w @ rest) = c # cs"
      using that Cons by (auto simp: read_number_def Let_def split: if_splits option.splits)
    with assms have "c \<noteq> CHR ''.''" using dropWhile_digits_hd by blast
    with Cons show ?thesis by (simp add: read_separator_def read_given_char_def)
  qed (simp add: read_separator_def read_given_char_def)
  have "read_octets 0 (Suc (Suc k)) (w @ rest) = None" for k
  proof (cases "read_octet (w @ rest)")
    case (Some vs)
    then show ?thesis using sep [of "fst vs" "snd vs"] by (simp add: read_separator_def [of _ 0] case_prod_beta)
  qed (simp add: read_separator_def)
  from this [of 2] show ?thesis by (simp add: read_ipv4_addr_def)
qed

lemma hex_digits_no_dot: "CHR ''.'' \<notin> set (hex_digits n)"
  using radix_digits_digit [of 16 "CHR ''.''" n] by auto

text \<open>Where a list of groups ends: no digit, no dot, and no colon with a further group.\<close>

definition groups_end :: "string \<Rightarrow> bool" where
  "groups_end rest \<longleftrightarrow> stops 16 rest \<and> (\<forall>c cs. rest = c # cs \<longrightarrow> c \<noteq> CHR ''.'' \<and> (c = CHR '':'' \<longrightarrow> stops 16 cs))"

lemma groups_end_stops: "groups_end rest \<Longrightarrow> stops 16 rest"
  by (simp add: groups_end_def)

lemma read_ipv4_stops: "stops 16 s \<Longrightarrow> read_ipv4_addr s = None"
  using read_number_none [OF stops_mono, of s 10] by (simp add: read_ipv4_addr_def numeral_eq_Suc read_separator_def)

lemma read_groups_end:
  assumes "groups_end rest"
  shows "read_groups i k rest = ([], False, rest)"
proof (cases k)
  case (Suc k')
  have "read_separator (CHR '':'') i read_group rest = None" "read_separator (CHR '':'') i read_ipv4_addr rest = None"
    using assms by (cases rest; auto simp: read_separator_def read_given_char_def groups_end_def read_number_none read_ipv4_stops)+
  with Suc show ?thesis by simp
qed simp

lemma read_group_tail:
  fixes g :: u16
  assumes "groups_end rest"
  defines "tail \<equiv> \<lambda>gs. concat (map (\<lambda>g. CHR '':'' # hex_digits (unat (g :: u16))) gs) @ rest"
  shows "read_group (hex_digits (unat g) @ tail gs) = Some (unat g, tail gs)"
    "read_ipv4_addr (hex_digits n @ tail gs) = None"
proof -
  have stop: "stops 16 (tail gs)" using assms(1) by (cases gs) (simp_all add: tail_def groups_end_stops)
  have "\<forall>c cs. tail gs = c # cs \<longrightarrow> c \<noteq> CHR ''.''" using assms(1) by (cases gs) (simp_all add: tail_def groups_end_def)
  with stop show "read_group (hex_digits (unat g) @ tail gs) = Some (unat g, tail gs)"
    "read_ipv4_addr (hex_digits n @ tail gs) = None"
    by (simp_all add: read_group_printed read_ipv4_none stops_mono hex_digits_no_dot)
qed

lemma read_groups_tail:
  assumes "groups_end rest" "length gs \<le> k"
  shows "read_groups (Suc i) k (concat (map (\<lambda>g. CHR '':'' # hex_digits (unat g)) gs) @ rest) = (gs, False, rest)"
  using assms(2)
proof (induction gs arbitrary: i k)
  case Nil
  then show ?case by (simp add: read_groups_end [OF assms(1)])
next
  case (Cons g gs)
  then obtain k' where k: "k = Suc k'" "length gs \<le> k'" by (cases k) simp_all
  with Cons.IH [OF k(2), of "Suc i"] show ?case
    by (auto simp: read_separator_def read_given_char_def read_group_tail [OF assms(1)])
qed

lemma read_groups_printed:
  assumes "groups_end rest" "length gs \<le> k"
  shows "read_groups 0 k (groups_text gs @ rest) = (gs, False, rest)"
proof (cases gs)
  case Nil
  then show ?thesis by (simp add: read_groups_end [OF assms(1)])
next
  case (Cons g gs')
  then obtain k' where k: "k = Suc k'" "length gs' \<le> k'" using assms(2) by (cases k) simp_all
  with read_groups_tail [OF assms(1) k(2), of 0] show ?thesis
    by (auto simp: Cons join_with_Cons comp_def read_separator_def read_group_tail [OF assms(1)])
qed

text \<open>The run of zeros that is left out.\<close>

definition is_run :: "u16 list \<Rightarrow> nat \<times> nat \<Rightarrow> bool" where
  "is_run gs run \<longleftrightarrow> fst run + snd run \<le> length gs \<and> (\<forall>i. fst run \<le> i \<and> i < fst run + snd run \<longrightarrow> gs ! i = 0)"

lemma is_run_append: "is_run pre run \<Longrightarrow> is_run (pre @ gs) run"
  by (auto simp: is_run_def nth_append)

lemma zero_run_is_run:
  assumes "is_run pre cur" "snd cur = 0 \<or> fst cur + snd cur = length pre" "is_run pre longest"
  shows "is_run (pre @ gs) (zero_run (length pre) cur longest gs)"
  using assms
proof (induction gs arbitrary: pre cur longest)
  case (Cons g gs)
  let ?cur = "(if snd cur = 0 then length pre else fst cur, snd cur + 1)"
  have longest: "is_run (pre @ [g]) longest" using Cons.prems(3) by (rule is_run_append)
  have run: "is_run (pre @ [g]) ?cur" if "g = 0"
    using that Cons.prems(1,2) by (auto simp: is_run_def nth_append less_Suc_eq)
  have zero: "is_run (pre @ [g]) (0, 0)" by (simp add: is_run_def)
  show ?case
    using Cons.IH [OF run _ longest] Cons.IH [OF run _ run] Cons.IH [OF zero _ longest] Cons.prems(2)
    by (auto simp: Let_def)
qed simp

lemma run_split: "is_run gs (start, len) \<Longrightarrow> take start gs @ replicate len 0 @ drop (start + len) gs = gs"
  by (rule nth_equalityI) (auto simp: is_run_def nth_append)

lemma octets_of_group:
  fixes a :: u16
  shows "word_of_nat (unat (ucast (a div 256) :: u8) * 256 + unat (ucast a :: u8)) = a"
proof -
  have "unat a div 256 < 256" using u16_unat_bound [of a] by (simp add: div_less_iff_less_mult)
  then have "unat (ucast (a div 256) :: u8) = unat a div 256" "unat (ucast a :: u8) = unat a mod 256"
    by (simp_all add: unsigned_ucast_eq unat_div_distrib take_bit_nat_def)
  then show ?thesis by simp
qed

lemma read_ipv6_mapped:
  assumes gs: "gs = replicate 5 0 @ [0xffff, a, b]" and rest: "stops 10 rest"
  shows "read_ipv6_addr (ipv6_text gs @ rest) = Some (gs, rest)"
proof -
  let ?os = "[ucast (a div 256), ucast a, ucast (b div 256), ucast b] :: bytes"
  let ?tail = "CHR '':'' # ipv4_text ?os @ rest"
  have printed: "ipv6_text gs @ rest = ''::'' @ ''ffff'' @ ?tail" by (simp add: ipv6_text_def gs numeral_eq_Suc)
  have ffff: "''ffff'' = hex_digits (unat (0xffff :: u16))" by (simp add: radix_digits.simps hex_char_def, simp add: char_of_def bit_0)
  have head: "read_groups 0 8 (''::'' @ ''ffff'' @ ?tail) = ([], False, ''::'' @ ''ffff'' @ ?tail)"
    by (rule read_groups_end) (simp add: groups_end_def)
  have "read_groups 0 (Suc (Suc k)) (''ffff'' @ ?tail) = ([0xffff, a, b], True, rest)" if "0 < k" for k
  proof -
    have "read_ipv4_addr (''ffff'' @ ?tail) = None" by (rule read_ipv4_none) simp_all
    moreover have "read_group (''ffff'' @ ?tail) = Some (65535, ?tail)"
      unfolding ffff by (subst read_group_printed) simp_all
    moreover have "read_ipv4_addr (ipv4_text ?os @ rest) = Some (?os, rest)" by (rule read_ipv4_printed [OF _ rest]) simp
    ultimately show ?thesis
      using that octets_of_group [of a] octets_of_group [of b]
      by (simp add: read_separator_def read_given_char_def groups_of_octets_def)
  qed
  from this [of 5] have tail: "read_groups 0 7 (''ffff'' @ ?tail) = ([0xffff, a, b], True, rest)" by simp
  from head tail show ?thesis unfolding printed by (simp add: read_ipv6_addr_def read_given_char_def gs)
qed

lemma read_ipv6_printed:
  assumes len: "length gs = 8" and rest: "stops 16 rest" "\<forall>c cs. rest = c # cs \<longrightarrow> c \<noteq> CHR ''.'' \<and> c \<noteq> CHR '':''"
  shows "read_ipv6_addr (ipv6_text gs @ rest) = Some (gs, rest)"
proof (cases "take 6 gs = replicate 5 0 @ [0xffff]")
  case True
  have "length (drop 6 gs) = 2" using len by simp
  then obtain a b where "drop 6 gs = [a, b]" unfolding numeral_2_eq_2 length_Suc_conv by auto
  with True have "gs = replicate 5 0 @ [0xffff, a, b]" using append_take_drop_id [of 6 gs] by simp
  with rest(1) show ?thesis by (simp add: read_ipv6_mapped stops_mono)
next
  case plain: False
  obtain start n where run: "zero_run 0 (0, 0) (0, 0) gs = (start, n)" by fastforce
  have is_run: "is_run gs (start, n)" using zero_run_is_run [of "[]" "(0, 0)" "(0, 0)" gs] by (simp add: run is_run_def)
  have ends: "groups_end rest" using rest by (simp add: groups_end_def)
  show ?thesis
  proof (cases "1 < n")
    case False
    then show ?thesis using plain read_groups_printed [OF ends, of gs 8] len
      by (simp add: ipv6_text_def run read_ipv6_addr_def)
  next
    case True
    let ?tl = "drop (start + n) gs"
    have b: "start + n \<le> 8" using is_run len by (simp add: is_run_def)
    have "groups_end (''::'' @ groups_text ?tl @ rest)" by (simp add: groups_end_def)
    from read_groups_printed [OF this, of "take start gs" 8] b
    have head: "read_groups 0 8 (groups_text (take start gs) @ ''::'' @ groups_text ?tl @ rest) =
        (take start gs, False, ''::'' @ groups_text ?tl @ rest)" by simp
    have tail: "read_groups 0 (7 - start) (groups_text ?tl @ rest) = (?tl, False, rest)"
      by (rule read_groups_printed [OF ends]) (use True b len in simp)
    have "ipv6_text gs @ rest = groups_text (take start gs) @ ''::'' @ groups_text ?tl @ rest"
      using plain True by (simp add: ipv6_text_def run)
    with head tail True b len run_split [OF is_run] show ?thesis
      by (simp add: read_ipv6_addr_def read_given_char_def)
  qed
qed

text \<open>The text form determines the address: parsing gives it back.\<close>

lemma parse_socket_addr_text: "addr_ok a \<Longrightarrow> parse_socket_addr (socket_addr_text a) = Some a"
proof (induction a)
  case (SocketV4 os p)
  then show ?case
    by (simp add: parse_socket_addr_def read_socket_addr_def read_socket_addr_v4_def read_ipv4_printed read_port_printed)
next
  case (SocketV6 gs p fl scope)
  let ?port = "CHR '']'' # CHR '':'' # decimal (unat p)"
  define rest where "rest = (if scope = 0 then [] else CHR ''%'' # decimal (unat scope)) @ ?port"
  have ip: "read_ipv6_addr (ipv6_text gs @ rest) = Some (gs, rest)"
    by (rule read_ipv6_printed) (use SocketV6 in \<open>auto simp: rest_def split: if_splits\<close>)
  have scope: "(case read_scope_id rest of Some r \<Rightarrow> r | None \<Rightarrow> (0, rest)) = (unat scope, ?port)"
    using unsigned_less [of scope, where ?'a = nat]
    by (simp add: rest_def read_scope_id_def read_given_char_def read_number_printed)
  have "read_socket_addr_v4 (CHR ''['' # ipv6_text gs @ rest) = None"
    by (simp add: read_socket_addr_v4_def read_ipv4_stops)
  moreover have "read_socket_addr_v6 (CHR ''['' # ipv6_text gs @ rest) = Some (SocketV6 gs p fl scope, [])"
    using SocketV6 by (simp add: read_socket_addr_v6_def read_given_char_def ip scope read_port_printed)
  moreover have "socket_addr_text (SocketV6 gs p fl scope) = CHR ''['' # ipv6_text gs @ rest" by (simp add: rest_def)
  ultimately show ?case by (simp add: parse_socket_addr_def read_socket_addr_def del: socket_addr_text.simps)
qed

lemma socket_addr_text_inject: "addr_ok a \<Longrightarrow> addr_ok b \<Longrightarrow> socket_addr_text a = socket_addr_text b \<longleftrightarrow> a = b"
  by (metis option.inject parse_socket_addr_text)

end
