(* ===== verification/Peer_Manager.thy ===== *)
theory Peer_Manager
  imports Core_Types Socket_Addr
begin

text \<open>
  Known peers, \<^verbatim>\<open>src/network/peer.rs\<close>. An \<open>Instant\<close> or \<open>Duration\<close> is a number of nanoseconds, and the current
  instant is an argument. The reputation is a signed 32-bit word with
  saturating addition and subtraction.
\<close>

type_synonym peer_id = bytes

abbreviation secs :: "nat \<Rightarrow> nat" where "secs n \<equiv> n * 1000000000"

section \<open>Saturating arithmetic\<close>

definition i32_saturate :: "int \<Rightarrow> i32" where
  "i32_saturate x = word_of_int (max (- (2 ^ 31)) (min (2 ^ 31 - 1) x))"

definition i32_saturating_add :: "i32 \<Rightarrow> i32 \<Rightarrow> i32" where
  "i32_saturating_add a b = i32_saturate (sint a + sint b)"

definition i32_saturating_sub :: "i32 \<Rightarrow> i32 \<Rightarrow> i32" where
  "i32_saturating_sub a b = i32_saturate (sint a - sint b)"

lemma sint_i32_saturate: "sint (i32_saturate x) = max (- (2 ^ 31)) (min (2 ^ 31 - 1) x)"
proof -
  let ?y = "max (- (2 ^ 31)) (min (2 ^ 31 - 1) x)"
  have "- (2 ^ 31) \<le> ?y" "?y < 2 ^ 31" by auto
  then have "signed_take_bit 31 ?y = ?y" by (intro signed_take_bit_int_eq_self) auto
  then show ?thesis by (simp add: i32_saturate_def sint_sbintrunc')
qed

section \<open>Peers\<close>

datatype peer_state = Disconnected | Connecting | Connected | Banned

record peer_info =
  pi_id :: peer_id
  pi_addr :: socket_addr
  pi_state :: peer_state
  pi_last_seen :: nat
  pi_rtt :: "nat option"
  pi_messages_sent :: u64
  pi_messages_received :: u64
  pi_reputation :: i32

definition peer_info_new :: "nat \<Rightarrow> peer_id \<Rightarrow> socket_addr \<Rightarrow> peer_info" where
  "peer_info_new now pid addr =
     \<lparr>pi_id = pid, pi_addr = addr, pi_state = Disconnected, pi_last_seen = now, pi_rtt = None,
      pi_messages_sent = 0, pi_messages_received = 0, pi_reputation = 0\<rparr>"

definition peer_touch :: "nat \<Rightarrow> peer_info \<Rightarrow> peer_info" where
  "peer_touch now p = p\<lparr>pi_last_seen := now\<rparr>"

definition peer_is_stale :: "nat \<Rightarrow> nat \<Rightarrow> peer_info \<Rightarrow> bool" where
  "peer_is_stale now timeout p \<longleftrightarrow> timeout < now - pi_last_seen p"

definition peer_reward :: "i32 \<Rightarrow> peer_info \<Rightarrow> peer_info" where
  "peer_reward amount p = p\<lparr>pi_reputation := i32_saturating_add (pi_reputation p) amount\<rparr>"

definition peer_penalize :: "i32 \<Rightarrow> peer_info \<Rightarrow> peer_info" where
  "peer_penalize amount p = p\<lparr>pi_reputation := i32_saturating_sub (pi_reputation p) amount\<rparr>"

section \<open>The manager\<close>

record peer_manager =
  pm_peers :: "(peer_id, peer_info) hmap"
  pm_max_peers :: nat
  pm_stale_timeout :: nat
  pm_local_id :: peer_id

definition pm_new :: "peer_id \<Rightarrow> nat \<Rightarrow> peer_manager" where
  "pm_new local_id max_peers =
     \<lparr>pm_peers = [], pm_max_peers = max_peers, pm_stale_timeout = secs 300, pm_local_id = local_id\<rparr>"

text \<open>\<open>get_mut\<close> and a change of the entry found.\<close>

definition with_peer :: "peer_id \<Rightarrow> (peer_info \<Rightarrow> peer_info) \<Rightarrow> peer_manager \<Rightarrow> peer_manager" where
  "with_peer pid f m = m\<lparr>pm_peers := hm_modify pid f (pm_peers m)\<rparr>"

definition add_peer :: "nat \<Rightarrow> peer_id \<Rightarrow> socket_addr \<Rightarrow> peer_manager \<Rightarrow> bool \<times> peer_manager" where
  "add_peer now pid addr m =
     (if pid = pm_local_id m then (False, m)
      else if pm_max_peers m \<le> length (pm_peers m) \<and> \<not> hm_contains (pm_peers m) pid then (False, m)
      else (True,
        m\<lparr>pm_peers :=
            (case hm_get (pm_peers m) pid of
               Some p \<Rightarrow> hm_insert pid (peer_touch now (p\<lparr>pi_addr := addr\<rparr>)) (pm_peers m)
             | None \<Rightarrow> hm_insert pid (peer_info_new now pid addr) (pm_peers m))\<rparr>))"

definition remove_peer :: "peer_id \<Rightarrow> peer_manager \<Rightarrow> peer_info option \<times> peer_manager" where
  "remove_peer pid m = (hm_get (pm_peers m) pid, m\<lparr>pm_peers := hm_remove pid (pm_peers m)\<rparr>)"

definition get_peer :: "peer_manager \<Rightarrow> peer_id \<Rightarrow> peer_info option" where
  "get_peer m pid = hm_get (pm_peers m) pid"

definition set_state :: "nat \<Rightarrow> peer_id \<Rightarrow> peer_state \<Rightarrow> peer_manager \<Rightarrow> peer_manager" where
  "set_state now pid st m = with_peer pid (\<lambda>p. peer_touch now (p\<lparr>pi_state := st\<rparr>)) m"

definition connected_peers :: "peer_manager \<Rightarrow> peer_info list" where
  "connected_peers m = filter (\<lambda>p. pi_state p = Connected) (map snd (pm_peers m))"

definition all_peer_ids :: "peer_manager \<Rightarrow> peer_id list" where
  "all_peer_ids m = map fst (pm_peers m)"

definition peer_count :: "peer_manager \<Rightarrow> nat" where
  "peer_count m = length (pm_peers m)"

definition connected_count :: "peer_manager \<Rightarrow> nat" where
  "connected_count m = length (filter (\<lambda>p. pi_state p = Connected) (map snd (pm_peers m)))"

definition record_sent :: "nat \<Rightarrow> peer_id \<Rightarrow> peer_manager \<Rightarrow> peer_manager" where
  "record_sent now pid m = with_peer pid (\<lambda>p. peer_touch now (p\<lparr>pi_messages_sent := pi_messages_sent p + 1\<rparr>)) m"

definition record_received :: "nat \<Rightarrow> peer_id \<Rightarrow> peer_manager \<Rightarrow> peer_manager" where
  "record_received now pid m =
     with_peer pid (\<lambda>p. peer_touch now (p\<lparr>pi_messages_received := pi_messages_received p + 1\<rparr>)) m"

definition reward_peer :: "peer_id \<Rightarrow> i32 \<Rightarrow> peer_manager \<Rightarrow> peer_manager" where
  "reward_peer pid amount m = with_peer pid (peer_reward amount) m"

definition penalize_peer :: "peer_id \<Rightarrow> i32 \<Rightarrow> peer_manager \<Rightarrow> peer_manager" where
  "penalize_peer pid amount m = with_peer pid (peer_penalize amount) m"

definition ban_peer :: "nat \<Rightarrow> peer_id \<Rightarrow> peer_manager \<Rightarrow> peer_manager" where
  "ban_peer now pid m = set_state now pid Banned m"

definition prune_stale :: "nat \<Rightarrow> peer_manager \<Rightarrow> peer_id list \<times> peer_manager" where
  "prune_stale now m =
     (let stale = map fst (filter (\<lambda>(_, p). peer_is_stale now (pm_stale_timeout m) p) (pm_peers m))
      in (stale, m\<lparr>pm_peers := fold hm_remove stale (pm_peers m)\<rparr>))"

definition best_peers :: "nat \<Rightarrow> peer_manager \<Rightarrow> peer_info list" where
  "best_peers limit m =
     take limit (sort_key (\<lambda>p. - sint (pi_reputation p)) (filter (\<lambda>p. pi_state p = Connected) (map snd (pm_peers m))))"

section \<open>Invariant\<close>

text \<open>Every entry is filed under its own identifier, the node itself is not among its peers, and there are no
  more peers than allowed.\<close>

definition pm_inv :: "peer_manager \<Rightarrow> bool" where
  "pm_inv m \<longleftrightarrow> hm_wf (pm_peers m) \<and> (\<forall>pid p. hm_get (pm_peers m) pid = Some p \<longrightarrow> pi_id p = pid) \<and>
     \<not> hm_contains (pm_peers m) (pm_local_id m) \<and> length (pm_peers m) \<le> pm_max_peers m"

lemma pm_inv_new [simp]: "pm_inv (pm_new local_id n)"
  by (simp add: pm_inv_def pm_new_def)

lemma pm_inv_with_peer: "pm_inv m \<Longrightarrow> (\<And>p. pi_id (f p) = pi_id p) \<Longrightarrow> pm_inv (with_peer pid f m)"
proof -
  assume "pm_inv m" "\<And>p. pi_id (f p) = pi_id p"
  moreover have "length (hm_modify pid f (pm_peers m)) = length (pm_peers m)"
    using arg_cong [OF hm_modify_keys, of length] by simp
  ultimately show ?thesis by (auto simp: pm_inv_def with_peer_def hmap_simps split: if_splits)
qed

lemma pm_inv_add: "pm_inv m \<Longrightarrow> pm_inv (snd (add_peer now pid addr m))"
  by (auto simp: pm_inv_def add_peer_def hm_lookup hm_insert_length peer_touch_def peer_info_new_def
      simp del: map_of_eq_Some_iff split: option.splits if_splits)

lemma pm_inv_remove: "pm_inv m \<Longrightarrow> pm_inv (m\<lparr>pm_peers := hm_remove pid (pm_peers m)\<rparr>)"
  by (auto simp: pm_inv_def hm_lookup hm_remove_length simp del: map_of_eq_Some_iff split: if_splits)

lemma pm_inv_fold_remove: "pm_inv m \<Longrightarrow> pm_inv (m\<lparr>pm_peers := fold hm_remove ids (pm_peers m)\<rparr>)"
proof (induction ids arbitrary: m)
  case (Cons i ids)
  from Cons.IH [OF pm_inv_remove [OF Cons.prems, of i]] show ?case by simp
qed simp

lemma pm_inv_set_state: "pm_inv m \<Longrightarrow> pm_inv (set_state now pid st m)"
  unfolding set_state_def by (rule pm_inv_with_peer) (simp_all add: peer_touch_def)

lemma best_peers_distinct:
  assumes "pm_inv m"
  shows "distinct (map pi_id (best_peers k m))"
proof -
  have keys: "map pi_id (map snd (pm_peers m)) = map fst (pm_peers m)"
    using assms by (auto simp: pm_inv_def)
  have "distinct (map pi_id (map snd (pm_peers m)))" unfolding keys using assms by (simp add: pm_inv_def)
  then have "distinct (map pi_id (sort_key r (filter P (map snd (pm_peers m)))))" for r :: "peer_info \<Rightarrow> int" and P
    by (simp only: distinct_map distinct_sort set_sort distinct_filter set_filter) (auto intro: inj_on_subset)
  then show ?thesis by (simp add: best_peers_def take_map [symmetric])
qed

text \<open>The operations that change the manager.\<close>

datatype peer_op = AddPeer nat peer_id socket_addr | RemovePeer peer_id | SetState nat peer_id peer_state
  | RecordSent nat peer_id | RecordReceived nat peer_id | Reward peer_id i32 | Penalize peer_id i32
  | Ban nat peer_id | PruneStale nat

fun peer_step :: "peer_op \<Rightarrow> peer_manager \<Rightarrow> peer_manager" where
  "peer_step (AddPeer now pid addr) m = snd (add_peer now pid addr m)"
| "peer_step (RemovePeer pid) m = snd (remove_peer pid m)"
| "peer_step (SetState now pid st) m = set_state now pid st m"
| "peer_step (RecordSent now pid) m = record_sent now pid m"
| "peer_step (RecordReceived now pid) m = record_received now pid m"
| "peer_step (Reward pid amount) m = reward_peer pid amount m"
| "peer_step (Penalize pid amount) m = penalize_peer pid amount m"
| "peer_step (Ban now pid) m = ban_peer now pid m"
| "peer_step (PruneStale now) m = snd (prune_stale now m)"

lemma pm_inv_step: "pm_inv m \<Longrightarrow> pm_inv (peer_step op m)"
proof (cases op)
  case (PruneStale now)
  assume "pm_inv m"
  with PruneStale show ?thesis by (simp add: prune_stale_def Let_def pm_inv_fold_remove)
qed (auto simp: remove_peer_def record_sent_def record_received_def reward_peer_def penalize_peer_def ban_peer_def
    peer_touch_def peer_reward_def peer_penalize_def intro: pm_inv_add pm_inv_remove pm_inv_set_state pm_inv_with_peer)

interpretation peers: component peer_step pm_inv
  by unfold_locales (rule pm_inv_step)

lemma peer_step_constants [simp]:
  "pm_local_id (peer_step op m) = pm_local_id m" "pm_max_peers (peer_step op m) = pm_max_peers m"
  by (cases op; simp add: add_peer_def remove_peer_def set_state_def record_sent_def record_received_def reward_peer_def
      penalize_peer_def ban_peer_def with_peer_def prune_stale_def Let_def)+

lemma peer_run_constants [simp]:
  "pm_local_id (fold peer_step ops m) = pm_local_id m" "pm_max_peers (fold peer_step ops m) = pm_max_peers m"
  by (induction ops arbitrary: m) simp_all

section \<open>Properties\<close>

text \<open>The peer table. After every sequence of operations there are no more peers than allowed, none
  is listed twice, the node itself is not among them, and every peer is found under its own identifier.\<close>

theorem peers_bounded:
  "peer_count (fold peer_step ops (pm_new local_id n)) \<le> n \<and>
   distinct (all_peer_ids (fold peer_step ops (pm_new local_id n))) \<and>
   local_id \<notin> set (all_peer_ids (fold peer_step ops (pm_new local_id n))) \<and>
   map_option pi_id (get_peer (fold peer_step ops (pm_new local_id n)) pid) \<in> {None, Some pid}"
proof -
  have "pm_inv (fold peer_step ops (pm_new local_id n))" by (simp add: peers.run_inv)
  moreover have "pm_local_id (pm_new local_id n) = local_id" "pm_max_peers (pm_new local_id n) = n" by (simp_all add: pm_new_def)
  ultimately show ?thesis
    by (auto simp: pm_inv_def peer_count_def all_peer_ids_def get_peer_def map_of_eq_None_iff)
qed

text \<open>The choice of peers to send to. The chosen peers are connected ones, as many as asked for or
  all there are, in order of falling reputation, and no connected peer left out has a higher reputation than
  one chosen.\<close>

theorem best_peers_are_best:
  "\<exists>rest. mset (best_peers n m @ rest) = mset (connected_peers m) \<and>
     sorted_wrt (\<lambda>p q. sint (pi_reputation q) \<le> sint (pi_reputation p)) (best_peers n m @ rest) \<and>
     length (best_peers n m) = min n (connected_count m)"
proof -
  let ?s = "sort_key (\<lambda>p. - sint (pi_reputation p)) (connected_peers m)"
  have "best_peers n m @ drop n ?s = ?s" by (simp add: best_peers_def connected_peers_def)
  moreover have "sorted_wrt (\<lambda>p q. sint (pi_reputation q) \<le> sint (pi_reputation p)) ?s"
    using sorted_sort_key [of "\<lambda>p. - sint (pi_reputation p)" "connected_peers m"] by (simp add: sorted_map)
  moreover have "length (best_peers n m) = min n (connected_count m)"
    by (simp add: best_peers_def connected_count_def)
  ultimately show ?thesis by (intro exI [of _ "drop n ?s"]) simp
qed

end
