(* ===== verification/Threshold_Crypto.thy ===== *)
theory Threshold_Crypto
  imports Core_Types "HOL-Library.Signed_Division"
begin

text \<open>
  Secret sharing, threshold encryption and distributed key generation, \<^verbatim>\<open>src/crypto/threshold.rs\<close>. A
  32-byte field element is a byte list. SHA-256 is the parameter \<open>sha\<close>; the ChaCha20 generator is a state with
  the parameter \<open>fill\<close> that draws the next 32 bytes from it, and the bytes drawn from the thread's own
  generator are arguments. Error messages are kept as strings.
\<close>

unbundle bit_operations_syntax

type_synonym 'r rng_fill = "'r \<Rightarrow> bytes \<times> 'r"

record secret_share =
  sh_index :: u32
  sh_value :: bytes
  sh_holder :: validator_id

record threshold_params =
  tp_total_shares :: u32
  tp_threshold :: u32

definition params_new :: "u32 \<Rightarrow> u32 \<Rightarrow> string + threshold_params" where
  "params_new total_count threshold =
     (if threshold = 0 then Inl ''Threshold must be at least 1''
      else if total_count < threshold then Inl ''Threshold cannot exceed total shares''
      else Inr \<lparr>tp_total_shares = total_count, tp_threshold = threshold\<rparr>)"

definition bft_safe :: "u32 \<Rightarrow> threshold_params" where
  "bft_safe validator_count =
     (let threshold = validator_count * 2 div 3 + 1
      in \<lparr>tp_total_shares = validator_count, tp_threshold = threshold\<rparr>)"

section \<open>Field arithmetic\<close>

definition field_zero :: bytes where
  "field_zero = replicate 32 0"

definition field_add :: "bytes \<Rightarrow> bytes \<Rightarrow> bytes" where
  "field_add a b = map2 (XOR) a b"

function mul_loop :: "bytes \<Rightarrow> bytes \<Rightarrow> u32 \<Rightarrow> bytes" where
  "mul_loop result acc s =
     (if 0 < s
      then mul_loop (if s AND 1 = 1 then field_add result acc else result) (field_add acc acc) (drop_bit 1 s)
      else result)"
  by pat_completeness auto
termination
proof (relation "measure (\<lambda>(result, acc, s). unat s)")
  fix result acc and s :: u32
  assume "0 < s"
  then have "0 < unat s" by (simp add: word_less_nat_alt)
  then show "((if s AND 1 = 1 then field_add result acc else result, field_add acc acc, drop_bit 1 s), result, acc, s)
      \<in> measure (\<lambda>(result, acc, s). unat s)"
    by (simp add: drop_bit_eq_div unat_div)
qed simp

declare mul_loop.simps [simp del]

definition field_mul_scalar :: "bytes \<Rightarrow> u32 \<Rightarrow> bytes" where
  "field_mul_scalar a scalar = mul_loop field_zero a scalar"

definition field_mul_lambda :: "bytes \<Rightarrow> i32 \<Rightarrow> bytes" where
  "field_mul_lambda a lambda =
     (if lambda = 0 then field_zero
      else let abs_lambda = (if sint lambda < 0 then - lambda else lambda)
           in field_mul_scalar a abs_lambda)"

text \<open>The ratio of 64-bit integers with the truncating remainder of the language. (The absolute value of the
  least integer wraps around to itself and leaves remainder 0, like its mathematical absolute value.)\<close>

definition compute_lambda :: "i64 \<Rightarrow> i64 \<Rightarrow> i32" where
  "compute_lambda num den =
     (if den = 0 then 0
      else word_of_int ((sint num smod 256 + 256) sdiv (abs (sint den) smod 256 + 1)) *
           (if sint den < 0 then - 1 else 1))"

section \<open>Secret sharing\<close>

record 'r shamir_secret_sharing =
  ss_params :: threshold_params
  ss_rng :: 'r

definition sss_new :: "threshold_params \<Rightarrow> 'r \<Rightarrow> 'r shamir_secret_sharing" where
  "sss_new params rng = \<lparr>ss_params = params, ss_rng = rng\<rparr>"

definition sss_with_seed :: "(bytes \<Rightarrow> 'r) \<Rightarrow> threshold_params \<Rightarrow> bytes \<Rightarrow> 'r shamir_secret_sharing" where
  "sss_with_seed from_seed params seed = \<lparr>ss_params = params, ss_rng = from_seed seed\<rparr>"

definition evaluate_polynomial :: "bytes list \<Rightarrow> u32 \<Rightarrow> bytes" where
  "evaluate_polynomial coefficients x =
     fold (\<lambda>coef result. field_add (field_mul_scalar result x) coef) (rev coefficients) field_zero"

primrec draw :: "'r rng_fill \<Rightarrow> nat \<Rightarrow> 'r \<Rightarrow> bytes list \<times> 'r" where
  "draw fill 0 rng = ([], rng)"
| "draw fill (Suc n) rng =
     (let (coef, rng) = fill rng; (coefs, rng) = draw fill n rng in (coef # coefs, rng))"

definition split_secret ::
    "'r rng_fill \<Rightarrow> bytes \<Rightarrow> validator_id list \<Rightarrow> 'r shamir_secret_sharing \<Rightarrow>
     panic + secret_share list \<times> 'r shamir_secret_sharing" where
  "split_secret fill secret validators sss =
     (let n = unat (tp_total_shares (ss_params sss)); t = unat (tp_threshold (ss_params sss)) in
      if n \<le> length validators then
        (let (coefs, rng) = draw fill (t - 1) (ss_rng sss);
             coefficients = secret # coefs
         in Inr (map (\<lambda>i. \<lparr>sh_index = word_of_nat i + 1,
                           sh_value = evaluate_polynomial coefficients (word_of_nat i + 1),
                           sh_holder = validators ! i\<rparr>) [0 ..< n],
                 sss\<lparr>ss_rng := rng\<rparr>))
      else Inl AssertionFailed)"

definition lagrange_ratio :: "secret_share list \<Rightarrow> nat \<Rightarrow> i64 \<times> i64" where
  "lagrange_ratio shares i =
     fold (\<lambda>j (numerator, denominator).
         if i \<noteq> j then
           (numerator * - (ucast (sh_index (shares ! j))),
            denominator * (ucast (sh_index (shares ! i)) - ucast (sh_index (shares ! j))))
         else (numerator, denominator))
       [0 ..< length shares] (1, 1)"

definition reconstruct :: "secret_share list \<Rightarrow> 'r shamir_secret_sharing \<Rightarrow> string + bytes" where
  "reconstruct shares sss =
     (let t = unat (tp_threshold (ss_params sss)) in
      if length shares < t then Inl ''Not enough shares for reconstruction''
      else let shares = take t shares
           in Inr (fold (\<lambda>i secret.
                let (numerator, denominator) = lagrange_ratio shares i;
                    lambda = compute_lambda numerator denominator;
                    term = field_mul_lambda (sh_value (shares ! i)) lambda
                in field_add secret term) [0 ..< length shares] field_zero))"

section \<open>Threshold encryption\<close>

record encrypted_key_share =
  ks_validator_index :: u32
  ks_encrypted_share :: bytes

record encrypted_payload =
  ep_ciphertext :: bytes
  ep_nonce :: bytes
  ep_commitment :: bytes
  ep_key_shares :: "encrypted_key_share list"

record 'r threshold_encryptor =
  te_params :: threshold_params
  te_sss :: "'r shamir_secret_sharing"

definition encryptor_new :: "threshold_params \<Rightarrow> 'r \<Rightarrow> 'r threshold_encryptor" where
  "encryptor_new params rng = \<lparr>te_params = params, te_sss = sss_new params rng\<rparr>"

definition xor_encrypt :: "hash_fn \<Rightarrow> bytes \<Rightarrow> bytes \<Rightarrow> bytes \<Rightarrow> bytes" where
  "xor_encrypt sha plaintext key nonce =
     (let keystream_seed = key @ nonce
      in map (\<lambda>(i, byte). byte XOR hd (sha (keystream_seed @ u64_to_le_bytes (word_of_nat i))))
           (enumerate 0 plaintext))"

definition encrypt ::
    "'r rng_fill \<Rightarrow> hash_fn \<Rightarrow> bytes \<Rightarrow> bytes \<Rightarrow> bytes \<Rightarrow> validator_id list \<Rightarrow> 'r threshold_encryptor \<Rightarrow>
     panic + encrypted_payload \<times> 'r threshold_encryptor" where
  "encrypt fill sha key nonce plaintext validators te =
     (let commitment = sha plaintext;
          ciphertext = xor_encrypt sha plaintext key nonce
      in and_then (split_secret fill key validators (te_sss te)) (\<lambda>(shares, sss).
         Inr (\<lparr>ep_ciphertext = ciphertext, ep_nonce = nonce, ep_commitment = commitment,
               ep_key_shares = map (\<lambda>share. \<lparr>ks_validator_index = sh_index share,
                                             ks_encrypted_share = sh_value share\<rparr>) shares\<rparr>,
              te\<lparr>te_sss := sss\<rparr>)))"

definition decrypt :: "hash_fn \<Rightarrow> encrypted_payload \<Rightarrow> secret_share list \<Rightarrow> 'r threshold_encryptor \<Rightarrow> string + bytes" where
  "decrypt sha payload shares te =
     and_then (reconstruct shares (te_sss te)) (\<lambda>key.
       let plaintext = xor_encrypt sha (ep_ciphertext payload) key (ep_nonce payload) in
       if sha plaintext \<noteq> ep_commitment payload then Inl ''Commitment verification failed''
       else Inr plaintext)"

section \<open>Distributed key generation\<close>

record dkg_session =
  dkg_id :: bytes
  dkg_params :: threshold_params
  dkg_validators :: "validator_id list"
  dkg_commitments :: "(validator_id, bytes list) hmap"
  dkg_received_shares :: "(validator_id, secret_share) hmap"
  dkg_our_polynomial :: "bytes list option"

definition dkg_new :: "bytes \<Rightarrow> validator_id list \<Rightarrow> dkg_session" where
  "dkg_new session_id validators =
     \<lparr>dkg_id = session_id, dkg_params = bft_safe (word_of_nat (length validators)), dkg_validators = validators,
      dkg_commitments = [], dkg_received_shares = [], dkg_our_polynomial = None\<rparr>"

definition generate_contribution :: "'r rng_fill \<Rightarrow> hash_fn \<Rightarrow> 'r \<Rightarrow> dkg_session \<Rightarrow> bytes list \<times> dkg_session" where
  "generate_contribution fill sha rng s =
     (let (polynomial, _) = draw fill (unat (tp_threshold (dkg_params s))) rng;
          commitments = map sha polynomial
      in (commitments, s\<lparr>dkg_our_polynomial := Some polynomial\<rparr>))"

definition receive_commitment :: "validator_id \<Rightarrow> bytes list \<Rightarrow> dkg_session \<Rightarrow> dkg_session" where
  "receive_commitment from commitments s = s\<lparr>dkg_commitments := hm_insert from commitments (dkg_commitments s)\<rparr>"

definition generate_shares :: "dkg_session \<Rightarrow> (validator_id, secret_share) hmap" where
  "generate_shares s =
     (case dkg_our_polynomial s of
        None \<Rightarrow> []
      | Some polynomial \<Rightarrow>
          fold (\<lambda>(i, validator). hm_insert validator
              \<lparr>sh_index = word_of_nat (i + 1), sh_value = evaluate_polynomial polynomial (word_of_nat (i + 1)),
               sh_holder = validator\<rparr>)
            (enumerate 0 (dkg_validators s)) [])"

text \<open>The hash that \<open>receive_share\<close> computes from a share is thrown away: every share is accepted.\<close>

definition receive_share :: "validator_id \<Rightarrow> secret_share \<Rightarrow> dkg_session \<Rightarrow> bool \<times> dkg_session" where
  "receive_share from share s = (True, s\<lparr>dkg_received_shares := hm_insert from share (dkg_received_shares s)\<rparr>)"

definition is_complete :: "dkg_session \<Rightarrow> bool" where
  "is_complete s \<longleftrightarrow> unat (tp_threshold (dkg_params s)) \<le> length (dkg_received_shares s)"

definition dkg_finalize :: "dkg_session \<Rightarrow> secret_share option" where
  "dkg_finalize s =
     (if \<not> is_complete s then None
      else let (combined, our_index) =
                 fold (\<lambda>(_, share) (combined, our_index). (field_add combined (sh_value share), sh_index share))
                   (dkg_received_shares s) (field_zero, 1);
               position = ucast our_index - 1 :: u64
           in if unat position < length (dkg_validators s)
              then Some \<lparr>sh_index = our_index, sh_value = combined, sh_holder = dkg_validators s ! unat position\<rparr>
              else None)"

section \<open>The field operations\<close>

lemma xor_map2: "map2 (XOR) a b = map2 (XOR) b a" for a b :: bytes
  by (subst zip_commute) (simp add: case_prod_beta o_def xor.commute)

lemma xor_map2_assoc: "map2 (XOR) (map2 (XOR) a b) c = map2 (XOR) a (map2 (XOR) b c)" for a b c :: bytes
proof (induction a arbitrary: b c)
  case (Cons x a)
  then show ?case by (cases b; cases c) (auto simp: xor.assoc)
qed simp

lemma field_add_commute: "field_add a b = field_add b a"
  unfolding field_add_def by (rule xor_map2)

lemma field_add_assoc: "field_add (field_add a b) c = field_add a (field_add b c)"
  unfolding field_add_def by (rule xor_map2_assoc)

lemma field_add_left_commute: "field_add a (field_add b c) = field_add b (field_add a c)"
  by (metis field_add_assoc field_add_commute)

lemmas field_add_ac = field_add_commute field_add_assoc field_add_left_commute

lemma length_field_add [simp]: "length a = 32 \<Longrightarrow> length b = 32 \<Longrightarrow> length (field_add a b) = 32"
  by (simp add: field_add_def)

lemma length_field_zero [simp]: "length field_zero = 32"
  by (simp add: field_zero_def)

lemma field_add_zero [simp]: "length a = 32 \<Longrightarrow> field_add field_zero a = a" "length a = 32 \<Longrightarrow> field_add a field_zero = a"
  by (auto simp: field_add_def field_zero_def intro!: nth_equalityI)

lemma field_add_self [simp]: "length a = 32 \<Longrightarrow> field_add a a = field_zero"
  by (auto simp: field_add_def field_zero_def intro!: nth_equalityI)

lemma field_add_cancel: "length a = 32 \<Longrightarrow> length b = 32 \<Longrightarrow> field_add a (field_add a b) = b"
  by (simp flip: field_add_assoc)

text \<open>Doubling an element adds it to itself, which is zero: multiplication by a scalar is multiplication by
  its lowest bit.\<close>

lemma mul_loop_zero: "length r = 32 \<Longrightarrow> mul_loop r field_zero s = r"
proof (induction r "field_zero" s rule: mul_loop.induct)
  case (1 result s)
  then show ?case by (subst mul_loop.simps) auto
qed

lemma field_mul_scalar_parity:
  "length a = 32 \<Longrightarrow> field_mul_scalar a s = (if odd s then a else field_zero)"
proof -
  assume a: "length a = 32"
  have "mul_loop field_zero a s = (if s AND 1 = 1 then a else field_zero)"
  proof (cases "0 < s")
    case True
    then show ?thesis using a by (subst mul_loop.simps) (simp add: mul_loop_zero)
  next
    case False
    then have "s = 0" by (simp add: word_gt_0)
    then show ?thesis by (subst mul_loop.simps) simp
  qed
  then show ?thesis by (simp add: field_mul_scalar_def and_one_eq odd_iff_mod_2_eq_one)
qed

lemma length_field_mul_scalar [simp]: "length a = 32 \<Longrightarrow> length (field_mul_scalar a s) = 32"
  by (simp add: field_mul_scalar_parity)

lemma field_mul_lambda_parity:
  "length a = 32 \<Longrightarrow> field_mul_lambda a l = (if odd l then a else field_zero)"
  by (auto simp: field_mul_lambda_def field_mul_scalar_parity Let_def)

text \<open>Horner's scheme, from the lowest coefficient on.\<close>

lemma evaluate_polynomial_simps [simp]:
  "evaluate_polynomial [] x = field_zero"
  "evaluate_polynomial (c # cs) x = field_add (field_mul_scalar (evaluate_polynomial cs x) x) c"
  by (simp_all add: evaluate_polynomial_def)

lemma length_evaluate [simp]: "\<forall>c \<in> set cs. length c = 32 \<Longrightarrow> length (evaluate_polynomial cs x) = 32"
  by (induction cs) auto

lemma evaluate_even: "length c = 32 \<Longrightarrow> \<forall>d \<in> set cs. length d = 32 \<Longrightarrow> even x \<Longrightarrow> evaluate_polynomial (c # cs) x = c"
  by (simp add: field_mul_scalar_parity)

lemma length_field_sum [simp]: "\<forall>c \<in> set cs. length c = 32 \<Longrightarrow> length (foldr field_add cs field_zero) = 32"
  by (induction cs) auto

lemma evaluate_odd: "\<forall>c \<in> set cs. length c = 32 \<Longrightarrow> odd x \<Longrightarrow> evaluate_polynomial cs x = foldr field_add cs field_zero"
  by (induction cs) (auto simp: field_mul_scalar_parity field_add_commute)

lemma evaluate_add:
  assumes "length p = length q" and "\<forall>c \<in> set p \<union> set q. length c = 32"
  shows "evaluate_polynomial (map2 field_add p q) x = field_add (evaluate_polynomial p x) (evaluate_polynomial q x)"
  using assms
proof (induction p q rule: list_induct2)
  case (Cons c p d q)
  have "length (evaluate_polynomial p x) = 32" "length (evaluate_polynomial q x) = 32" using Cons.prems by auto
  with Cons show ?case by (simp add: field_mul_scalar_parity field_add_ac)
qed simp

lemma draw_coefficients:
  assumes "\<forall>r. length (fst (fill r)) = 32"
  shows "length (fst (draw fill n rng)) = n \<and> (\<forall>c \<in> set (fst (draw fill n rng)). length c = 32)"
proof (induction n arbitrary: rng)
  case (Suc n)
  obtain c rng1 where 1: "fill rng = (c, rng1)" by (cases "fill rng")
  obtain cs rng2 where 2: "draw fill n rng1 = (cs, rng2)" by (cases "draw fill n rng1")
  have "length c = 32" using assms 1 by (metis fst_conv)
  with Suc [of rng1] 1 2 show ?case by simp
qed simp

lemma xor_encrypt_involution: "xor_encrypt sha (xor_encrypt sha plaintext key nonce) key nonce = plaintext"
  by (rule nth_equalityI) (simp_all add: xor_encrypt_def nth_enumerate_eq Let_def xor.assoc)

lemma length_xor_encrypt [simp]: "length (xor_encrypt sha plaintext key nonce) = length plaintext"
  by (simp add: xor_encrypt_def Let_def)

text \<open>The lists \<open>p\<close>, \<open>q\<close>, \<open>\<dots>\<close> of coefficients added up.\<close>

definition sum_polynomials :: "nat \<Rightarrow> bytes list list \<Rightarrow> bytes list" where
  "sum_polynomials n ps = fold (\<lambda>p acc. map2 field_add acc p) ps (replicate n field_zero)"

definition poly_ok :: "nat \<Rightarrow> bytes list \<Rightarrow> bool" where
  "poly_ok n p \<longleftrightarrow> length p = n \<and> (\<forall>c \<in> set p. length c = 32)"

lemma poly_ok_add: "poly_ok n p \<Longrightarrow> poly_ok n q \<Longrightarrow> poly_ok n (map2 field_add p q)"
  by (auto simp: poly_ok_def dest!: set_zip_leftD set_zip_rightD elim!: in_set_zipE)

lemma evaluate_zeros [simp]: "evaluate_polynomial (replicate n field_zero) x = field_zero"
  by (induction n) (simp_all add: field_mul_scalar_parity)

lemma evaluate_fold_add:
  "poly_ok n acc \<Longrightarrow> \<forall>p \<in> set ps. poly_ok n p \<Longrightarrow>
   evaluate_polynomial (fold (\<lambda>p acc. map2 field_add acc p) ps acc) x =
   fold (\<lambda>p v. field_add v (evaluate_polynomial p x)) ps (evaluate_polynomial acc x)"
proof (induction ps arbitrary: acc)
  case (Cons p ps)
  have p: "poly_ok n p" using Cons.prems by simp
  then have "evaluate_polynomial (map2 field_add acc p) x = field_add (evaluate_polynomial acc x) (evaluate_polynomial p x)"
    using Cons.prems(1) by (intro evaluate_add) (auto simp: poly_ok_def)
  with Cons poly_ok_add [OF Cons.prems(1) p] show ?case by simp
qed simp

lemma evaluate_sum:
  "\<forall>p \<in> set ps. poly_ok n p \<Longrightarrow>
   evaluate_polynomial (sum_polynomials n ps) x = fold (\<lambda>p v. field_add v (evaluate_polynomial p x)) ps field_zero"
  unfolding sum_polynomials_def by (subst evaluate_fold_add) (auto simp: poly_ok_def)

section \<open>Key generation\<close>

lemma generate_shares_other:
  "v \<notin> set vs \<Longrightarrow> hm_get (fold (\<lambda>(i, v). hm_insert v (f i v)) (enumerate k vs) m) v = hm_get m v"
  by (induction vs arbitrary: k m) (auto simp: hm_lookup)

lemma generate_shares_fold:
  "distinct vs \<Longrightarrow> j < length vs \<Longrightarrow>
   hm_get (fold (\<lambda>(i, v). hm_insert v (f i v)) (enumerate k vs) m) (vs ! j) = Some (f (k + j) (vs ! j))"
proof (induction vs arbitrary: k j m)
  case (Cons u vs)
  then show ?case by (cases j) (simp_all add: generate_shares_other hm_lookup)
qed simp

lemma generate_shares_lookup:
  assumes "distinct (dkg_validators s)" and "k < length (dkg_validators s)" and "dkg_our_polynomial s = Some p"
  shows "hm_get (generate_shares s) (dkg_validators s ! k) =
    Some \<lparr>sh_index = word_of_nat (k + 1), sh_value = evaluate_polynomial p (word_of_nat (k + 1)),
          sh_holder = dkg_validators s ! k\<rparr>"
  using assms(3) generate_shares_fold [OF assms(1,2), where f = "\<lambda>i v. \<lparr>sh_index = word_of_nat (i + 1),
      sh_value = evaluate_polynomial p (word_of_nat (i + 1)), sh_holder = v\<rparr>" and k = 0 and m = "[]"]
  by (simp add: generate_shares_def)

text \<open>One validator's session after it received its share from each of the given senders.\<close>

definition dkg_with_polynomial :: "bytes \<Rightarrow> validator_id list \<Rightarrow> bytes list \<Rightarrow> dkg_session" where
  "dkg_with_polynomial session_id validators p = (dkg_new session_id validators)\<lparr>dkg_our_polynomial := Some p\<rparr>"

definition receive_from ::
    "bytes \<Rightarrow> validator_id list \<Rightarrow> validator_id \<Rightarrow> (validator_id \<times> bytes list) list \<Rightarrow> dkg_session \<Rightarrow> dkg_session" where
  "receive_from session_id validators v senders s =
     fold (\<lambda>(sender, p) s. snd (receive_share sender
         (the (hm_get (generate_shares (dkg_with_polynomial session_id validators p)) v)) s)) senders s"

lemma receive_from_shares:
  assumes "distinct validators" and "k < length validators" and "distinct (map fst senders)"
    and "fst ` set senders \<inter> fst ` set (dkg_received_shares s) = {}"
  shows "receive_from session_id validators (validators ! k) senders s =
    s\<lparr>dkg_received_shares := dkg_received_shares s @
        map (\<lambda>(sender, p). (sender, \<lparr>sh_index = word_of_nat (k + 1),
          sh_value = evaluate_polynomial p (word_of_nat (k + 1)), sh_holder = validators ! k\<rparr>)) senders\<rparr>"
  using assms(3,4)
proof (induction senders arbitrary: s)
  case (Cons q senders)
  obtain u p where q: "q = (u, p)" by (cases q)
  let ?share = "\<lparr>sh_index = word_of_nat (k + 1), sh_value = evaluate_polynomial p (word_of_nat (k + 1)), sh_holder = validators ! k\<rparr>"
  have share: "hm_get (generate_shares (dkg_with_polynomial session_id validators p)) (validators ! k) = Some ?share"
    using generate_shares_lookup [of "dkg_with_polynomial session_id validators p" k p] assms(1,2)
    by (simp add: dkg_with_polynomial_def dkg_new_def)
  have new: "\<not> hm_contains (dkg_received_shares s) u" using Cons.prems(2) q by (simp add: map_of_eq_None_iff)
  let ?s = "s\<lparr>dkg_received_shares := dkg_received_shares s @ [(u, ?share)]\<rparr>"
  have step: "receive_from session_id validators (validators ! k) (q # senders) s =
      receive_from session_id validators (validators ! k) senders ?s"
    using share hm_insert_new [OF new] by (simp add: receive_from_def receive_share_def q)
  have "fst ` set senders \<inter> fst ` set (dkg_received_shares ?s) = {}" using Cons.prems q by auto
  with Cons.IH [of ?s] Cons.prems(1) step q show ?case by simp
qed (simp add: receive_from_def)

lemma finalize_fold:
  "fold (\<lambda>(_, share) (combined, our_index). (field_add combined (sh_value share), sh_index share))
     (map (\<lambda>(sender, p). (sender, \<lparr>sh_index = x, sh_value = evaluate_polynomial p x, sh_holder = h\<rparr>)) senders) (c, i) =
   (fold (\<lambda>p v. field_add v (evaluate_polynomial p x)) (map snd senders) c, if senders = [] then i else x)"
  by (induction senders arbitrary: c i) auto

section \<open>Properties\<close>

text \<open>Property C20: distributed key generation. When a validator has received its share of the polynomials of
  enough different senders, it ends with the evaluation of the sum of these polynomials at its own index,
  under its own index and name; with fewer senders it ends with nothing.\<close>

theorem dkg_combines_polynomials:
  assumes vs: "distinct validators" "k < length validators" "length validators < 2 ^ 31"
    and senders: "distinct (map fst senders)" "\<forall>p \<in> set (map snd senders). poly_ok n p"
  shows "dkg_finalize (receive_from session_id validators (validators ! k) senders (dkg_new session_id validators)) =
    (if 2 * length validators div 3 + 1 \<le> length senders
     then Some \<lparr>sh_index = word_of_nat (k + 1),
                sh_value = evaluate_polynomial (sum_polynomials n (map snd senders)) (word_of_nat (k + 1)),
                sh_holder = validators ! k\<rparr>
     else None)"
proof -
  let ?x = "word_of_nat (k + 1) :: u32"
  have len: "unat (word_of_nat (length validators) :: u32) = length validators"
    using vs(3) by (simp add: unsigned_of_nat take_bit_nat_eq_self)
  have t: "unat (tp_threshold (bft_safe (word_of_nat (length validators)))) = 2 * length validators div 3 + 1"
  proof -
    have "unat (word_of_nat (length validators) * 2 :: u32) = 2 * length validators"
      using vs(3) len by (simp add: unat_word_ariths)
    then have d: "unat (word_of_nat (length validators) * 2 div 3 :: u32) = 2 * length validators div 3" by (simp add: unat_div)
    have "2 * length validators div 3 + 1 < 2 ^ 32" using vs(3) by simp
    with d show ?thesis by (simp add: bft_safe_def Let_def unat_word_ariths)
  qed
  have pos: "unat (ucast ?x - 1 :: u64) = k"
  proof -
    have "unat ?x = k + 1" using vs(2,3) by (simp add: unsigned_of_nat take_bit_nat_eq_self del: of_nat_Suc of_nat_add)
    moreover have "k + 1 < 2 ^ 64" using vs(2,3) by simp
    ultimately have "unat (ucast ?x :: u64) = k + 1" 
      by (simp add: unsigned_ucast_eq take_bit_nat_eq_self del: of_nat_Suc of_nat_add)
    moreover have "1 \<le> (ucast ?x :: u64)" using calculation by (simp add: u64_le_iff)
    ultimately show ?thesis by (simp add: u64_sub_nowrap)
  qed
  have "receive_from session_id validators (validators ! k) senders (dkg_new session_id validators) =
      (dkg_new session_id validators)\<lparr>dkg_received_shares :=
        map (\<lambda>(sender, p). (sender, \<lparr>sh_index = ?x, sh_value = evaluate_polynomial p ?x, sh_holder = validators ! k\<rparr>)) senders\<rparr>"
    using receive_from_shares [OF vs(1,2) senders(1), of "dkg_new session_id validators" session_id]
    by (simp add: dkg_new_def)
  then show ?thesis
    using t pos vs(2) evaluate_sum [OF senders(2)]
    by (auto simp: dkg_finalize_def is_complete_def dkg_new_def finalize_fold Let_def)
qed

definition example_polynomial :: "u8 \<Rightarrow> bytes list" where
  "example_polynomial b = [replicate 32 b, replicate 32 2]"

theorem dkg_combines_polynomials_witness:
  "dkg_finalize (receive_from [] [[1], [2]] [2] [([1], example_polynomial 5), ([2], example_polynomial 9)] (dkg_new [] [[1], [2]])) =
   Some \<lparr>sh_index = 2, sh_value = replicate 32 12, sh_holder = [2]\<rparr>"
proof -
  have ok: "\<forall>p \<in> set (map snd [([1::u8], example_polynomial 5), ([2], example_polynomial 9)]). poly_ok 2 p"
    by (simp add: poly_ok_def example_polynomial_def)
  have "evaluate_polynomial (sum_polynomials 2 [example_polynomial 5, example_polynomial 9]) 2 = replicate 32 12"
    by code_simp
  with dkg_combines_polynomials [of "[[1], [2]]" 1, OF _ _ _ _ ok, of "[]"] show ?thesis by simp
qed

text \<open>Property C39: what the shares reveal. A split gives one share for each index from 1 on, to the validators
  in order, and every share with an even index is the secret itself; those with an odd index are all equal,
  the sum of the secret and the random coefficients.\<close>

theorem shares_reveal_secret:
  assumes split: "split_secret fill secret validators sss = Inr (shares, sss')"
    and secret: "length secret = 32" and fill: "\<forall>r. length (fst (fill r)) = 32"
  shows "map (unat \<circ> sh_index) shares = [1 ..< Suc (unat (tp_total_shares (ss_params sss)))] \<and>
    map sh_holder shares = take (unat (tp_total_shares (ss_params sss))) validators \<and>
    (\<forall>share \<in> set shares. sh_value share =
       (if even (sh_index share) then secret
        else foldr field_add (secret # fst (draw fill (unat (tp_threshold (ss_params sss)) - 1) (ss_rng sss))) field_zero))"
proof -
  let ?n = "unat (tp_total_shares (ss_params sss))"
  obtain cs rng where d: "draw fill (unat (tp_threshold (ss_params sss)) - 1) (ss_rng sss) = (cs, rng)" by fastforce
  have cs: "\<forall>c \<in> set cs. length c = 32" using draw_coefficients [OF fill] d by (metis fst_conv)
  have len: "?n \<le> length validators" using split by (auto simp: split_secret_def Let_def split: if_splits)
  have shares: "shares = map (\<lambda>i. \<lparr>sh_index = word_of_nat i + 1,
      sh_value = evaluate_polynomial (secret # cs) (word_of_nat i + 1), sh_holder = validators ! i\<rparr>) [0 ..< ?n]"
    using split len d by (auto simp: split_secret_def Let_def)
  have idx: "unat (word_of_nat i + 1 :: u32) = Suc i" if "i < ?n" for i
  proof -
    have "?n < 2 ^ 32" using unsigned_less [of "tp_total_shares (ss_params sss)"] by simp
    with that have "Suc i < 2 ^ 32" by simp
    then have "unat (word_of_nat (Suc i) :: u32) = Suc i" by (simp add: unsigned_of_nat take_bit_nat_eq_self del: of_nat_Suc)
    then show ?thesis by (simp add: add.commute)
  qed
  have "map (unat \<circ> sh_index) shares = map Suc [0 ..< ?n]"
    unfolding shares using idx by (simp del: map_Suc_upt)
  moreover have "map sh_holder shares = take ?n validators"
    unfolding shares using len by (auto intro: nth_equalityI)
  moreover have "sh_value share = (if even (sh_index share) then secret else foldr field_add (secret # cs) field_zero)"
    if "share \<in> set shares" for share
  proof -
    have all: "\<forall>c \<in> set (secret # cs). length c = 32" using secret cs by simp
    have "sh_value share = evaluate_polynomial (secret # cs) (sh_index share)"
      using that unfolding shares by (auto simp del: evaluate_polynomial_simps)
    then show ?thesis using evaluate_even [OF secret cs] evaluate_odd [OF all] by (simp del: evaluate_polynomial_simps foldr_Cons)
  qed
  ultimately show ?thesis using d by (simp add: map_Suc_upt del: upt_Suc)
qed

definition example_sss :: "nat shamir_secret_sharing" where
  "example_sss = sss_new \<lparr>tp_total_shares = 4, tp_threshold = 3\<rparr> 7"

definition example_fill :: "nat rng_fill" where
  "example_fill r = (replicate 32 (word_of_nat r), Suc r)"

theorem shares_reveal_secret_witness:
  "\<exists>shares sss'. split_secret example_fill (replicate 32 42) [[1], [2], [3], [4]] example_sss = Inr (shares, sss') \<and>
     (\<forall>share \<in> set shares. even (sh_index share) \<longrightarrow> sh_value share = replicate 32 42)"
proof -
  obtain r where r: "split_secret example_fill (replicate 32 42) [[1], [2], [3], [4]] example_sss = Inr r"
    by (simp add: split_secret_def example_sss_def sss_new_def Let_def case_prod_beta)
  obtain shares sss' where "r = (shares, sss')" by fastforce
  with shares_reveal_secret [of example_fill "replicate 32 42" "[[1], [2], [3], [4]]" example_sss shares sss'] r
  show ?thesis by (auto simp: example_fill_def)
qed

text \<open>Reconstruction. With the parameters of the node, three of four shares, the value rebuilt from
  the shares of a split is the sum of the two random coefficients: it does not depend on the secret.\<close>

theorem reconstruction_ignores_secret:
  assumes split: "split_secret fill secret validators sss = Inr (shares, sss')"
    and params: "params_new 4 3 = Inr (ss_params sss)"
    and secret: "length secret = 32" and fill: "\<forall>r. length (fst (fill r)) = 32"
  shows "reconstruct shares sss' = Inr (foldr field_add (fst (draw fill 2 (ss_rng sss))) field_zero)"
proof -
  have p: "ss_params sss = \<lparr>tp_total_shares = 4, tp_threshold = 3\<rparr>" using params by (simp add: params_new_def split: if_splits)
  obtain cs rng where d: "draw fill 2 (ss_rng sss) = (cs, rng)" by fastforce
  have cs: "length cs = 2" "\<forall>c \<in> set cs. length c = 32" using draw_coefficients [OF fill] d by (metis fst_conv)+
  have len: "4 \<le> length validators" using split p by (auto simp: split_secret_def Let_def split: if_splits)
  let ?share = "\<lambda>i x. \<lparr>sh_index = x, sh_value = evaluate_polynomial (secret # cs) x, sh_holder = validators ! i\<rparr>"
  have r: "shares = [?share 0 1, ?share (Suc 0) 2, ?share (Suc (Suc 0)) 3, ?share (Suc (Suc (Suc 0))) 4]" "ss_params sss' = ss_params sss"
    using split len d p by (auto simp: split_secret_def Let_def upt_rec [of _ 4] simp del: evaluate_polynomial_simps)
  let ?three = "[?share 0 1, ?share (Suc 0) 2, ?share (Suc (Suc 0)) 3]"
  have ratios: "lagrange_ratio ?three 0 = (6, 2)" "lagrange_ratio ?three (Suc 0) = (3, - 1)"
      "lagrange_ratio ?three (Suc (Suc 0)) = (2, 2)"
    by (simp_all add: lagrange_ratio_def upt_rec [of _ 3])
  have "compute_lambda 6 2 = 87" "compute_lambda 3 (- 1) = - 129" "compute_lambda 2 2 = 86" by code_simp+
  then have lambdas: "odd (compute_lambda 6 2)" "odd (compute_lambda 3 (- 1))" "even (compute_lambda 2 2)" by simp_all
  have v: "evaluate_polynomial (secret # cs) 1 = field_add secret (foldr field_add cs field_zero)"
      "evaluate_polynomial (secret # cs) 2 = secret"
    using secret cs(2) evaluate_odd [of "secret # cs" 1] evaluate_even [OF secret cs(2), of 2]
    by (simp_all del: evaluate_polynomial_simps)
  have lens: "length (evaluate_polynomial (secret # cs) x) = 32" for x
    using secret cs(2) by (intro length_evaluate) simp
  have three: "take 3 shares = ?three" "length shares = 4" unfolding r(1) by (simp_all add: numeral_3_eq_3)
  have upto: "[0 ..< length ?three] = [0, Suc 0, Suc (Suc 0)]" by (simp add: upt_rec)
  have "reconstruct shares sss' = Inr (field_add (field_add secret (foldr field_add cs field_zero)) secret)"
    unfolding reconstruct_def r(2) p Let_def
    using three upto ratios lambdas v lens secret cs(2)
    by (simp add: field_mul_lambda_parity del: evaluate_polynomial_simps upt_Suc)
  also have "field_add (field_add secret (foldr field_add cs field_zero)) secret = foldr field_add cs field_zero"
    using secret cs(2) field_add_cancel [of secret "foldr field_add cs field_zero"] by (simp add: field_add_ac)
  finally show ?thesis using d by simp
qed

theorem reconstruction_ignores_secret_witness:
  "\<exists>shares sss'. split_secret example_fill (replicate 32 42) [[1], [2], [3], [4]] example_sss = Inr (shares, sss') \<and>
     reconstruct shares sss' = Inr (replicate 32 15)"
proof -
  obtain r where r: "split_secret example_fill (replicate 32 42) [[1], [2], [3], [4]] example_sss = Inr r"
    by (simp add: split_secret_def example_sss_def sss_new_def Let_def case_prod_beta)
  obtain shares sss' where s: "r = (shares, sss')" by fastforce
  have "foldr field_add (fst (draw example_fill 2 (ss_rng example_sss))) field_zero = replicate 32 15" by code_simp
  moreover have "params_new 4 3 = Inr (ss_params example_sss)" by code_simp
  ultimately show ?thesis
    using reconstruction_ignores_secret [of example_fill "replicate 32 42" "[[1], [2], [3], [4]]" example_sss shares sss'] r s
    by (auto simp: example_fill_def)
qed

text \<open>Encryption and decryption. Decryption succeeds with a text exactly if enough shares were given
  and the key they rebuild turns the ciphertext into that text and the text matches the commitment; it then
  returns the encrypted text whenever the rebuilt key is the one it was encrypted with.\<close>

theorem decrypt_inverts_encrypt:
  assumes enc: "encrypt fill sha key nonce plaintext validators te = Inr (payload, te')"
  shows "(reconstruct shares (te_sss te') = Inr key \<longrightarrow> decrypt sha payload shares te' = Inr plaintext) \<and>
    (decrypt sha payload shares te' = Inr p \<longleftrightarrow>
       (\<exists>k. reconstruct shares (te_sss te') = Inr k \<and> p = xor_encrypt sha (ep_ciphertext payload) k nonce \<and> sha p = sha plaintext)) \<and>
    length (ep_ciphertext payload) = length plaintext"
proof -
  have payload: "ep_ciphertext payload = xor_encrypt sha plaintext key nonce" "ep_nonce payload = nonce"
      "ep_commitment payload = sha plaintext"
    using enc by (cases "split_secret fill key validators (te_sss te)", auto simp: encrypt_def Let_def)+
  then show ?thesis
    by (cases "reconstruct shares (te_sss te')") (auto simp: decrypt_def xor_encrypt_involution Let_def)
qed

definition example_encryptor :: "nat threshold_encryptor" where
  "example_encryptor = encryptor_new \<lparr>tp_total_shares = 4, tp_threshold = 3\<rparr> 7"

definition example_shares :: "secret_share list" where
  "example_shares = map (\<lambda>i. \<lparr>sh_index = i, sh_value = replicate 32 (if i = 1 then 42 else 0), sh_holder = []\<rparr>) [1, 2, 3]"

theorem decrypt_inverts_encrypt_witness:
  "\<exists>payload te'. encrypt example_fill (\<lambda>x. x) (replicate 32 42) [] [104, 105] [[1], [2], [3], [4]] example_encryptor = Inr (payload, te') \<and>
     decrypt (\<lambda>x. x) payload example_shares te' = Inr [104, 105]"
proof -
  obtain r where r: "encrypt example_fill (\<lambda>x. x) (replicate 32 42) [] [104, 105] [[1], [2], [3], [4]] example_encryptor = Inr r"
    by (simp add: encrypt_def split_secret_def example_encryptor_def encryptor_new_def sss_new_def Let_def case_prod_beta)
  obtain payload te' where s: "r = (payload, te')" by fastforce
  have "ss_params (te_sss te') = \<lparr>tp_total_shares = 4, tp_threshold = 3\<rparr>"
    using r s by (auto simp: encrypt_def split_secret_def example_encryptor_def encryptor_new_def sss_new_def Let_def case_prod_beta)
  moreover have "reconstruct example_shares (sss_new \<lparr>tp_total_shares = 4, tp_threshold = 3\<rparr> ()) = Inr (replicate 32 42)"
    by code_simp
  ultimately have "reconstruct example_shares (te_sss te') = Inr (replicate 32 42)" by (simp add: reconstruct_def sss_new_def)
  with decrypt_inverts_encrypt [of example_fill "\<lambda>x. x" "replicate 32 42" "[]" "[104, 105]" "[[1], [2], [3], [4]]"
      example_encryptor payload te' example_shares] r s
  show ?thesis by auto
qed

text \<open>The threshold for a number of validators. It exceeds two thirds of the validators exactly for
  fewer than 2^31 of them, where the doubling wraps around, and it can be reached unless there is no validator.\<close>

theorem bft_safe_bounds:
  "(2 * unat n < 3 * unat (tp_threshold (bft_safe n)) \<longleftrightarrow> unat n < 2 ^ 31) \<and>
   (tp_threshold (bft_safe n) \<le> tp_total_shares (bft_safe n) \<longleftrightarrow> n \<noteq> 0)"
proof -
  define m where "m = unat (n * 2)"
  have n: "unat n < 2 ^ 32" using unsigned_less [of n] by simp
  then have m: "m = (if unat n < 2 ^ 31 then 2 * unat n else 2 * unat n - 2 ^ 32)"
    by (simp add: m_def unat_word_ariths mod_if mult.commute)
  have "unat (n * 2 div 3) = m div 3" by (simp add: unat_div m_def)
  moreover have "m div 3 + 1 < 2 ^ 32" using m n by (auto split: if_splits)
  ultimately have t: "unat (tp_threshold (bft_safe n)) = m div 3 + 1" by (simp add: bft_safe_def Let_def unat_word_ariths)
  have z: "n \<noteq> 0 \<longleftrightarrow> 0 < unat n" by (simp add: unat_gt_0)
  have "2 * unat n < 3 * (m div 3 + 1) \<longleftrightarrow> unat n < 2 ^ 31" using m n by (auto split: if_splits)
  moreover have "m div 3 + 1 \<le> unat n \<longleftrightarrow> 0 < unat n" using m n by (auto split: if_splits)
  ultimately show ?thesis using t z by (simp add: word_le_nat_alt) (simp add: bft_safe_def Let_def)
qed

end
