(* ===== verification/Wire_Messages.thy ===== *)
theory Wire_Messages
  imports Dag_Events Peer_Manager Threshold_Crypto
begin

text \<open>
  Network messages, \<^verbatim>\<open>src/network/message.rs\<close>. The encoding is the crate \<open>bincode\<close>: its two functions are
  parameters, and \<open>bincode_ok\<close> is what its documentation promises of them. The random message identifier is
  an argument.
\<close>

record hello_message =
  hl_version :: u8
  hl_chain_id :: u64
  hl_genesis_hash :: bytes
  hl_validator_id :: "validator_id option"
  hl_latest_round :: u64

record hello_ack_message =
  ha_accepted :: bool
  ha_reason :: "string option"
  ha_latest_round :: u64

record event_announce =
  ea_event_id :: event_id
  ea_creator :: validator_id
  ea_round :: u64

record event_request =
  eq_event_ids :: "event_id list"

record event_response =
  es_events :: "dag_event list"
  es_missing :: "event_id list"

record transaction_broadcast =
  tb_transaction :: encrypted_transaction

record sync_request =
  sq_from_round :: u64
  sq_to_round :: u64
  sq_max_events :: u64

record sync_response =
  sr_events :: "dag_event list"
  sr_has_more :: bool
  sr_next_round :: u64

record peer_address =
  pa_id :: peer_id
  pa_ip :: string
  pa_port :: u16

record peers_message =
  pr_peers :: "peer_address list"

record decryption_share_message =
  dm_event_id :: event_id
  dm_share :: secret_share

datatype message_type =
    Hello hello_message
  | HelloAck hello_ack_message
  | EventAnnounce event_announce
  | EventRequest event_request
  | EventResponse event_response
  | TransactionBroadcast transaction_broadcast
  | SyncRequest sync_request
  | SyncResponse sync_response
  | GetPeers
  | Peers peers_message
  | Ping u64
  | Pong u64
  | DecryptionShare decryption_share_message

record network_message =
  nm_version :: u8
  nm_message_id :: bytes
  nm_sender :: peer_id
  nm_payload :: message_type

definition message_new :: "bytes \<Rightarrow> peer_id \<Rightarrow> message_type \<Rightarrow> network_message" where
  "message_new message_id sender payload =
     \<lparr>nm_version = 1, nm_message_id = message_id, nm_sender = sender, nm_payload = payload\<rparr>"

definition to_bytes :: "(network_message \<Rightarrow> bytes option) \<Rightarrow> network_message \<Rightarrow> bytes" where
  "to_bytes serialize msg = (case serialize msg of Some bs \<Rightarrow> bs | None \<Rightarrow> [])"

definition from_bytes :: "(bytes \<Rightarrow> network_message option) \<Rightarrow> bytes \<Rightarrow> network_message option" where
  "from_bytes deserialize bs = deserialize bs"

definition bincode_ok :: "(network_message \<Rightarrow> bytes option) \<Rightarrow> (bytes \<Rightarrow> network_message option) \<Rightarrow> bool" where
  "bincode_ok serialize deserialize \<longleftrightarrow> (\<forall>msg bs. serialize msg = Some bs \<longrightarrow> deserialize bs = Some msg)"

lemma bincode_roundtrip:
  "bincode_ok serialize deserialize \<Longrightarrow> serialize msg \<noteq> None \<Longrightarrow> from_bytes deserialize (to_bytes serialize msg) = Some msg"
  by (auto simp: bincode_ok_def from_bytes_def to_bytes_def)

end
