(* ===== verification/Gossip.thy ===== *)
theory Gossip
  imports Wire_Messages Dag_Store
begin

text \<open>
  The gossip protocol, \<^verbatim>\<open>src/network/gossip.rs\<close>. The handler shares the peer manager and the DAG store with
  other components: a \<open>gossip_node\<close> is the three of them. The current instant and the random identifiers of
  the messages sent are arguments.
\<close>

record gossip_config =
  gc_fanout :: nat
  gc_max_request_batch :: nat
  gc_request_timeout :: nat
  gc_seen_cache_ttl :: nat

definition gossip_config_default :: gossip_config where
  "gossip_config_default =
     \<lparr>gc_fanout = 8, gc_max_request_batch = 100, gc_request_timeout = secs 5, gc_seen_cache_ttl = secs 300\<rparr>"

record pending_event =
  pe_announced_at :: nat
  pe_sources :: "peer_id list"
  pe_fetching :: bool

record gossip_protocol =
  gp_config :: gossip_config
  gp_local_id :: peer_id
  gp_seen_messages :: "(bytes, nat) hmap"
  gp_pending_events :: "(event_id, pending_event) hmap"
  gp_processed_events :: "event_id hset"

record gossip_node =
  gn_gossip :: gossip_protocol
  gn_peers :: peer_manager
  gn_dag :: dag_store

definition gossip_new :: "peer_id \<Rightarrow> gossip_config \<Rightarrow> gossip_protocol" where
  "gossip_new local_id config =
     \<lparr>gp_config = config, gp_local_id = local_id, gp_seen_messages = [], gp_pending_events = [], gp_processed_events = []\<rparr>"

definition is_seen :: "gossip_protocol \<Rightarrow> bytes \<Rightarrow> bool" where
  "is_seen g message_id = hm_contains (gp_seen_messages g) message_id"

definition mark_seen :: "nat \<Rightarrow> bytes \<Rightarrow> gossip_protocol \<Rightarrow> gossip_protocol" where
  "mark_seen now message_id g = g\<lparr>gp_seen_messages := hm_insert message_id now (gp_seen_messages g)\<rparr>"

definition handle_event_announce ::
    "nat \<Rightarrow> bytes \<Rightarrow> peer_id \<Rightarrow> event_announce \<Rightarrow> gossip_node \<Rightarrow> network_message option \<times> gossip_node" where
  "handle_event_announce now mid sender announce n =
     (let event_id = ea_event_id announce; g = gn_gossip n in
      if dag_contains (gn_dag n) event_id then (None, n)
      else if event_id \<in> set (gp_processed_events g) then (None, n)
      else
        let g = g\<lparr>gp_pending_events :=
              (case hm_get (gp_pending_events g) event_id of
                 Some p \<Rightarrow> hm_insert event_id (p\<lparr>pe_sources := pe_sources p @ [sender]\<rparr>) (gp_pending_events g)
               | None \<Rightarrow> hm_insert event_id \<lparr>pe_announced_at = now, pe_sources = [sender], pe_fetching = False\<rparr>
                   (gp_pending_events g))\<rparr>
        in (Some (message_new mid (gp_local_id g) (EventRequest \<lparr>eq_event_ids = [event_id]\<rparr>)), n\<lparr>gn_gossip := g\<rparr>))"

definition handle_event_request ::
    "bytes \<Rightarrow> peer_id \<Rightarrow> event_request \<Rightarrow> gossip_node \<Rightarrow> network_message option" where
  "handle_event_request mid sender request n =
     (let (events, missing) =
        fold (\<lambda>event_id (events, missing).
            case dag_get (gn_dag n) event_id of
              Some event \<Rightarrow> (events @ [event], missing)
            | None \<Rightarrow> (events, missing @ [event_id]))
          (eq_event_ids request) ([], [])
      in Some (message_new mid (gp_local_id (gn_gossip n)) (EventResponse \<lparr>es_events = events, es_missing = missing\<rparr>)))"

text \<open>One round of the loop over the events of a response.\<close>

definition accept_event :: "peer_id \<Rightarrow> dag_event \<Rightarrow> gossip_node \<Rightarrow> gossip_node" where
  "accept_event sender event n =
     (case validate_structure event of
        Inr _ \<Rightarrow>
          n\<lparr>gn_dag := dag_insert event (gn_dag n),
            gn_gossip := (gn_gossip n)
              \<lparr>gp_pending_events := hm_remove (ev_id event) (gp_pending_events (gn_gossip n)),
               gp_processed_events := List.insert (ev_id event) (gp_processed_events (gn_gossip n))\<rparr>,
            gn_peers := reward_peer sender 1 (gn_peers n)\<rparr>
      | Inl _ \<Rightarrow> n\<lparr>gn_peers := penalize_peer sender 10 (gn_peers n)\<rparr>)"

definition handle_event_response :: "peer_id \<Rightarrow> event_response \<Rightarrow> gossip_node \<Rightarrow> gossip_node" where
  "handle_event_response sender response n = fold (accept_event sender) (es_events response) n"

definition handle_message ::
    "nat \<Rightarrow> bytes \<Rightarrow> network_message \<Rightarrow> gossip_node \<Rightarrow> network_message option \<times> gossip_node" where
  "handle_message now mid msg n =
     (if is_seen (gn_gossip n) (nm_message_id msg) then (None, n)
      else
        let n = n\<lparr>gn_gossip := mark_seen now (nm_message_id msg) (gn_gossip n)\<rparr>
        in case nm_payload msg of
             EventAnnounce announce \<Rightarrow> handle_event_announce now mid (nm_sender msg) announce n
           | EventRequest request \<Rightarrow> (handle_event_request mid (nm_sender msg) request n, n)
           | EventResponse response \<Rightarrow> (None, handle_event_response (nm_sender msg) response n)
           | _ \<Rightarrow> (None, n))"

text \<open>The identifiers of the announcements are drawn one after the other.\<close>

definition broadcast_event ::
    "(nat \<Rightarrow> bytes) \<Rightarrow> dag_event \<Rightarrow> gossip_node \<Rightarrow> (peer_id \<times> network_message) list \<times> gossip_node" where
  "broadcast_event mids event n =
     (let g = gn_gossip n;
          n = n\<lparr>gn_dag := dag_insert event (gn_dag n),
                gn_gossip := g\<lparr>gp_processed_events := List.insert (ev_id event) (gp_processed_events g)\<rparr>\<rparr>;
          announce = \<lparr>ea_event_id = ev_id event, ea_creator = ev_creator event, ea_round = ev_round event\<rparr>;
          peers = best_peers (gc_fanout (gp_config g)) (gn_peers n)
      in (map (\<lambda>(i, peer). (pi_id peer, message_new (mids i) (gp_local_id g) (EventAnnounce announce))) (enumerate 0 peers), n))"

definition pending_fetch_count :: "gossip_protocol \<Rightarrow> nat" where
  "pending_fetch_count g = length (filter (\<lambda>p. \<not> pe_fetching p) (map snd (gp_pending_events g)))"

definition cleanup :: "nat \<Rightarrow> gossip_protocol \<Rightarrow> gossip_protocol" where
  "cleanup now g =
     g\<lparr>gp_seen_messages := filter (\<lambda>(_, time). now - time < gc_seen_cache_ttl (gp_config g)) (gp_seen_messages g),
       gp_pending_events := filter (\<lambda>(_, p). now - pe_announced_at p < gc_request_timeout (gp_config g) * 3) (gp_pending_events g)\<rparr>"

section \<open>Requests and responses\<close>

lemma request_fold:
  "fold (\<lambda>event_id (events, missing).
       case dag_get d event_id of Some event \<Rightarrow> (events @ [event], missing) | None \<Rightarrow> (events, missing @ [event_id])) ids (es, ms) =
   (es @ List.map_filter (dag_get d) ids, ms @ filter (\<lambda>i. dag_get d i = None) ids)"
  by (induction ids arbitrary: es ms) (auto simp: List.map_filter_def split: option.splits)

lemma handle_event_request_eq:
  "handle_event_request mid sender request n =
   Some (message_new mid (gp_local_id (gn_gossip n))
     (EventResponse \<lparr>es_events = List.map_filter (dag_get (gn_dag n)) (eq_event_ids request),
        es_missing = filter (\<lambda>i. dag_get (gn_dag n) i = None) (eq_event_ids request)\<rparr>))"
  by (simp add: handle_event_request_def request_fold)

text \<open>What a response adds to the store: its well-formed events, in order.\<close>

definition accepted :: "dag_event list \<Rightarrow> dag_event list" where
  "accepted es = filter (\<lambda>e. validate_structure e = Inr ()) es"

lemma response_fold:
  "gn_dag (fold (accept_event sender) es n) = fold dag_insert (accepted es) (gn_dag n)"
  "set (gp_processed_events (gn_gossip (fold (accept_event sender) es n))) =
     set (gp_processed_events (gn_gossip n)) \<union> ev_id ` set (accepted es)"
  "hm_get (gp_pending_events (gn_gossip (fold (accept_event sender) es n))) i =
     (if i \<in> ev_id ` set (accepted es) then None else hm_get (gp_pending_events (gn_gossip n)) i)"
  "gp_seen_messages (gn_gossip (fold (accept_event sender) es n)) = gp_seen_messages (gn_gossip n)"
proof (induction es arbitrary: n)
  case (Cons e es)
  {
    case 1
    then show ?case using Cons(1) by (simp add: accepted_def accept_event_def split: sum.splits)
  next
    case 2
    then show ?case using Cons(2) by (auto simp: accepted_def accept_event_def split: sum.splits)
  next
    case 3
    then show ?case using Cons(3) by (auto simp: accepted_def accept_event_def hm_lookup split: sum.splits)
  next
    case 4
    then show ?case using Cons(4) by (simp add: accept_event_def split: sum.splits)
  }
qed (simp_all add: accepted_def)

text \<open>Rewarding and penalizing senders keeps the peer table in order.\<close>

lemma pm_inv_accept: "pm_inv (gn_peers n) \<Longrightarrow> pm_inv (gn_peers (accept_event sender e n))"
  by (auto simp: accept_event_def reward_peer_def penalize_peer_def peer_reward_def peer_penalize_def
      intro: pm_inv_with_peer split: sum.splits)

lemma pm_inv_response: "pm_inv (gn_peers n) \<Longrightarrow> pm_inv (gn_peers (fold (accept_event sender) es n))"
  by (induction es arbitrary: n) (auto intro: pm_inv_accept)

text \<open>The three handlers of an exchange, with the messages they send.\<close>

definition announcement :: "bytes \<Rightarrow> peer_id \<Rightarrow> dag_event \<Rightarrow> network_message" where
  "announcement mid sender e =
     message_new mid sender (EventAnnounce \<lparr>ea_event_id = ev_id e, ea_creator = ev_creator e, ea_round = ev_round e\<rparr>)"

definition fetch_request :: "bytes \<Rightarrow> peer_id \<Rightarrow> event_id \<Rightarrow> network_message" where
  "fetch_request mid sender i = message_new mid sender (EventRequest \<lparr>eq_event_ids = [i]\<rparr>)"

definition fetch_response :: "bytes \<Rightarrow> peer_id \<Rightarrow> dag_event \<Rightarrow> network_message" where
  "fetch_response mid sender e = message_new mid sender (EventResponse \<lparr>es_events = [e], es_missing = []\<rparr>)"

lemma message_ids [simp]:
  "nm_message_id (announcement mid sender e) = mid" "nm_message_id (fetch_request mid sender i) = mid"
  "nm_message_id (fetch_response mid sender e) = mid"
  by (simp_all add: announcement_def fetch_request_def fetch_response_def message_new_def)

lemma broadcast_messages:
  "broadcast_event mids e n = (msgs, n') \<Longrightarrow> (p, msg) \<in> set msgs \<Longrightarrow>
   \<exists>i. msg = announcement (mids i) (gp_local_id (gn_gossip n)) e"
  by (auto simp: broadcast_event_def announcement_def Let_def)

lemma announce_handled:
  assumes "\<not> is_seen (gn_gossip n) mid" "\<not> dag_contains (gn_dag n) (ev_id e)" "ev_id e \<notin> set (gp_processed_events (gn_gossip n))"
  shows "\<exists>n'. handle_message now mid' (announcement mid sender e) n =
      (Some (fetch_request mid' (gp_local_id (gn_gossip n)) (ev_id e)), n') \<and> gn_dag n' = gn_dag n \<and>
    gp_seen_messages (gn_gossip n') = hm_insert mid now (gp_seen_messages (gn_gossip n)) \<and> gn_peers n' = gn_peers n \<and>
    gp_local_id (gn_gossip n') = gp_local_id (gn_gossip n)"
  using assms
  by (auto simp: handle_message_def announcement_def fetch_request_def message_new_def handle_event_announce_def mark_seen_def Let_def)

lemma request_handled:
  assumes "\<not> is_seen (gn_gossip n) mid" "dag_get (gn_dag n) (ev_id e) = Some e"
  shows "handle_message now mid' (fetch_request mid sender (ev_id e)) n =
    (Some (fetch_response mid' (gp_local_id (gn_gossip n)) e), n\<lparr>gn_gossip := mark_seen now mid (gn_gossip n)\<rparr>)"
  using assms
  by (simp add: handle_message_def fetch_request_def fetch_response_def message_new_def handle_event_request_eq mark_seen_def
      List.map_filter_def Let_def)

lemma response_handled:
  assumes "\<not> is_seen (gn_gossip n) mid" "validate_structure e = Inr ()"
  shows "\<exists>n'. handle_message now mid' (fetch_response mid sender e) n = (None, n') \<and> gn_dag n' = dag_insert e (gn_dag n) \<and>
    hm_get (gp_pending_events (gn_gossip n')) (ev_id e) = None"
proof -
  let ?n = "n\<lparr>gn_gossip := mark_seen now mid (gn_gossip n)\<rparr>"
  have "handle_message now mid' (fetch_response mid sender e) n = (None, fold (accept_event sender) [e] ?n)"
    using assms(1) by (simp add: handle_message_def fetch_response_def message_new_def handle_event_response_def Let_def)
  then show ?thesis using assms(2) response_fold(1,3) [of sender "[e]" ?n] by (simp add: accepted_def)
qed

section \<open>Properties\<close>

text \<open>An announced event is fetched. When a node broadcasts a well-formed event and a peer that does
  not have it receives the announcement, then the peer asks for it, the node answers the request, and with the
  answer the event is in the peer's store, no longer pending, and nothing else in the store has changed.\<close>

theorem announced_event_is_fetched:
  assumes ok: "validate_structure e = Inr ()"
    and sent: "broadcast_event mids e a = (msgs, a1)" "(p, msg) \<in> set msgs"
    and fresh: "\<not> is_seen (gn_gossip b) (nm_message_id msg)" "\<not> is_seen (gn_gossip a) m1"
      "\<not> is_seen (gn_gossip b) m2" "m2 \<noteq> nm_message_id msg"
    and unknown: "\<not> dag_contains (gn_dag b) (ev_id e)" "ev_id e \<notin> set (gp_processed_events (gn_gossip b))"
  shows "\<exists>req resp b1 a2 b2. handle_message t1 m1 msg b = (Some req, b1) \<and>
    handle_message t2 m2 req a1 = (Some resp, a2) \<and> handle_message t3 m3 resp b1 = (None, b2) \<and>
    gn_dag b2 = dag_insert e (gn_dag b) \<and> dag_get (gn_dag b2) (ev_id e) = Some e \<and>
    hm_get (gp_pending_events (gn_gossip b2)) (ev_id e) = None"
proof -
  obtain i where msg: "msg = announcement (mids i) (gp_local_id (gn_gossip a)) e" using broadcast_messages [OF sent] by blast
  have a1: "dag_get (gn_dag a1) (ev_id e) = Some e" "\<not> is_seen (gn_gossip a1) m1"
    using sent(1) fresh(2) by (auto simp: broadcast_event_def is_seen_def Let_def)
  obtain b1 where b1: "handle_message t1 m1 msg b = (Some (fetch_request m1 (gp_local_id (gn_gossip b)) (ev_id e)), b1)"
      "gn_dag b1 = gn_dag b" "gp_seen_messages (gn_gossip b1) = hm_insert (mids i) t1 (gp_seen_messages (gn_gossip b))"
    using announce_handled [of b "mids i" e t1 m1] fresh(1) unknown msg by auto
  have "\<not> is_seen (gn_gossip b1) m2" using fresh(3,4) b1(3) msg by (simp add: is_seen_def hm_lookup)
  from response_handled [OF this ok] request_handled [OF a1(2,1)] b1(1,2) show ?thesis
    by (metis dag_get_insert)
qed

text \<open>A node with one connected peer.\<close>

definition example_node :: "u8 \<Rightarrow> u8 \<Rightarrow> gossip_node" where
  "example_node me peer =
     \<lparr>gn_gossip = gossip_new [me] gossip_config_default,
      gn_peers = set_state 0 [peer] Connected (snd (add_peer 0 [peer] (SocketV4 [10, 0, 0, 1] 1) (pm_new [me] 4))), gn_dag = dag_new\<rparr>"

theorem announced_event_is_fetched_witness:
  "\<exists>msgs a1 msg req resp b1 a2 b2. broadcast_event (\<lambda>i. [1]) (example_event 1 1 0 []) (example_node 1 2) = (msgs, a1) \<and>
     msgs = [([2], msg)] \<and> handle_message 5 [2] msg (example_node 2 1) = (Some req, b1) \<and>
     handle_message 6 [3] req a1 = (Some resp, a2) \<and> handle_message 7 [4] resp b1 = (None, b2) \<and>
     dag_get (gn_dag b2) (replicate 32 1) = Some (example_event 1 1 0 [])"
proof -
  let ?e = "example_event 1 1 0 []"
  obtain a1 msg where bc: "broadcast_event (\<lambda>i. [1]) ?e (example_node 1 2) = ([([2], msg)], a1)" "nm_message_id msg = [1]"
    by (simp add: broadcast_event_def example_node_def gossip_new_def gossip_config_default_def best_peers_def add_peer_def
        pm_new_def set_state_def with_peer_def hm_modify_def peer_info_new_def peer_touch_def message_new_def Let_def)
  have "validate_structure ?e = Inr ()" by (simp add: validate_structure_ok) (simp add: example_event_def)
  moreover have "\<not> is_seen (gn_gossip (example_node x y)) m" "\<not> dag_contains (gn_dag (example_node x y)) i"
      "gp_processed_events (gn_gossip (example_node x y)) = []" for x y m i
    by (simp_all add: example_node_def gossip_new_def is_seen_def dag_contains_def dag_new_def)
  ultimately show ?thesis
    using announced_event_is_fetched [of ?e "\<lambda>i. [1]" "example_node 1 2" "[([2], msg)]" a1 "[2]" msg "example_node 2 1"
        "[2]" "[3]" 5 6 7 "[4]"] bc by simp blast
qed

text \<open>Property C31: handling a message. A message that was seen before changes nothing and gets no answer. Any
  other message is marked as seen, keeps the peer table in order, and inserts into the DAG exactly the well-formed events
  of a response, in their order, so that exactly their identifiers are added and every other entry stays. If in addition
  no such event comes under the identifier of a different one, the store stays consistent and holds the old events and
  these.\<close>

theorem handle_message_effect:
  assumes h: "handle_message now mid msg n = (reply, n')"
    and inv: "pm_inv (gn_peers n)" "dag_inv (gn_dag n)"
  defines "new \<equiv> (case nm_payload msg of EventResponse r \<Rightarrow> filter (\<lambda>e. validate_structure e = Inr ()) (es_events r) | _ \<Rightarrow> [])"
  shows "if is_seen (gn_gossip n) (nm_message_id msg) then reply = None \<and> n' = n
    else is_seen (gn_gossip n') (nm_message_id msg) \<and> pm_inv (gn_peers n') \<and> gn_dag n' = fold dag_insert new (gn_dag n) \<and>
      (\<forall>i. dag_contains (gn_dag n') i \<longleftrightarrow> dag_contains (gn_dag n) i \<or> i \<in> ev_id ` set new) \<and>
      (\<forall>i. i \<notin> ev_id ` set new \<longrightarrow> dag_get (gn_dag n') i = dag_get (gn_dag n) i) \<and>
      (ids_consistent ({e. has_event (gn_dag n) e} \<union> set new) \<longrightarrow>
         dag_inv (gn_dag n') \<and> {e. has_event (gn_dag n') e} = {e. has_event (gn_dag n) e} \<union> set new) \<and>
      handle_message now' mid' msg n' = (None, n')"
proof (cases "is_seen (gn_gossip n) (nm_message_id msg)")
  case True
  with h show ?thesis by (simp add: handle_message_def)
next
  case False
  let ?n = "n\<lparr>gn_gossip := mark_seen now (nm_message_id msg) (gn_gossip n)\<rparr>"
  have n': "gn_dag n' = fold dag_insert new (gn_dag n)" "pm_inv (gn_peers n')"
      "gp_seen_messages (gn_gossip n') = hm_insert (nm_message_id msg) now (gp_seen_messages (gn_gossip n))"
    using h False inv(1) response_fold(1,4) pm_inv_response [of ?n]
    by (auto simp: handle_message_def new_def accepted_def [symmetric] handle_event_announce_def handle_event_response_def mark_seen_def Let_def
        split: message_type.splits if_splits)
  then have "is_seen (gn_gossip n') (nm_message_id msg)" by (simp add: is_seen_def hm_lookup)
  moreover from this have "handle_message now' mid' msg n' = (None, n')" by (simp add: handle_message_def)
  ultimately show ?thesis
    using False n' dag_inv_fold [OF inv(2)] dag.has_fold_ins dag.get_fold_ins_other by simp
qed

theorem handle_message_effect_witness:
  "\<exists>reply n'. handle_message 5 [] (message_new [9] [2] (EventResponse \<lparr>es_events = [example_event 1 1 0 []], es_missing = []\<rparr>))
       (example_node 1 2) = (reply, n') \<and> gn_dag n' = dag_insert (example_event 1 1 0 []) (gn_dag (example_node 1 2)) \<and>
     dag_inv (gn_dag n') \<and> {e. has_event (gn_dag n') e} = {example_event 1 1 0 []}"
proof -
  let ?m = "message_new [9] [2] (EventResponse \<lparr>es_events = [example_event 1 1 0 []], es_missing = []\<rparr>)"
  have ok: "validate_structure (example_event 1 1 0 []) = Inr ()"
    by (simp add: validate_structure_ok) (simp add: example_event_def)
  have none: "{e. has_event (gn_dag (example_node 1 2)) e} = {}" "dag_inv (gn_dag (example_node 1 2))"
    by (simp_all add: example_node_def has_event_def dag_get_def) (simp add: dag_new_def)
  have pm: "pm_inv (gn_peers (example_node 1 2))" by (simp add: example_node_def pm_inv_set_state pm_inv_add)
  obtain reply n' where "handle_message 5 [] ?m (example_node 1 2) = (reply, n')" by fastforce
  with handle_message_effect [OF this pm none(2), of 0 "[]"] none(1) ok show ?thesis
    by (auto simp: message_new_def ids_consistent_def is_seen_def example_node_def gossip_new_def)
qed

text \<open>A response replaces events. Nothing relates a response to a request or an event to its
  identifier: any peer can replace an event of the store by another well-formed one, of its own making, under the
  same identifier, and is rewarded for it.\<close>

theorem response_replaces_event:
  assumes have_e: "dag_get (gn_dag n) (ev_id e) = Some e"
    and forged: "ev_id e' = ev_id e" "validate_structure e' = Inr ()"
    and fresh: "\<not> is_seen (gn_gossip n) (nm_message_id msg)"
    and msg: "nm_payload msg = EventResponse \<lparr>es_events = [e'], es_missing = []\<rparr>"
  shows "dag_get (gn_dag (snd (handle_message now mid msg n))) (ev_id e) = Some e' \<and>
    gn_peers (snd (handle_message now mid msg n)) = reward_peer (nm_sender msg) 1 (gn_peers n)"
  using assms by (simp add: handle_message_def handle_event_response_def accept_event_def Let_def)

theorem response_replaces_event_witness:
  "\<exists>n e'. n = (example_node 1 2)\<lparr>gn_dag := dag_insert (example_event 1 1 0 []) dag_new\<rparr> \<and>
     e' = (example_event 1 1 0 [])\<lparr>ev_creator := [66]\<rparr> \<and>
     dag_get (gn_dag (snd (handle_message 5 [] (message_new [9] [2] (EventResponse \<lparr>es_events = [e'], es_missing = []\<rparr>)) n)))
       (replicate 32 1) = Some e'"
proof -
  let ?e' = "(example_event 1 1 0 [])\<lparr>ev_creator := [66]\<rparr>"
  have "validate_structure ?e' = Inr ()" by (simp add: validate_structure_ok) (simp add: example_event_def)
  with response_replaces_event [of "(example_node 1 2)\<lparr>gn_dag := dag_insert (example_event 1 1 0 []) dag_new\<rparr>" "example_event 1 1 0 []" ?e'
      "message_new [9] [2] (EventResponse \<lparr>es_events = [?e'], es_missing = []\<rparr>)" 5 "[]"]
  show ?thesis by (simp add: message_new_def is_seen_def example_node_def gossip_new_def)
qed

end
