(* ===== verification/Transport.thy ===== *)
theory Transport
  imports Wire_Messages "HOL-Library.Sublist"
begin

text \<open>
  The TCP transport, \<^verbatim>\<open>src/network/transport.rs\<close>. A connection's outgoing channel is the list of byte
  strings handed to it, open as long as its writer task runs; the channel of incoming messages is the list of
  messages put into it. A socket is the sequence of bytes it delivers before it ends, and the outcome of an
  attempt to connect is an argument. Waiting for room in a full channel is left out.
\<close>

record transport_config =
  tc_listen_addr :: socket_addr
  tc_max_message_size :: nat
  tc_connect_timeout_ms :: u64

definition transport_config_default :: transport_config where
  "transport_config_default =
     \<lparr>tc_listen_addr = SocketV4 [0, 0, 0, 0] 30303, tc_max_message_size = 16 * 1024 * 1024, tc_connect_timeout_ms = 5000\<rparr>"

record connection =
  cn_peer_id :: peer_id
  cn_sent :: "bytes list"
  cn_open :: bool

record tcp_transport =
  tt_config :: transport_config
  tt_local_id :: peer_id
  tt_connections :: "(peer_id, connection) hmap"
  tt_incoming :: "(peer_id \<times> network_message) list"
  tt_receiver :: bool

datatype io_error = NotConnected | BrokenPipe | TimedOut | OsError

text \<open>The transport together with the peer manager it shares with the other components.\<close>

type_synonym net = "tcp_transport \<times> peer_manager"

definition transport_new :: "peer_id \<Rightarrow> transport_config \<Rightarrow> tcp_transport" where
  "transport_new local_id config =
     \<lparr>tt_config = config, tt_local_id = local_id, tt_connections = [], tt_incoming = [], tt_receiver = True\<rparr>"

definition take_receiver :: "tcp_transport \<Rightarrow> bool \<times> tcp_transport" where
  "take_receiver t = (tt_receiver t, t\<lparr>tt_receiver := False\<rparr>)"

definition is_connected :: "tcp_transport \<Rightarrow> peer_id \<Rightarrow> bool" where
  "is_connected t pid = hm_contains (tt_connections t) pid"

definition connection_count :: "tcp_transport \<Rightarrow> nat" where
  "connection_count t = length (tt_connections t)"

definition send ::
    "(network_message \<Rightarrow> bytes option) \<Rightarrow> nat \<Rightarrow> peer_id \<Rightarrow> network_message \<Rightarrow> net \<Rightarrow> (io_error + unit) \<times> net" where
  "send serialize now pid message n =
     (case n of (t, pm) \<Rightarrow>
        (case hm_get (tt_connections t) pid of
           None \<Rightarrow> (Inl NotConnected, n)
         | Some c \<Rightarrow>
             if cn_open c
             then (Inr (),
                   t\<lparr>tt_connections := hm_insert pid (c\<lparr>cn_sent := cn_sent c @ [to_bytes serialize message]\<rparr>) (tt_connections t)\<rparr>,
                   record_sent now pid pm)
             else (Inl BrokenPipe, n)))"

definition broadcast ::
    "(network_message \<Rightarrow> bytes option) \<Rightarrow> nat \<Rightarrow> network_message \<Rightarrow> net \<Rightarrow> nat \<times> net" where
  "broadcast serialize now message n =
     fold (\<lambda>pid (sent, n). case send serialize now pid message n of
             (Inr _, n) \<Rightarrow> (sent + 1, n) | (Inl _, n) \<Rightarrow> (sent, n))
       (map fst (tt_connections (fst n))) (0, n)"

definition setup_connection :: "nat \<Rightarrow> peer_id \<Rightarrow> net \<Rightarrow> net" where
  "setup_connection now pid n =
     (case n of (t, pm) \<Rightarrow>
        (t\<lparr>tt_connections := hm_insert pid \<lparr>cn_peer_id = pid, cn_sent = [], cn_open = True\<rparr> (tt_connections t)\<rparr>,
         set_state now pid Connected pm))"

text \<open>The outcome of the attempt to open the stream: an error, which includes the timeout, or a stream.\<close>

definition connect :: "nat \<Rightarrow> peer_id \<Rightarrow> socket_addr \<Rightarrow> io_error + unit \<Rightarrow> net \<Rightarrow> (io_error + unit) \<times> net" where
  "connect now pid addr outcome n =
     (case n of (t, pm) \<Rightarrow>
        if is_connected t pid then (Inr (), n)
        else
          let pm = snd (add_peer now pid addr pm);
              pm = set_state now pid Connecting pm
          in case outcome of
               Inl e \<Rightarrow> (Inl e, t, pm)
             | Inr _ \<Rightarrow> (Inr (), setup_connection now pid (t, pm)))"

definition disconnect :: "nat \<Rightarrow> peer_id \<Rightarrow> net \<Rightarrow> net" where
  "disconnect now pid n =
     (case n of (t, pm) \<Rightarrow>
        (t\<lparr>tt_connections := hm_remove pid (tt_connections t)\<rparr>, set_state now pid Disconnected pm))"

definition addr_to_peer_id :: "hash_fn \<Rightarrow> socket_addr \<Rightarrow> peer_id" where
  "addr_to_peer_id sha addr = sha (as_bytes (socket_addr_text addr))"

text \<open>One accepted connection of the \<open>listen\<close> loop.\<close>

definition accept :: "hash_fn \<Rightarrow> nat \<Rightarrow> socket_addr \<Rightarrow> net \<Rightarrow> net" where
  "accept sha now addr n =
     (case n of (t, pm) \<Rightarrow>
        let pid = addr_to_peer_id sha addr;
            pm = snd (add_peer now pid addr pm)
        in setup_connection now pid (t, pm))"

section \<open>The tasks of a connection\<close>

text \<open>\<open>listen\<close> with the outcome of binding the socket and the outcomes of \<open>accept\<close> so far: it goes on until one of
  them fails, and then returns the error.\<close>

fun listen_loop :: "hash_fn \<Rightarrow> nat \<Rightarrow> (io_error + socket_addr) list \<Rightarrow> net \<Rightarrow> io_error option \<times> net" where
  "listen_loop sha now [] n = (None, n)"
| "listen_loop sha now (Inl e # outcomes) n = (Some e, n)"
| "listen_loop sha now (Inr addr # outcomes) n = listen_loop sha now outcomes (accept sha now addr n)"

definition listen :: "hash_fn \<Rightarrow> nat \<Rightarrow> io_error + unit \<Rightarrow> (io_error + socket_addr) list \<Rightarrow> net \<Rightarrow> io_error option \<times> net" where
  "listen sha now bound outcomes n =
     (case bound of Inl e \<Rightarrow> (Some e, n) | Inr _ \<Rightarrow> listen_loop sha now outcomes n)"

text \<open>The writer puts the length of each message before it, cast to 32 bits.\<close>

definition frame :: "bytes \<Rightarrow> bytes" where
  "frame data = u32_to_be_bytes (word_of_nat (length data)) @ data"

definition writer_task :: "bytes list \<Rightarrow> bytes" where
  "writer_task datas = concat (map frame datas)"

text \<open>The reader takes frames off the bytes the socket delivers until one is too long or incomplete.\<close>

function read_frames :: "nat \<Rightarrow> bytes \<Rightarrow> bytes list" where
  "read_frames max_size stream =
     (if length stream < 4 then []
      else let len = unat (u32_from_be_bytes (take 4 stream)); rest = drop 4 stream
           in if max_size < len then []
              else if length rest < len then []
              else take len rest # read_frames max_size (drop len rest))"
  by pat_completeness auto
termination
  by (relation "measure (\<lambda>(max_size, stream). length stream)") auto

declare read_frames.simps [simp del]

definition deliver :: "(bytes \<Rightarrow> network_message option) \<Rightarrow> nat \<Rightarrow> peer_id \<Rightarrow> bytes \<Rightarrow> net \<Rightarrow> net" where
  "deliver deserialize now pid data n =
     (case n of (t, pm) \<Rightarrow>
        (case from_bytes deserialize data of
           Some msg \<Rightarrow> (t\<lparr>tt_incoming := tt_incoming t @ [(pid, msg)]\<rparr>, record_received now pid pm)
         | None \<Rightarrow> n))"

text \<open>When the reader ends it stops the writer, which closes the outgoing channel.\<close>

definition reader_task :: "(bytes \<Rightarrow> network_message option) \<Rightarrow> nat \<Rightarrow> peer_id \<Rightarrow> bytes \<Rightarrow> net \<Rightarrow> net" where
  "reader_task deserialize now pid stream n =
     (case fold (deliver deserialize now pid) (read_frames (tc_max_message_size (tt_config (fst n))) stream) n of (t, pm) \<Rightarrow>
        (t\<lparr>tt_connections := hm_modify pid (\<lambda>c. c\<lparr>cn_open := False\<rparr>) (tt_connections t)\<rparr>, pm))"

section \<open>Framing\<close>

lemma length_frame: "length (frame d) = 4 + length d"
  by (simp add: frame_def codec_simps)

lemma writer_task_append: "writer_task (xs @ ys) = writer_task xs @ writer_task ys"
  by (simp add: writer_task_def)

lemma writer_task_Cons: "writer_task (x # xs) = frame x @ writer_task xs"
  by (simp add: writer_task_def)

lemma read_frames_short: "length stream < 4 \<Longrightarrow> read_frames max_size stream = []"
  by (subst read_frames.simps) simp

lemma frame_length_field:
  "length d < 2 ^ 32 \<Longrightarrow> unat (u32_from_be_bytes (take 4 (frame d @ rest))) = length d"
proof -
  assume "length d < 2 ^ 32"
  then have "unat (word_of_nat (length d) :: u32) = length d" by (simp add: unsigned_of_nat take_bit_nat_eq_self)
  moreover have "take 4 (frame d @ rest) = u32_to_be_bytes (word_of_nat (length d))"
    by (simp add: frame_def codec_simps)
  ultimately show ?thesis by (simp add: codec_simps)
qed

lemma read_frames_Cons:
  assumes "length d < 2 ^ 32"
  shows "read_frames max_size (frame d @ rest) =
    (if length d \<le> max_size then d # read_frames max_size rest else [])"
proof -
  have "drop 4 (frame d @ rest) = d @ rest" by (simp add: frame_def codec_simps)
  then show ?thesis
    using frame_length_field [OF assms, of rest] by (subst read_frames.simps) (simp add: length_frame Let_def)
qed

text \<open>A stream that breaks off inside a frame gives nothing for it.\<close>

lemma read_frames_partial:
  assumes d: "length d < 2 ^ 32" and s: "strict_prefix s (frame d)"
  shows "read_frames max_size s = []"
proof (cases "length s < 4")
  case True
  then show ?thesis by (rule read_frames_short)
next
  case False
  obtain u where u: "frame d = s @ u" "u \<noteq> []" using s by (auto simp: strict_prefix_def prefix_def)
  have "take 4 s = take 4 (frame d @ [])" using False u(1) by simp
  then have "unat (u32_from_be_bytes (take 4 s)) = length d" using frame_length_field [OF d, of "[]"] by simp
  moreover have "length s < 4 + length d" using arg_cong [OF u(1), of length] u(2) by (simp add: length_frame)
  ultimately show ?thesis using False by (subst read_frames.simps) (simp add: Let_def)
qed

lemma read_frames_append:
  "\<forall>d \<in> set ds. length d < 2 ^ 32 \<and> length d \<le> max_size \<Longrightarrow>
   read_frames max_size (writer_task ds @ rest) = ds @ read_frames max_size rest"
  by (induction ds) (simp_all add: writer_task_def read_frames_Cons)

lemma prefix_writer_task:
  assumes "prefix s (writer_task ds)"
  obtains "s = writer_task ds" | i u where "i < length ds" "s = writer_task (take i ds) @ u" "strict_prefix u (frame (ds ! i))"
  using assms
proof (induction ds arbitrary: s thesis)
  case Nil
  then show ?case by (simp add: writer_task_def)
next
  case (Cons d ds)
  show ?case
  proof (cases "strict_prefix s (frame d)")
    case True
    then show ?thesis using Cons.prems(2) [of 0 s] by (simp add: writer_task_def)
  next
    case False
    then obtain s' where s': "s = frame d @ s'" "prefix s' (writer_task ds)"
      using Cons.prems(3) by (auto simp: writer_task_def prefix_append strict_prefix_def)
    show ?thesis
    proof (rule Cons.IH [OF _ _ s'(2)])
      assume "s' = writer_task ds"
      then show ?thesis using Cons.prems(1) s'(1) by (simp add: writer_task_def)
    next
      fix i u assume "i < length ds" "s' = writer_task (take i ds) @ u" "strict_prefix u (frame (ds ! i))"
      then show ?thesis using Cons.prems(2) [of "Suc i" u] s'(1) by (simp add: writer_task_def)
    qed
  qed
qed

lemma read_frames_prefix:
  assumes ds: "\<forall>d \<in> set ds. length d < 2 ^ 32 \<and> length d \<le> max_size" and s: "prefix s (writer_task ds)"
  shows "\<exists>k \<le> length ds. read_frames max_size s = take k ds \<and> (s = writer_task ds \<longrightarrow> k = length ds)"
  using s
proof (cases rule: prefix_writer_task)
  case 1
  then show ?thesis using read_frames_append [OF ds, of "[]"] by (auto simp: read_frames_short)
next
  case (2 i u)
  have front: "\<forall>d \<in> set (take i ds). length d < 2 ^ 32 \<and> length d \<le> max_size" using ds by (auto dest: in_set_takeD)
  have "length (ds ! i) < 2 ^ 32" using ds 2(1) by simp
  then have "read_frames max_size u = []" using 2(3) by (rule read_frames_partial)
  then have "read_frames max_size s = take i ds" using read_frames_append [OF front, of u] 2(2) by simp
  moreover have "s \<noteq> writer_task ds"
  proof
    assume "s = writer_task ds"
    moreover have "writer_task ds = writer_task (take i ds) @ frame (ds ! i) @ writer_task (drop (Suc i) ds)"
      using arg_cong [OF id_take_nth_drop [OF 2(1)], of writer_task] by (simp only: writer_task_append writer_task_Cons)
    ultimately have "u = frame (ds ! i) @ writer_task (drop (Suc i) ds)" using 2(2) by simp
    then show False using 2(3) by (auto simp: strict_prefix_def prefix_def)
  qed
  ultimately show ?thesis using 2(1) by (intro exI [of _ i]) simp
qed

lemma deliver_fold_incoming:
  assumes "\<forall>m \<in> set ms. from_bytes deserialize (to_bytes serialize m) = Some m"
  shows "tt_incoming (fst (fold (deliver deserialize now pid) (map (to_bytes serialize) ms) n)) =
    tt_incoming (fst n) @ map (Pair pid) ms"
  using assms
proof (induction ms arbitrary: n)
  case (Cons m ms)
  then have "tt_incoming (fst (deliver deserialize now pid (to_bytes serialize m) n)) = tt_incoming (fst n) @ [(pid, m)]"
    by (simp add: deliver_def case_prod_beta)
  with Cons show ?case by simp
qed simp

lemma deliver_fold_connections:
  "tt_connections (fst (fold (deliver deserialize now pid) ds n)) = tt_connections (fst n)"
proof (induction ds arbitrary: n)
  case (Cons d ds)
  have "tt_connections (fst (deliver deserialize now pid d n)) = tt_connections (fst n)"
    by (simp add: deliver_def case_prod_beta split: option.splits)
  with Cons show ?case by simp
qed simp

section \<open>Properties\<close>

text \<open>Property C17: messages cross a connection. Whatever part of the written bytes a socket delivers before it
  ends, the reader hands on the first messages, whole and in order; and all of them if every byte arrives.
  (Each message must have an encoding no longer than the limit and than a 32-bit length can express.)\<close>

theorem sent_messages_are_delivered:
  assumes bincode: "bincode_ok serialize deserialize"
    and ms: "\<forall>m \<in> set ms. serialize m \<noteq> None \<and> length (to_bytes serialize m) < 2 ^ 32 \<and>
      length (to_bytes serialize m) \<le> tc_max_message_size (tt_config t)"
    and s: "prefix s (writer_task (map (to_bytes serialize) ms))"
  shows "\<exists>k \<le> length ms.
    tt_incoming (fst (reader_task deserialize now pid s (t, pm))) = tt_incoming t @ map (Pair pid) (take k ms) \<and>
    (s = writer_task (map (to_bytes serialize) ms) \<longrightarrow> k = length ms)"
proof -
  have "\<forall>d \<in> set (map (to_bytes serialize) ms). length d < 2 ^ 32 \<and> length d \<le> tc_max_message_size (tt_config t)"
    using ms by simp
  from read_frames_prefix [OF this s] obtain k where k: "k \<le> length ms"
      "read_frames (tc_max_message_size (tt_config t)) s = map (to_bytes serialize) (take k ms)"
      "s = writer_task (map (to_bytes serialize) ms) \<longrightarrow> k = length ms"
    by (auto simp: take_map)
  have "\<forall>m \<in> set (take k ms). from_bytes deserialize (to_bytes serialize m) = Some m"
    using bincode_roundtrip [OF bincode] ms by (auto dest: in_set_takeD)
  from deliver_fold_incoming [OF this, of now pid "(t, pm)"] k show ?thesis
    by (auto simp: reader_task_def case_prod_beta)
qed

text \<open>An encoding of a few messages.\<close>

definition example_serialize :: "network_message \<Rightarrow> bytes option" where
  "example_serialize m = (case nm_payload m of
     Ping w \<Rightarrow> if m = message_new [] [] (Ping w) then Some (u64_to_le_bytes w) else None | _ \<Rightarrow> None)"

definition example_deserialize :: "bytes \<Rightarrow> network_message option" where
  "example_deserialize bs = Some (message_new [] [] (Ping (u64_from_le_bytes bs)))"

lemma example_bincode: "bincode_ok example_serialize example_deserialize"
  by (auto simp: bincode_ok_def example_serialize_def example_deserialize_def codec_simps split: message_type.splits if_splits)

theorem sent_messages_are_delivered_witness:
  "tt_incoming (fst (reader_task example_deserialize 0 [7]
     (writer_task (map (to_bytes example_serialize) [message_new [] [] (Ping 1), message_new [] [] (Ping 2)]))
     (transport_new [1] transport_config_default, pm_new [1] 5))) =
   [([7], message_new [] [] (Ping 1)), ([7], message_new [] [] (Ping 2))]"
proof -
  let ?ms = "[message_new [] [] (Ping 1), message_new [] [] (Ping 2)]"
  have ser: "example_serialize (message_new [] [] (Ping w)) = Some (u64_to_le_bytes w)" for w
    by (simp add: example_serialize_def message_new_def)
  have "\<forall>m \<in> set ?ms. example_serialize m \<noteq> None \<and> length (to_bytes example_serialize m) < 2 ^ 32 \<and>
      length (to_bytes example_serialize m) \<le> tc_max_message_size (tt_config (transport_new [1] transport_config_default))"
    by (simp add: ser to_bytes_def codec_simps transport_new_def transport_config_default_def)
  from sent_messages_are_delivered [OF example_bincode this prefix_order.refl, of 0 "[7]" "pm_new [1] 5"]
  show ?thesis by (auto simp: transport_new_def)
qed

text \<open>Accepted connections are told apart by their addresses: two of them share a temporary identifier only if their
  addresses are the same, unless the hash function collides on the two texts.\<close>

lemma addr_to_peer_id_inject:
  assumes "inj_on sha {as_bytes (socket_addr_text a), as_bytes (socket_addr_text b)}" "addr_ok a" "addr_ok b"
  shows "addr_to_peer_id sha a = addr_to_peer_id sha b \<longleftrightarrow> a = b"
  using assms by (auto simp: addr_to_peer_id_def as_bytes_inject socket_addr_text_inject)

text \<open>A dead connection is kept. When the other side ends the stream, the connection stays in the
  table: the peer still counts as connected, sending to it fails, and connecting to it again reports success
  without opening a new stream. Only an explicit disconnect clears the way.\<close>

theorem dead_connection_blocks_reconnect:
  assumes "is_connected t pid" and "reader_task deserialize now pid stream (t, pm) = n"
  shows "is_connected (fst n) pid \<and> fst (send serialize now' pid message n) = Inl BrokenPipe \<and>
    connect now' pid addr outcome n = (Inr (), n) \<and>
    (\<exists>n'. connect now' pid addr (Inr ()) (disconnect now' pid n) = (Inr (), n') \<and>
       fst (send serialize now' pid message n') = Inr ())"
proof -
  obtain c where c: "hm_get (tt_connections t) pid = Some c" using assms(1) by (auto simp: is_connected_def)
  have "hm_get (tt_connections (fst n)) pid = Some (c\<lparr>cn_open := False\<rparr>)"
    using assms(2) c deliver_fold_connections [of deserialize now pid _ "(t, pm)"]
    by (auto simp: reader_task_def case_prod_beta hmap_simps)
  then show ?thesis
    by (auto simp: is_connected_def send_def connect_def disconnect_def setup_connection_def case_prod_beta hm_lookup Let_def)
qed

theorem dead_connection_blocks_reconnect_witness:
  "\<exists>n. n = reader_task example_deserialize 0 [7] [] (setup_connection 0 [7] (transport_new [1] transport_config_default, pm_new [1] 5)) \<and>
     is_connected (fst n) [7] \<and> fst (send example_serialize 1 [7] (message_new [] [] (Ping 1)) n) = Inl BrokenPipe"
proof -
  let ?n = "setup_connection 0 [7] (transport_new [1] transport_config_default, pm_new [1] 5)"
  have "is_connected (fst ?n) [7]" by (simp add: setup_connection_def is_connected_def hm_lookup)
  from dead_connection_blocks_reconnect [OF this refl, of example_deserialize 0 "[]" "snd ?n" example_serialize 1 "message_new [] [] (Ping 1)"]
  show ?thesis by simp
qed

text \<open>The limit on peers and a ban do not hold connections back: connecting to an unknown peer when the table is
  full adds a connection that the peer manager does not know, and connecting to a banned peer makes it a
  connected one.\<close>

theorem connect_bypasses_peer_limits:
  assumes "\<not> is_connected t pid"
  shows "is_connected (fst (snd (connect now pid addr (Inr ()) (t, pm)))) pid \<and>
    (pm_max_peers pm \<le> peer_count pm \<and> get_peer pm pid = None \<longrightarrow>
       snd (snd (connect now pid addr (Inr ()) (t, pm))) = pm) \<and>
    (pid \<noteq> pm_local_id pm \<and> map_option pi_state (get_peer pm pid) = Some Banned \<longrightarrow>
       map_option pi_state (get_peer (snd (snd (connect now pid addr (Inr ()) (t, pm)))) pid) = Some Connected)"
proof -
  let ?pm = "set_state now pid Connected (set_state now pid Connecting (snd (add_peer now pid addr pm)))"
  have c: "connect now pid addr (Inr ()) (t, pm) = (Inr (), fst (setup_connection now pid (t, pm)), ?pm)"
    using assms by (simp add: connect_def setup_connection_def Let_def)
  have known: "get_peer (set_state now pid st m) pid = map_option (\<lambda>p. peer_touch now (p\<lparr>pi_state := st\<rparr>)) (get_peer m pid)" for st m
    by (simp add: get_peer_def set_state_def with_peer_def hmap_simps)
  have unknown: "set_state now pid st m = m" if "get_peer m pid = None" for st m
    using that by (simp add: get_peer_def set_state_def with_peer_def hm_modify_def)
  have "?pm = pm" if "pm_max_peers pm \<le> peer_count pm" "get_peer pm pid = None"
  proof -
    have "snd (add_peer now pid addr pm) = pm" using that by (simp add: add_peer_def peer_count_def get_peer_def)
    with that(2) show ?thesis by (simp add: unknown)
  qed
  moreover have "map_option pi_state (get_peer ?pm pid) = Some Connected"
    if "pid \<noteq> pm_local_id pm" "map_option pi_state (get_peer pm pid) = Some Banned"
  proof -
    have "get_peer (snd (add_peer now pid addr pm)) pid \<noteq> None"
      using that by (auto simp: add_peer_def get_peer_def hm_lookup)
    then show ?thesis by (auto simp: known peer_touch_def)
  qed
  ultimately show ?thesis
    unfolding c by (simp add: setup_connection_def is_connected_def hm_lookup)
qed

end
