(* ===== verification/Bls.thy ===== *)
theory Bls
  imports Core_Types
begin

text \<open>
  BLS signatures, \<^verbatim>\<open>src/crypto/bls.rs\<close>: wrappers around the crate \<open>blst\<close>. The crate is the parameter of type
  \<open>blst\<close>, a record of the functions the wrappers call (an error of the crate is \<open>None\<close> or \<open>False\<close>), and \<open>blst_ok\<close>
  is what it documents: keys and signatures survive their byte form, a signature verifies under its key for the
  message and tag it was made with.
\<close>

record ('sk, 'pk, 'sg, 'ag) blst =
  bl_key_gen :: "bytes \<Rightarrow> 'sk option"
  bl_sk_from_bytes :: "bytes \<Rightarrow> 'sk option"
  bl_sk_to_bytes :: "'sk \<Rightarrow> bytes"
  bl_sk_to_pk :: "'sk \<Rightarrow> 'pk"
  bl_sign :: "'sk \<Rightarrow> bytes \<Rightarrow> bytes \<Rightarrow> 'sg"
  bl_pk_from_bytes :: "bytes \<Rightarrow> 'pk option"
  bl_pk_to_bytes :: "'pk \<Rightarrow> bytes"
  bl_verify :: "'sg \<Rightarrow> bytes \<Rightarrow> bytes \<Rightarrow> 'pk \<Rightarrow> bool"
  bl_sg_from_bytes :: "bytes \<Rightarrow> 'sg option"
  bl_sg_to_bytes :: "'sg \<Rightarrow> bytes"
  bl_from_signature :: "'sg \<Rightarrow> 'ag"
  bl_add_signature :: "'sg \<Rightarrow> 'ag \<Rightarrow> 'ag option"
  bl_aggregate :: "'sg list \<Rightarrow> 'ag option"
  bl_to_signature :: "'ag \<Rightarrow> 'sg"
  bl_aggregate_verify :: "'sg \<Rightarrow> bytes list \<Rightarrow> bytes \<Rightarrow> 'pk list \<Rightarrow> bool"

text \<open>The domain separation tag \<open>RYTHER-PROTOCOL-V1\<close>.\<close>

definition DST :: bytes where
  "DST = map (\<lambda>c. word_of_nat (of_char c)) ''RYTHER-PROTOCOL-V1''"

datatype bls_error = InvalidSecretKey | InvalidPublicKey | InvalidSignature | VerificationFailed | EmptyAggregate

definition secret_key_generate :: "('sk, 'pk, 'sg, 'ag) blst \<Rightarrow> bytes \<Rightarrow> panic + 'sk" where
  "secret_key_generate b ikm = (case bl_key_gen b ikm of Some sk \<Rightarrow> Inr sk | None \<Rightarrow> Inl UnwrapNone)"

definition secret_key_from_bytes :: "('sk, 'pk, 'sg, 'ag) blst \<Rightarrow> bytes \<Rightarrow> bls_error + 'sk" where
  "secret_key_from_bytes b bs = (case bl_sk_from_bytes b bs of Some sk \<Rightarrow> Inr sk | None \<Rightarrow> Inl InvalidSecretKey)"

definition secret_key_to_bytes :: "('sk, 'pk, 'sg, 'ag) blst \<Rightarrow> 'sk \<Rightarrow> bytes" where
  "secret_key_to_bytes b sk = bl_sk_to_bytes b sk"

definition public_key :: "('sk, 'pk, 'sg, 'ag) blst \<Rightarrow> 'sk \<Rightarrow> 'pk" where
  "public_key b sk = bl_sk_to_pk b sk"

definition sign :: "('sk, 'pk, 'sg, 'ag) blst \<Rightarrow> 'sk \<Rightarrow> bytes \<Rightarrow> 'sg" where
  "sign b sk message = bl_sign b sk message DST"

definition public_key_from_bytes :: "('sk, 'pk, 'sg, 'ag) blst \<Rightarrow> bytes \<Rightarrow> bls_error + 'pk" where
  "public_key_from_bytes b bs = (case bl_pk_from_bytes b bs of Some pk \<Rightarrow> Inr pk | None \<Rightarrow> Inl InvalidPublicKey)"

definition public_key_to_bytes :: "('sk, 'pk, 'sg, 'ag) blst \<Rightarrow> 'pk \<Rightarrow> bytes" where
  "public_key_to_bytes b pk = bl_pk_to_bytes b pk"

definition to_validator_id :: "('sk, 'pk, 'sg, 'ag) blst \<Rightarrow> 'pk \<Rightarrow> validator_id" where
  "to_validator_id b pk = public_key_to_bytes b pk"

definition verify :: "('sk, 'pk, 'sg, 'ag) blst \<Rightarrow> 'pk \<Rightarrow> 'sg \<Rightarrow> bytes \<Rightarrow> bls_error + unit" where
  "verify b pk signature message = (if bl_verify b signature message DST pk then Inr () else Inl VerificationFailed)"

definition signature_from_bytes :: "('sk, 'pk, 'sg, 'ag) blst \<Rightarrow> bytes \<Rightarrow> bls_error + 'sg" where
  "signature_from_bytes b bs = (case bl_sg_from_bytes b bs of Some s \<Rightarrow> Inr s | None \<Rightarrow> Inl InvalidSignature)"

definition signature_to_bytes :: "('sk, 'pk, 'sg, 'ag) blst \<Rightarrow> 'sg \<Rightarrow> bytes" where
  "signature_to_bytes b s = bl_sg_to_bytes b s"

definition to_bls_signature :: "('sk, 'pk, 'sg, 'ag) blst \<Rightarrow> 'sg \<Rightarrow> bls_signature" where
  "to_bls_signature b s = signature_to_bytes b s"

definition agg_from_signature :: "('sk, 'pk, 'sg, 'ag) blst \<Rightarrow> 'sg \<Rightarrow> 'ag" where
  "agg_from_signature b s = bl_from_signature b s"

definition agg_add :: "('sk, 'pk, 'sg, 'ag) blst \<Rightarrow> 'sg \<Rightarrow> 'ag \<Rightarrow> panic + 'ag" where
  "agg_add b s agg = (case bl_add_signature b s agg of Some agg' \<Rightarrow> Inr agg' | None \<Rightarrow> Inl UnwrapNone)"

definition agg_finalize :: "('sk, 'pk, 'sg, 'ag) blst \<Rightarrow> 'ag \<Rightarrow> 'sg" where
  "agg_finalize b agg = bl_to_signature b agg"

definition aggregate :: "('sk, 'pk, 'sg, 'ag) blst \<Rightarrow> 'sg list \<Rightarrow> bls_error + 'sg" where
  "aggregate b signatures =
     (if signatures = [] then Inl EmptyAggregate
      else case bl_aggregate b signatures of
        Some agg \<Rightarrow> Inr (bl_to_signature b agg)
      | None \<Rightarrow> Inl InvalidSignature)"

definition verify_aggregate :: "('sk, 'pk, 'sg, 'ag) blst \<Rightarrow> 'sg \<Rightarrow> 'pk list \<Rightarrow> bytes list \<Rightarrow> bls_error + unit" where
  "verify_aggregate b signature public_keys messages =
     (if length public_keys \<noteq> length messages then Inl VerificationFailed
      else if bl_aggregate_verify b signature messages DST public_keys then Inr ()
      else Inl VerificationFailed)"

section \<open>Signatures in their byte form\<close>

definition blst_ok :: "('sk, 'pk, 'sg, 'ag) blst \<Rightarrow> bool" where
  "blst_ok b \<longleftrightarrow>
     (\<forall>pk. bl_pk_from_bytes b (bl_pk_to_bytes b pk) = Some pk \<and> length (bl_pk_to_bytes b pk) = 48) \<and>
     (\<forall>s. bl_sg_from_bytes b (bl_sg_to_bytes b s) = Some s \<and> length (bl_sg_to_bytes b s) = 96) \<and>
     (\<forall>sk m dst. bl_verify b (bl_sign b sk m dst) m dst (bl_sk_to_pk b sk))"

text \<open>What a receiver of an event can check: the creator's identifier read as a public key, the signature field
  read as a signature, and the signature verified for a message.\<close>

definition check_signature :: "('sk, 'pk, 'sg, 'ag) blst \<Rightarrow> validator_id \<Rightarrow> bls_signature \<Rightarrow> bytes \<Rightarrow> bls_error + unit" where
  "check_signature b creator signature message =
     and_then (public_key_from_bytes b creator) (\<lambda>pk.
     and_then (signature_from_bytes b signature) (\<lambda>s. verify b pk s message))"

lemma check_signature_signed:
  assumes "blst_ok b"
  shows "check_signature b (to_validator_id b (public_key b sk)) (to_bls_signature b (sign b sk message)) message = Inr ()"
  using assms
  by (simp add: blst_ok_def check_signature_def to_validator_id_def public_key_to_bytes_def public_key_from_bytes_def
      public_key_def to_bls_signature_def signature_to_bytes_def signature_from_bytes_def sign_def verify_def)

end
