(* ===== verification/Node_Config.thy ===== *)
theory Node_Config
  imports Peer_Manager
begin

text \<open>
  The configuration of a node, \<^verbatim>\<open>src/node/config.rs\<close>. Paths are kept as text; the number of
  processors is an argument. Reading and writing the file and the JSON form are the operating system and the
  crate \<open>serde_json\<close>: parameters of \<open>config_load\<close> and \<open>config_save\<close>.
\<close>

record chain_config =
  cc_chain_id :: u64
  cc_genesis_hash :: bytes
  cc_network_name :: string
  cc_initial_validators :: "(validator_id \<times> u64 \<times> address) list"

definition chain_config_default :: chain_config where
  "chain_config_default =
     \<lparr>cc_chain_id = 1, cc_genesis_hash = replicate 32 0, cc_network_name = ''ryther-mainnet'', cc_initial_validators = []\<rparr>"

record network_config =
  nc_listen_addr :: socket_addr
  nc_bootstrap_peers :: "string list"
  nc_max_peers :: nat
  nc_enable_discovery :: bool
  nc_connect_timeout_ms :: u64

definition network_config_default :: network_config where
  "network_config_default =
     \<lparr>nc_listen_addr = SocketV4 [0, 0, 0, 0] 30303, nc_bootstrap_peers = [], nc_max_peers = 50, nc_enable_discovery = True,
      nc_connect_timeout_ms = 5000\<rparr>"

record storage_config =
  sc_data_dir :: string
  sc_state_cache_mb :: nat
  sc_enable_pruning :: bool
  sc_prune_blocks :: u64

definition storage_config_default :: storage_config where
  "storage_config_default =
     \<lparr>sc_data_dir = ''./data'', sc_state_cache_mb = 512, sc_enable_pruning = False, sc_prune_blocks = 10000\<rparr>"

record execution_config =
  xc_parallel_threads :: nat
  xc_max_txs_per_block :: nat
  xc_block_gas_limit :: u64

definition execution_config_default :: "nat \<Rightarrow> execution_config" where
  "execution_config_default num_cpus =
     \<lparr>xc_parallel_threads = num_cpus, xc_max_txs_per_block = 10000, xc_block_gas_limit = 30000000\<rparr>"

record rpc_config =
  rc_enabled :: bool
  rc_listen_addr :: socket_addr
  rc_enable_ws :: bool
  rc_ws_addr :: socket_addr
  rc_allowed_origins :: "string list"

definition rpc_config_default :: rpc_config where
  "rpc_config_default =
     \<lparr>rc_enabled = True, rc_listen_addr = SocketV4 [127, 0, 0, 1] 8646, rc_enable_ws = True, rc_ws_addr = SocketV4 [127, 0, 0, 1] 8647,
      rc_allowed_origins = [''*'']\<rparr>"

record validator_config =
  vc_key_path :: string
  vc_produce_blocks :: bool
  vc_min_stake :: u64

record node_config =
  cfg_chain :: chain_config
  cfg_network :: network_config
  cfg_storage :: storage_config
  cfg_execution :: execution_config
  cfg_rpc :: rpc_config
  cfg_validator :: "validator_config option"

definition node_config_default :: "nat \<Rightarrow> node_config" where
  "node_config_default num_cpus =
     \<lparr>cfg_chain = chain_config_default, cfg_network = network_config_default, cfg_storage = storage_config_default,
      cfg_execution = execution_config_default num_cpus, cfg_rpc = rpc_config_default, cfg_validator = None\<rparr>"

definition is_validator :: "node_config \<Rightarrow> bool" where
  "is_validator c \<longleftrightarrow> cfg_validator c \<noteq> None"

definition config_load ::
    "(string \<Rightarrow> string + string) \<Rightarrow> (string \<Rightarrow> string + node_config) \<Rightarrow> string \<Rightarrow> string + node_config" where
  "config_load read_to_string from_str path =
     and_then (map_sum (\<lambda>e. ''Failed to read config: '' @ e) id (read_to_string path)) (\<lambda>content.
       map_sum (\<lambda>e. ''Failed to parse config: '' @ e) id (from_str content))"

definition config_save ::
    "(node_config \<Rightarrow> string + string) \<Rightarrow> (string \<Rightarrow> string \<Rightarrow> string + 'fs) \<Rightarrow> node_config \<Rightarrow> string \<Rightarrow> string + 'fs" where
  "config_save to_string_pretty write_file c path =
     and_then (map_sum (\<lambda>e. ''Failed to serialize config: '' @ e) id (to_string_pretty c)) (\<lambda>content.
       map_sum (\<lambda>e. ''Failed to write config: '' @ e) id (write_file path content))"

end
