(* ===== verification/Ryther_Node.thy ===== *)
theory Ryther_Node
  imports Commit_Detector Parallel_Executor Mempool Gossip Transport Bls Node_Config
begin

text \<open>
  The node, \<^verbatim>\<open>src/node/node.rs\<close>, which owns the other components and connects them. The components it shares
  between tasks are fields of one record; a task's step runs on it without interference. What the node takes from
  other crates and from the operating system (hash functions, \<open>blst\<close>, \<open>bincode\<close>, \<open>hex\<close>, the key
  file) is the record \<open>node_env\<close>; clock readings and random identifiers are arguments. Log lines are left out.
\<close>

record ('sk, 'pk, 'sg, 'ag) node_env =
  env_sha :: hash_fn
  env_keccak :: hash_fn
  env_blst :: "('sk, 'pk, 'sg, 'ag) blst"
  env_serialize :: "network_message \<Rightarrow> bytes option"
  env_hex_decode :: "string \<Rightarrow> bytes option"
  env_key_file :: "string \<Rightarrow> (string + string) option"

datatype node_state = Starting | Syncing | Running | Stopping | Stopped

record node_stats =
  ns_events_created :: u64
  ns_events_received :: u64
  ns_transactions_processed :: u64
  ns_rounds_committed :: u64
  ns_current_round :: u64
  ns_connected_peers :: nat
  ns_start_time :: u64

definition node_stats_default :: "u64 \<Rightarrow> node_stats" where
  "node_stats_default unix_secs =
     \<lparr>ns_events_created = 0, ns_events_received = 0, ns_transactions_processed = 0, ns_rounds_committed = 0,
      ns_current_round = 0, ns_connected_peers = 0, ns_start_time = unix_secs\<rparr>"

text \<open>The state database is the one the executor holds. The shutdown channel, of capacity one, is whether a signal is
  in it and where its receiver is: stored in the node, taken by \<open>start\<close>, or dropped by it.\<close>

datatype shutdown_rx = RxStored | RxTaken | RxDropped

record ('sk, 'r) ryther_node =
  nd_config :: node_config
  nd_state :: node_state
  nd_peer_id :: peer_id
  nd_validator_id :: "validator_id option"
  nd_validator_key :: "'sk option"
  nd_dag :: dag_store
  nd_validators :: validator_set
  nd_clock :: lamport_clock
  nd_commit_detector :: commit_detector
  nd_executor :: parallel_executor
  nd_mempool :: transaction_pool
  nd_peers :: peer_manager
  nd_gossip :: gossip_protocol
  nd_transport :: tcp_transport
  nd_stats :: node_stats
  nd_shutdown_signal :: bool
  nd_shutdown_rx :: shutdown_rx
  nd_threshold_encryptor :: "'r threshold_encryptor"
  nd_collected_shares :: "(event_id, (validator_id, secret_share) hmap) hmap"

section \<open>Creation\<close>

text \<open>\<open>str::trim\<close> on ASCII text.\<close>

definition is_ascii_space :: "char \<Rightarrow> bool" where
  "is_ascii_space c \<longleftrightarrow> c = CHR '' '' \<or> (9 \<le> (of_char c :: nat) \<and> (of_char c :: nat) \<le> 13)"

definition trim :: "string \<Rightarrow> string" where
  "trim s = rev (dropWhile is_ascii_space (rev (dropWhile is_ascii_space s)))"

definition load_validator_key ::
    "('sk, 'pk, 'sg, 'ag) node_env \<Rightarrow> node_config \<Rightarrow> panic + (validator_id \<times> 'sk) option" where
  "load_validator_key env config =
     (case cfg_validator config of
        None \<Rightarrow> Inr None
      | Some val_config \<Rightarrow>
          (case env_key_file env (vc_key_path val_config) of
             None \<Rightarrow> Inr None
           | Some (Inl e) \<Rightarrow> Inr None
           | Some (Inr key_hex) \<Rightarrow>
               (case env_hex_decode env (trim key_hex) of
                  None \<Rightarrow> Inl UnwrapNone
                | Some key_bytes \<Rightarrow>
                    if length key_bytes \<noteq> 32 then Inl UnwrapNone
                    else (case secret_key_from_bytes (env_blst env) key_bytes of
                            Inl e \<Rightarrow> Inl UnwrapNone
                          | Inr secret_key \<Rightarrow>
                              Inr (Some (public_key_to_bytes (env_blst env) (public_key (env_blst env) secret_key), secret_key))))))"

definition node_new ::
    "('sk, 'pk, 'sg, 'ag) node_env \<Rightarrow> nat \<Rightarrow> 'r \<Rightarrow> peer_id \<Rightarrow> u64 \<Rightarrow> node_config \<Rightarrow> panic + ('sk, 'r) ryther_node" where
  "node_new env num_cpus rng peer_id unix_secs config =
     and_then (map_sum (\<lambda>e. UnwrapNone) id (params_new 4 3)) (\<lambda>threshold_params.
     and_then (load_validator_key env config) (\<lambda>key.
       Inr \<lparr>nd_config = config, nd_state = Starting, nd_peer_id = peer_id,
            nd_validator_id = map_option fst key, nd_validator_key = map_option snd key,
            nd_dag = dag_new, nd_validators = vs_from_validators (cc_initial_validators (cfg_chain config)),
            nd_clock = clock_new, nd_commit_detector = cd_new vs_new (replicate 32 0),
            nd_executor = executor_new mvs_new (vm_new (cc_chain_id (cfg_chain config))) (executor_config_default num_cpus),
            nd_mempool = pool_new 10000, nd_peers = pm_new peer_id (nc_max_peers (cfg_network config)),
            nd_gossip = gossip_new peer_id gossip_config_default,
            nd_transport = transport_new peer_id
              (transport_config_default\<lparr>tc_listen_addr := nc_listen_addr (cfg_network config),
                 tc_connect_timeout_ms := nc_connect_timeout_ms (cfg_network config)\<rparr>),
            nd_stats = node_stats_default unix_secs, nd_shutdown_signal = False, nd_shutdown_rx = RxStored,
            nd_threshold_encryptor = encryptor_new threshold_params rng, nd_collected_shares = []\<rparr>))"

definition node_stats_of :: "('sk, 'r) ryther_node \<Rightarrow> node_stats" where
  "node_stats_of n = (nd_stats n)\<lparr>ns_connected_peers := connected_count (nd_peers n)\<rparr>"

section \<open>Views of the shared components\<close>

definition node_net :: "('sk, 'r) ryther_node \<Rightarrow> net" where
  "node_net n = (nd_transport n, nd_peers n)"

definition set_net :: "net \<Rightarrow> ('sk, 'r) ryther_node \<Rightarrow> ('sk, 'r) ryther_node" where
  "set_net net n = n\<lparr>nd_transport := fst net, nd_peers := snd net\<rparr>"

definition node_gossip :: "('sk, 'r) ryther_node \<Rightarrow> gossip_node" where
  "node_gossip n = \<lparr>gn_gossip = nd_gossip n, gn_peers = nd_peers n, gn_dag = nd_dag n\<rparr>"

definition set_gossip :: "gossip_node \<Rightarrow> ('sk, 'r) ryther_node \<Rightarrow> ('sk, 'r) ryther_node" where
  "set_gossip g n = n\<lparr>nd_gossip := gn_gossip g, nd_peers := gn_peers g, nd_dag := gn_dag g\<rparr>"

text \<open>Sending a list of messages one after the other; errors are ignored.\<close>

definition send_all ::
    "('sk, 'pk, 'sg, 'ag) node_env \<Rightarrow> nat \<Rightarrow> (peer_id \<times> network_message) list \<Rightarrow> ('sk, 'r) ryther_node \<Rightarrow> ('sk, 'r) ryther_node" where
  "send_all env now messages n =
     set_net (fold (\<lambda>(pid, msg) net. snd (send (env_serialize env) now pid msg net)) messages (node_net n)) n"

section \<open>Start and stop\<close>

text \<open>Up to five attempts to connect to a bootstrap peer, with the outcomes of the attempts.\<close>

fun connect_attempts :: "nat \<Rightarrow> peer_id \<Rightarrow> socket_addr \<Rightarrow> (io_error + unit) list \<Rightarrow> net \<Rightarrow> net" where
  "connect_attempts now pid addr [] net = net"
| "connect_attempts now pid addr (outcome # outcomes) net =
     (case connect now pid addr outcome net of
        (Inr _, net) \<Rightarrow> net
      | (Inl _, net) \<Rightarrow> connect_attempts now pid addr outcomes net)"

definition connect_bootstrap_peers ::
    "('sk, 'pk, 'sg, 'ag) node_env \<Rightarrow> nat \<Rightarrow> (string \<Rightarrow> nat \<Rightarrow> io_error + unit) \<Rightarrow> ('sk, 'r) ryther_node \<Rightarrow> ('sk, 'r) ryther_node" where
  "connect_bootstrap_peers env now outcome n =
     set_net (fold (\<lambda>peer_addr net.
         case parse_socket_addr peer_addr of
           Some addr \<Rightarrow>
             connect_attempts now (env_sha env (as_bytes peer_addr)) addr (map (outcome peer_addr) [0 ..< 5]) net
         | None \<Rightarrow> net)
       (nc_bootstrap_peers (cfg_network (nd_config n))) (node_net n)) n"

text \<open>\<open>start\<close> up to the point where it waits for the shutdown signal; the flag says whether it waits or returns.
  The lock on the receiver is held while waiting, so a second \<open>start\<close> waits too.\<close>

definition node_start ::
    "('sk, 'pk, 'sg, 'ag) node_env \<Rightarrow> nat \<Rightarrow> (string \<Rightarrow> nat \<Rightarrow> io_error + unit) \<Rightarrow> ('sk, 'r) ryther_node \<Rightarrow>
     bool \<times> ('sk, 'r) ryther_node" where
  "node_start env now outcome n =
     (let n = n\<lparr>nd_state := Syncing\<rparr>;
          n = connect_bootstrap_peers env now outcome n;
          n = n\<lparr>nd_state := Running\<rparr>
      in (nd_shutdown_rx n \<noteq> RxDropped,
          if nd_shutdown_rx n = RxStored then n\<lparr>nd_shutdown_rx := RxTaken\<rparr> else n))"

text \<open>\<open>stop\<close> waits for room in the channel if a signal is still in it (the flag says whether it got through), and
  ignores that nobody receives any more.\<close>

definition node_stop :: "('sk, 'r) ryther_node \<Rightarrow> bool \<times> ('sk, 'r) ryther_node" where
  "node_stop n =
     (let n = n\<lparr>nd_state := Stopping\<rparr> in
      if nd_shutdown_rx n = RxDropped then (True, n\<lparr>nd_state := Stopped\<rparr>)
      else if nd_shutdown_signal n then (False, n)
      else (True, n\<lparr>nd_shutdown_signal := True, nd_state := Stopped\<rparr>))"

section \<open>Messages\<close>

definition collect_share :: "decryption_share_message \<Rightarrow> ('sk, 'r) ryther_node \<Rightarrow> ('sk, 'r) ryther_node" where
  "collect_share m n =
     (let event_shares = (case hm_get (nd_collected_shares n) (dm_event_id m) of Some s \<Rightarrow> s | None \<Rightarrow> [])
      in n\<lparr>nd_collected_shares :=
            hm_insert (dm_event_id m) (hm_insert (sh_holder (dm_share m)) (dm_share m) event_shares) (nd_collected_shares n)\<rparr>)"

definition handle_incoming ::
    "('sk, 'pk, 'sg, 'ag) node_env \<Rightarrow> nat \<Rightarrow> bytes \<Rightarrow> peer_id \<times> network_message \<Rightarrow> ('sk, 'r) ryther_node \<Rightarrow> ('sk, 'r) ryther_node" where
  "handle_incoming env now mid incoming n =
     (case incoming of (pid, message) \<Rightarrow>
        (case nm_payload message of
           DecryptionShare share_msg \<Rightarrow> collect_share share_msg n
         | _ \<Rightarrow>
             (case handle_message now mid message (node_gossip n) of
                (Some response, g) \<Rightarrow> send_all env now [(pid, response)] (set_gossip g n)
              | (None, g) \<Rightarrow> set_gossip g n)))"

text \<open>The loop of \<open>handle_messages\<close> over the messages received so far.\<close>

definition handle_messages ::
    "('sk, 'pk, 'sg, 'ag) node_env \<Rightarrow> nat \<Rightarrow> (nat \<Rightarrow> bytes) \<Rightarrow> ('sk, 'r) ryther_node \<Rightarrow> ('sk, 'r) ryther_node" where
  "handle_messages env now mids n =
     (let (receiver, t) = take_receiver (nd_transport n) in
      if receiver
      then fold (\<lambda>(i, incoming). handle_incoming env now (mids i) incoming) (enumerate 0 (tt_incoming t))
             (n\<lparr>nd_transport := t\<lparr>tt_incoming := []\<rparr>\<rparr>)
      else n\<lparr>nd_transport := t\<rparr>)"

section \<open>Events\<close>

definition event_parents :: "dag_store \<Rightarrow> validator_id \<Rightarrow> event_id list" where
  "event_parents dag validator_id =
     (let parents = map ev_id (dag_events_at_round dag (dag_max_round dag))
      in case dag_latest_from dag validator_id of
           Some sp \<Rightarrow> if sp \<in> set parents then parents else parents @ [sp]
         | None \<Rightarrow> parents)"

definition create_event ::
    "('sk, 'pk, 'sg, 'ag) node_env \<Rightarrow> ('sk, 'r) ryther_node \<Rightarrow> dag_event option \<times> ('sk, 'r) ryther_node" where
  "create_event env n =
     (case (nd_validator_id n, nd_validator_key n) of
        (Some validator_id, Some secret_key) \<Rightarrow>
          (let max_round = dag_max_round (nd_dag n);
               parents = event_parents (nd_dag n) validator_id;
               (lamport_time, clock) = clock_tick (nd_clock n);
               round = max_round + 1;
               payload = \<lparr>eb_transactions = [], eb_batch_root = replicate 32 0\<rparr>;
               i = env_sha env (validator_id @ u64_to_le_bytes round @ concat parents);
               signature = sign (env_blst env) secret_key i
           in (Some \<lparr>ev_id = i, ev_creator = validator_id, ev_lamport_time = lamport_time, ev_round = round,
                     ev_strong_parents = parents, ev_weak_parents = [], ev_payload = payload,
                     ev_signature = to_bls_signature (env_blst env) signature\<rparr>,
               n\<lparr>nd_clock := clock\<rparr>))
      | _ \<Rightarrow> (None, n))"

section \<open>Commits\<close>

text \<open>The share for one event of the round is sent to the best peers; all its numbers are constants.\<close>

definition share_message :: "bytes \<Rightarrow> dag_event \<Rightarrow> validator_id \<Rightarrow> ('sk, 'r) ryther_node \<Rightarrow> network_message" where
  "share_message mid event validator_id n =
     message_new mid (nd_peer_id n) (DecryptionShare \<lparr>dm_event_id = ev_id event,
       dm_share = \<lparr>sh_index = 1, sh_value = replicate 32 0, sh_holder = validator_id\<rparr>\<rparr>)"

definition broadcast_share ::
    "('sk, 'pk, 'sg, 'ag) node_env \<Rightarrow> nat \<Rightarrow> bytes \<Rightarrow> dag_event \<Rightarrow> ('sk, 'r) ryther_node \<Rightarrow> ('sk, 'r) ryther_node" where
  "broadcast_share env now mid event n =
     (case nd_validator_id n of
        Some validator_id \<Rightarrow>
          send_all env now
            (map (\<lambda>peer. (pi_id peer, share_message mid event validator_id n)) (best_peers 100 (nd_peers n))) n
      | None \<Rightarrow> n)"

definition dummy_transaction :: decrypted_transaction where
  "dummy_transaction =
     \<lparr>dt_from = replicate 20 0xAA, dt_to = Some (replicate 20 0xBB), dt_value = u256_from_u64 100, dt_gas_limit = 21000,
      dt_gas_price = u256_from_u64 1000000000, dt_nonce = 0, dt_data = [], dt_source_commitment = replicate 32 0,
      dt_sequence_number = 0\<rparr>"

definition fee_recipient :: "hash_fn \<Rightarrow> validator_set \<Rightarrow> u64 \<Rightarrow> panic + address" where
  "fee_recipient sha validators round =
     (if vs_is_empty validators then Inr (replicate 20 0)
      else and_then (elect_leader sha validators round (replicate 32 0)) (\<lambda>leader.
        Inr (case leader of
               Some l \<Rightarrow> (case vs_get_address validators l of Some a \<Rightarrow> a | None \<Rightarrow> replicate 20 0)
             | None \<Rightarrow> replicate 20 0)))"

definition commit_context :: "u64 \<Rightarrow> u64 \<Rightarrow> address \<Rightarrow> block_context" where
  "commit_context round unix_secs coinbase =
     \<lparr>bc_number = round, bc_timestamp = unix_secs, bc_coinbase = coinbase, bc_gas_limit = 30000000,
      bc_base_fee = u256_from_u64 1000000000, bc_chain_id = 1\<rparr>"

primrec number_transactions :: "u64 \<Rightarrow> decrypted_transaction list \<Rightarrow> decrypted_transaction list" where
  "number_transactions start_seq [] = []"
| "number_transactions start_seq (tx # txs) =
     tx\<lparr>dt_sequence_number := start_seq\<rparr> # number_transactions (start_seq + 1) txs"

text \<open>The transactions of a committed round: the loop over the events adds none.\<close>

definition round_transactions :: "u64 \<Rightarrow> decrypted_transaction list" where
  "round_transactions round = (if 1 < round then [dummy_transaction] else [])"

definition execute_round ::
    "('sk, 'pk, 'sg, 'ag) node_env \<Rightarrow> u64 \<Rightarrow> u64 \<Rightarrow> decrypted_transaction list \<Rightarrow> ('sk, 'r) ryther_node \<Rightarrow>
     panic + ('sk, 'r) ryther_node" where
  "execute_round env unix_secs round all_txs n =
     (let all_txs = number_transactions ((round - 1) * 10000) all_txs;
          commitments = map dt_source_commitment all_txs;
          (_, mempool) = mark_included commitments (nd_mempool n)
      in and_then (fee_recipient (env_sha env) (nd_validators n) round) (\<lambda>coinbase.
         let (results, pe) = run_batch (env_keccak env) (commit_context round unix_secs coinbase) all_txs (nd_executor n)
         in and_then (finalize (env_sha env) (pe_state pe)) (\<lambda>s.
            Inr (n\<lparr>nd_mempool := mempool, nd_executor := pe\<lparr>pe_state := s\<rparr>,
                   nd_stats := (nd_stats n)
                     \<lparr>ns_rounds_committed := ns_rounds_committed (nd_stats n) + 1, ns_current_round := round,
                      ns_transactions_processed := ns_transactions_processed (nd_stats n) + word_of_nat (length commitments)\<rparr>\<rparr>))))"

definition process_commit ::
    "('sk, 'pk, 'sg, 'ag) node_env \<Rightarrow> nat \<Rightarrow> u64 \<Rightarrow> (nat \<Rightarrow> bytes) \<Rightarrow> commit_result \<Rightarrow> ('sk, 'r) ryther_node \<Rightarrow>
     panic + ('sk, 'r) ryther_node" where
  "process_commit env now unix_secs mids commit n =
     (let events = dag_events_at_round (nd_dag n) (cr_round commit);
          n = fold (\<lambda>(i, event). broadcast_share env now (mids i) event) (enumerate 0 events) n;
          all_txs = round_transactions (cr_round commit)
      in if all_txs = [] then Inr n else execute_round env unix_secs (cr_round commit) all_txs n)"

section \<open>The block producer\<close>

fun process_commits ::
    "('sk, 'pk, 'sg, 'ag) node_env \<Rightarrow> nat \<Rightarrow> u64 \<Rightarrow> (nat \<Rightarrow> nat \<Rightarrow> bytes) \<Rightarrow> commit_result list \<Rightarrow> ('sk, 'r) ryther_node \<Rightarrow>
     panic + ('sk, 'r) ryther_node" where
  "process_commits env now unix_secs mids [] n = Inr n"
| "process_commits env now unix_secs mids (commit # commits) n =
     and_then (process_commit env now unix_secs (mids 0) commit n)
       (process_commits env now unix_secs (\<lambda>k. mids (Suc k)) commits)"

text \<open>What the producer does with the event it created: it is inserted, and inserted again by the broadcast.\<close>

definition publish_event ::
    "('sk, 'pk, 'sg, 'ag) node_env \<Rightarrow> nat \<Rightarrow> (nat \<Rightarrow> bytes) \<Rightarrow> dag_event \<Rightarrow> ('sk, 'r) ryther_node \<Rightarrow> ('sk, 'r) ryther_node" where
  "publish_event env now mids event n =
     (let n = n\<lparr>nd_dag := dag_insert event (nd_dag n)\<rparr>;
          (messages, g) = broadcast_event mids event (node_gossip n)
      in send_all env now messages (set_gossip g n))"

text \<open>One round of the producer's loop.\<close>

definition producer_tick ::
    "('sk, 'pk, 'sg, 'ag) node_env \<Rightarrow> nat \<Rightarrow> u64 \<Rightarrow> (nat \<Rightarrow> nat \<Rightarrow> bytes) \<Rightarrow> ('sk, 'r) ryther_node \<Rightarrow> panic + ('sk, 'r) ryther_node" where
  "producer_tick env now unix_secs mids n =
     (let n = (case create_event env n of
                 (Some event, n) \<Rightarrow> publish_event env now (mids 0) event n
               | (None, n) \<Rightarrow> n)
      in and_then (try_advance (env_sha env) (nd_dag n) (nd_commit_detector n)) (\<lambda>(commits, detector).
           process_commits env now unix_secs (\<lambda>k. mids (Suc k)) commits (n\<lparr>nd_commit_detector := detector\<rparr>)))"

section \<open>What the steps leave alone\<close>

lemma send_all_frame [simp]:
  "nd_config (send_all env now ms n) = nd_config n" "nd_dag (send_all env now ms n) = nd_dag n"
  "nd_validators (send_all env now ms n) = nd_validators n" "nd_clock (send_all env now ms n) = nd_clock n"
  "nd_commit_detector (send_all env now ms n) = nd_commit_detector n" "nd_executor (send_all env now ms n) = nd_executor n"
  "nd_mempool (send_all env now ms n) = nd_mempool n" "nd_stats (send_all env now ms n) = nd_stats n"
  by (simp_all add: send_all_def set_net_def)

lemma broadcast_share_frame [simp]:
  "nd_dag (broadcast_share env now mid e n) = nd_dag n" "nd_validators (broadcast_share env now mid e n) = nd_validators n"
  "nd_commit_detector (broadcast_share env now mid e n) = nd_commit_detector n"
  "nd_executor (broadcast_share env now mid e n) = nd_executor n"
  "nd_mempool (broadcast_share env now mid e n) = nd_mempool n" "nd_stats (broadcast_share env now mid e n) = nd_stats n"
  by (simp_all add: broadcast_share_def split: option.splits)

definition share_loop ::
    "('sk, 'pk, 'sg, 'ag) node_env \<Rightarrow> nat \<Rightarrow> (nat \<Rightarrow> bytes) \<Rightarrow> (nat \<times> dag_event) list \<Rightarrow> ('sk, 'r) ryther_node \<Rightarrow> ('sk, 'r) ryther_node" where
  "share_loop env now mids es n = fold (\<lambda>(i, event). broadcast_share env now (mids i) event) es n"

lemma share_loop_frame [simp]:
  "nd_validators (share_loop env now mids es n) = nd_validators n" "nd_executor (share_loop env now mids es n) = nd_executor n"
  "nd_mempool (share_loop env now mids es n) = nd_mempool n" "nd_stats (share_loop env now mids es n) = nd_stats n"
  "nd_commit_detector (share_loop env now mids es n) = nd_commit_detector n" "nd_dag (share_loop env now mids es n) = nd_dag n"
  unfolding share_loop_def by (induction es arbitrary: n) auto

lemma process_commit_eq:
  "process_commit env now unix_secs mids commit n =
   (let n = share_loop env now mids (enumerate 0 (dag_events_at_round (nd_dag n) (cr_round commit))) n;
        all_txs = round_transactions (cr_round commit)
    in if all_txs = [] then Inr n else execute_round env unix_secs (cr_round commit) all_txs n)"
  by (simp add: process_commit_def share_loop_def Let_def)

lemma create_event_frame:
  assumes "create_event env n = (e, n')"
  shows "nd_dag n' = nd_dag n \<and> nd_commit_detector n' = nd_commit_detector n \<and> nd_executor n' = nd_executor n \<and>
    nd_mempool n' = nd_mempool n \<and> nd_stats n' = nd_stats n \<and> nd_validators n' = nd_validators n"
  using assms by (auto simp: create_event_def clock_tick_def Let_def split: option.splits)

lemma publish_event_frame [simp]:
  "nd_commit_detector (publish_event env now mids e n) = nd_commit_detector n"
  "nd_executor (publish_event env now mids e n) = nd_executor n" "nd_mempool (publish_event env now mids e n) = nd_mempool n"
  "nd_stats (publish_event env now mids e n) = nd_stats n" "nd_validators (publish_event env now mids e n) = nd_validators n"
  by (simp_all add: publish_event_def set_gossip_def Let_def case_prod_beta)

lemma publish_event_dag [simp]: "nd_dag (publish_event env now mids e n) = dag_insert e (dag_insert e (nd_dag n))"
  by (simp add: publish_event_def broadcast_event_def set_gossip_def node_gossip_def Let_def)

lemma shutdown_frame [simp]:
  "nd_shutdown_signal (send_all env now ms n) = nd_shutdown_signal n"
  "nd_shutdown_signal (broadcast_share env now mid e n) = nd_shutdown_signal n"
  "nd_shutdown_signal (share_loop env now mids es n) = nd_shutdown_signal n"
  "nd_shutdown_signal (publish_event env now mids e n) = nd_shutdown_signal n"
  "nd_shutdown_signal (set_net net n) = nd_shutdown_signal n" "nd_shutdown_signal (set_gossip g n) = nd_shutdown_signal n"
proof -
  show send: "nd_shutdown_signal (send_all env now ms n) = nd_shutdown_signal n" for ms and n :: "('a, 'b) ryther_node"
    by (simp add: send_all_def set_net_def)
  then show share: "nd_shutdown_signal (broadcast_share env now mid e n) = nd_shutdown_signal n" for mid e and n :: "('a, 'b) ryther_node"
    by (simp add: broadcast_share_def split: option.splits)
  show "nd_shutdown_signal (share_loop env now mids es n) = nd_shutdown_signal n"
    unfolding share_loop_def using share by (induction es arbitrary: n) auto
  show "nd_shutdown_signal (publish_event env now mids e n) = nd_shutdown_signal n"
    using send by (simp add: publish_event_def set_gossip_def Let_def case_prod_beta)
qed (simp_all add: set_net_def set_gossip_def)

lemma handle_incoming_frame [simp]:
  "nd_commit_detector (handle_incoming env now mid m n) = nd_commit_detector n"
  "nd_executor (handle_incoming env now mid m n) = nd_executor n" "nd_mempool (handle_incoming env now mid m n) = nd_mempool n"
  "nd_stats (handle_incoming env now mid m n) = nd_stats n" "nd_clock (handle_incoming env now mid m n) = nd_clock n"
  by (simp_all add: handle_incoming_def collect_share_def set_gossip_def Let_def case_prod_beta
      split: message_type.splits prod.splits option.splits)

lemma execute_round_frame:
  "execute_round env unix_secs r txs n = Inr n' \<Longrightarrow>
   nd_dag n' = nd_dag n \<and> nd_transport n' = nd_transport n \<and> nd_validator_id n' = nd_validator_id n \<and>
   nd_validator_key n' = nd_validator_key n \<and> nd_shutdown_signal n' = nd_shutdown_signal n"
  by (auto simp: execute_round_def and_then_eq_Inr case_prod_beta Let_def)

lemma producer_tick_cases:
  assumes "producer_tick env now unix_secs mids n = Inr n'"
  obtains e m commits detector where "create_event env n = (e, m)"
    "process_commits env now unix_secs (\<lambda>k. mids (Suc k)) commits
       ((case e of Some event \<Rightarrow> publish_event env now (mids 0) event m | None \<Rightarrow> m)\<lparr>nd_commit_detector := detector\<rparr>) = Inr n'"
proof -
  obtain e m where c: "create_event env n = (e, m)" by fastforce
  let ?m = "case e of Some event \<Rightarrow> publish_event env now (mids 0) event m | None \<Rightarrow> m"
  obtain commits detector where "process_commits env now unix_secs (\<lambda>k. mids (Suc k)) commits (?m\<lparr>nd_commit_detector := detector\<rparr>) = Inr n'"
    using assms c by (cases e) (auto simp: producer_tick_def and_then_eq_Inr)
  with c that show thesis by blast
qed

section \<open>Executing a committed round\<close>

lemma dummy_fails: "vm_check mvs_new (dummy_transaction\<lparr>dt_sequence_number := seq\<rparr>) \<noteq> None"
proof -
  let ?tx = "dummy_transaction\<lparr>dt_sequence_number := seq\<rparr>"
  have "u256_val (add_u256 (dt_value ?tx) (calculate_gas_cost ?tx)) = 100 + 21000000000000"
    using add_u256_val [of "u256_from_u64 100" "u256_from_u64 21000000000000"]
    by (simp add: dummy_transaction_def calculate_gas_cost_def u256_to_u64_def u256_from_u64_def u256_val_def)
  moreover have "u256_val (balance_at mvs_new a n) = 0" for a n
    by (simp add: balance_at_def mvs_read_def mvs_new_def u256_val_def U256_ZERO_def)
  ultimately show ?thesis unfolding vm_check_None by simp
qed

lemma finalize_new: "finalize sha mvs_new = Inr mvs_new"
  by (simp add: finalize_def mvs_new_def)

lemma run_dummy:
  assumes "pe_state pe = mvs_new"
  shows "pe_state (snd (run_batch keccak block [dummy_transaction\<lparr>dt_sequence_number := seq\<rparr>] pe)) = mvs_new"
proof -
  let ?tx = "dummy_transaction\<lparr>dt_sequence_number := seq\<rparr>"
  let ?single = "execute_single keccak (pe_vm pe) block"
  obtain e where e: "vm_check mvs_new ?tx = Some e" using dummy_fails by blast
  obtain r where r: "?single ?tx mvs_new = (r, mvs_new)" "er_write_set r = []"
    using vm_execute_failed [OF mvs_inv_new e, of keccak "pe_vm pe" block] by (simp add: execute_single_def)
  have "run_serial ?single (sort_key dt_sequence_number [?tx]) mvs_new = ([r], mvs_new)" using r(1) by simp
  from ryther.execute_batch_serial [OF mvs_inv_new _ this, of "pe_config pe"] assms r(2)
  show ?thesis by (simp add: run_batch_def commit_all_def commit_write_set_def ws_keys_def Let_def)
qed

lemma fee_recipient_total:
  "vs_is_empty vs \<or> vs_total_stake vs \<noteq> 0 \<Longrightarrow> \<exists>a. fee_recipient sha vs round = Inr a"
  by (auto simp: fee_recipient_def elect_leader_def Let_def)

lemma mark_zero_included:
  "c \<noteq> replicate 32 0 \<Longrightarrow> pool_get c (snd (mark_included [replicate 32 0] p)) = pool_get c p"
  by (simp add: pool_get_def pool_remove_def hm_lookup Let_def split: option.splits)

lemma process_commit_outcome:
  assumes s: "pe_state (nd_executor n) = mvs_new" and vs: "vs_is_empty (nd_validators n) \<or> vs_total_stake (nd_validators n) \<noteq> 0"
  shows "\<exists>n'. process_commit env now unix_secs mids commit n = Inr n' \<and> pe_state (nd_executor n') = mvs_new \<and>
    nd_validators n' = nd_validators n \<and> (\<forall>c. c \<noteq> replicate 32 0 \<longrightarrow> pool_get c (nd_mempool n') = pool_get c (nd_mempool n)) \<and>
    ns_rounds_committed (nd_stats n') = ns_rounds_committed (nd_stats n) + of_bool (1 < cr_round commit)"
proof (cases "1 < cr_round commit")
  case False
  then show ?thesis using s by (simp add: process_commit_eq round_transactions_def Let_def)
next
  case True
  define m where "m = share_loop env now mids (enumerate 0 (dag_events_at_round (nd_dag n) (cr_round commit))) n"
  have m: "pe_state (nd_executor m) = mvs_new" "nd_validators m = nd_validators n" "nd_mempool m = nd_mempool n" "nd_stats m = nd_stats n"
    using s by (simp_all add: m_def)
  obtain a where a: "fee_recipient (env_sha env) (nd_validators m) (cr_round commit) = Inr a"
    using fee_recipient_total vs m(2) by metis
  obtain results pe where run: "run_batch (env_keccak env) (commit_context (cr_round commit) unix_secs a)
      [dummy_transaction\<lparr>dt_sequence_number := (cr_round commit - 1) * 10000\<rparr>] (nd_executor m) = (results, pe)" by fastforce
  have pe: "pe_state pe = mvs_new" using run_dummy [OF m(1)] run by (metis snd_conv)
  have "process_commit env now unix_secs mids commit n = execute_round env unix_secs (cr_round commit) [dummy_transaction] m"
    using True by (simp add: process_commit_eq round_transactions_def m_def Let_def)
  then show ?thesis
    using True a run pe m mark_zero_included [of _ "nd_mempool n"]
    by (auto simp: execute_round_def finalize_new case_prod_beta Let_def) (simp add: dummy_transaction_def)
qed

section \<open>Steps of a running node\<close>

text \<open>What the tasks of a node do: a round of the block producer, an incoming message, a transaction submitted to
  the pool, the work of the transport, the periodic cleanup.\<close>

inductive background_step :: "('sk, 'pk, 'sg, 'ag) node_env \<Rightarrow> ('sk, 'r) ryther_node \<Rightarrow> ('sk, 'r) ryther_node \<Rightarrow> bool" for env where
  tick: "producer_tick env now unix_secs mids n = Inr n' \<Longrightarrow> background_step env n n'"
| incoming: "background_step env n (handle_incoming env now mid m n)"
| submit: "background_step env n (n\<lparr>nd_mempool := snd (pool_add now tx price (nd_mempool n))\<rparr>)"
| expire: "background_step env n (n\<lparr>nd_mempool := snd (prune_expired now (nd_mempool n))\<rparr>)"
| connected: "background_step env n (set_net (snd (connect now pid addr outcome (node_net n))) n)"
| accepted: "background_step env n (set_net (accept sha now addr (node_net n)) n)"
| received: "background_step env n (set_net (deliver deserialize now pid data (node_net n)) n)"
| disconnected: "background_step env n (set_net (disconnect now pid (node_net n)) n)"
| cleaned: "background_step env n (n\<lparr>nd_gossip := cleanup now (nd_gossip n)\<rparr>)"

text \<open>A running node is also started and stopped.\<close>

inductive node_step :: "('sk, 'pk, 'sg, 'ag) node_env \<Rightarrow> ('sk, 'r) ryther_node \<Rightarrow> ('sk, 'r) ryther_node \<Rightarrow> bool" for env where
  background: "background_step env n n' \<Longrightarrow> node_step env n n'"
| started: "node_step env n (snd (node_start env now outcomes n))"
| stopped: "node_step env n (snd (node_stop n))"

text \<open>What stays as the node was created: a detector without validators, an empty state, no committed round.\<close>

definition idle :: "('sk, 'r) ryther_node \<Rightarrow> bool" where
  "idle n \<longleftrightarrow> nd_commit_detector n = cd_new vs_new (replicate 32 0) \<and> pe_state (nd_executor n) = mvs_new \<and>
     ns_rounds_committed (nd_stats n) = 0 \<and> ns_transactions_processed (nd_stats n) = 0"

text \<open>A tick of an idle node creates and publishes an event, if the node is a validator.\<close>

lemma producer_tick_idle:
  assumes "idle n"
  shows "producer_tick env now unix_secs mids n =
    Inr (case create_event env n of (Some event, m) \<Rightarrow> publish_event env now (mids 0) event m | (None, m) \<Rightarrow> m)"
proof -
  define m where "m = (case create_event env n of (Some event, m) \<Rightarrow> publish_event env now (mids 0) event m | (None, m) \<Rightarrow> m)"
  have "nd_commit_detector m = nd_commit_detector n"
    using create_event_frame [of env n] by (auto simp: m_def split: prod.splits option.splits)
  then have d: "nd_commit_detector m = cd_new vs_new (replicate 32 0)" using assms by (simp add: idle_def)
  then have "m\<lparr>nd_commit_detector := cd_new vs_new (replicate 32 0)\<rparr> = m" by simp
  with d show ?thesis unfolding producer_tick_def m_def [symmetric] by (simp add: no_commit_without_validators)
qed

lemma idle_tick:
  assumes "idle n"
  shows "\<exists>n'. producer_tick env now unix_secs mids n = Inr n' \<and> idle n' \<and> nd_mempool n' = nd_mempool n"
  using assms create_event_frame [of env n]
  by (auto simp: producer_tick_idle [OF assms] idle_def split: prod.splits option.splits)

lemma idle_background: "background_step env n n' \<Longrightarrow> idle n \<Longrightarrow> idle n'"
proof (induction rule: background_step.induct)
  case (tick now unix_secs mids n n')
  with idle_tick [of n env now unix_secs mids] show ?case by auto
qed (simp_all add: idle_def set_net_def)

lemma idle_step: "node_step env n n' \<Longrightarrow> idle n \<Longrightarrow> idle n'"
  by (induction rule: node_step.induct)
    (simp_all add: idle_background, simp_all add: idle_def set_net_def node_start_def node_stop_def connect_bootstrap_peers_def Let_def)

interpretation idling: step_invariant "node_step env" idle
  by unfold_locales (rule idle_step)

lemma idle_new: "node_new env num_cpus rng peer_id unix_secs config = Inr n \<Longrightarrow> idle n"
  by (cases "load_validator_key env config")
    (auto simp: node_new_def params_new_def idle_def executor_new_def node_stats_default_def)

section \<open>Properties\<close>

text \<open>Property C36: a node never commits. However a node is configured, and whatever events, messages and
  transactions it gets, it never commits a round, processes no transaction and its state stays empty, although
  its block producer keeps running without a panic: its commit detector was given an empty validator set.\<close>

theorem node_never_commits:
  assumes new: "node_new env num_cpus rng peer_id unix_secs config = Inr n" and steps: "(node_step env)\<^sup>*\<^sup>* n n'"
  shows "ns_rounds_committed (nd_stats n') = 0 \<and> ns_transactions_processed (nd_stats n') = 0 \<and>
    pe_state (nd_executor n') = mvs_new \<and> cd_last_committed (nd_commit_detector n') = 0 \<and>
    (\<exists>n''. producer_tick env now secs' mids n' = Inr n'' \<and> nd_mempool n'' = nd_mempool n')"
proof -
  have "idle n'" using steps idle_new [OF new] by (rule idling.reachable_inv)
  then show ?thesis using idle_tick [of n' env now secs' mids] by (auto simp: idle_def cd_new_def)
qed

text \<open>Committed rounds execute nothing. Even when a round is committed, on a node whose state is empty
  processing it succeeds, changes nothing in the state, and removes no transaction from the pool, whatever
  transactions its events carry; it still counts the round as committed from the second one on.\<close>

theorem committed_rounds_execute_nothing:
  assumes s: "pe_state (nd_executor n) = mvs_new" and vs: "vs_is_empty (nd_validators n) \<or> vs_total_stake (nd_validators n) \<noteq> 0"
  shows "\<exists>n'. process_commits env now unix_secs mids commits n = Inr n' \<and> pe_state (nd_executor n') = mvs_new \<and>
    (\<forall>c. c \<noteq> replicate 32 0 \<longrightarrow> pool_get c (nd_mempool n') = pool_get c (nd_mempool n)) \<and>
    ns_rounds_committed (nd_stats n') =
      ns_rounds_committed (nd_stats n) + word_of_nat (length (filter (\<lambda>c. 1 < cr_round c) commits))"
  using assms
proof (induction commits arbitrary: n mids)
  case (Cons c commits)
  from process_commit_outcome [OF Cons.prems, of env now unix_secs "mids 0" c]
  obtain m where m: "process_commit env now unix_secs (mids 0) c n = Inr m" "pe_state (nd_executor m) = mvs_new"
      "nd_validators m = nd_validators n" "\<forall>c. c \<noteq> replicate 32 0 \<longrightarrow> pool_get c (nd_mempool m) = pool_get c (nd_mempool n)"
      "ns_rounds_committed (nd_stats m) = ns_rounds_committed (nd_stats n) + of_bool (1 < cr_round c)"
    by (elim exE conjE)
  from Cons.IH [OF m(2), of "\<lambda>k. mids (Suc k)"] m(3) Cons.prems(2)
  obtain n' where "process_commits env now unix_secs (\<lambda>k. mids (Suc k)) commits m = Inr n'" "pe_state (nd_executor n') = mvs_new"
      "\<forall>c. c \<noteq> replicate 32 0 \<longrightarrow> pool_get c (nd_mempool n') = pool_get c (nd_mempool m)"
      "ns_rounds_committed (nd_stats n') = ns_rounds_committed (nd_stats m) + word_of_nat (length (filter (\<lambda>c. 1 < cr_round c) commits))"
    by auto
  with m show ?case by (auto simp: algebra_simps)
qed simp

text \<open>An instance of the environment and a validator's configuration.\<close>

definition example_blst :: "(unit, unit, unit, unit) blst" where
  "example_blst = \<lparr>bl_key_gen = (\<lambda>_. Some ()), bl_sk_from_bytes = (\<lambda>_. Some ()), bl_sk_to_bytes = (\<lambda>_. replicate 32 7),
     bl_sk_to_pk = (\<lambda>_. ()), bl_sign = (\<lambda>_ _ _. ()), bl_pk_from_bytes = (\<lambda>_. Some ()), bl_pk_to_bytes = (\<lambda>_. replicate 48 8),
     bl_verify = (\<lambda>_ _ _ _. True), bl_sg_from_bytes = (\<lambda>_. Some ()), bl_sg_to_bytes = (\<lambda>_. replicate 96 9),
     bl_from_signature = (\<lambda>_. ()), bl_add_signature = (\<lambda>_ _. Some ()), bl_aggregate = (\<lambda>_. Some ()),
     bl_to_signature = (\<lambda>_. ()), bl_aggregate_verify = (\<lambda>_ _ _ _. True)\<rparr>"

lemma example_blst_ok: "blst_ok example_blst"
  by (simp add: blst_ok_def example_blst_def)

definition example_env :: "(unit, unit, unit, unit) node_env" where
  "example_env = \<lparr>env_sha = mix, env_keccak = mix, env_blst = example_blst,
     env_serialize = example_serialize, env_hex_decode = (\<lambda>_. Some (replicate 32 7)), env_key_file = (\<lambda>_. Some (Inr ''07''))\<rparr>"

definition example_config :: node_config where
  "example_config = (node_config_default 8)
     \<lparr>cfg_validator := Some \<lparr>vc_key_path = ''key'', vc_produce_blocks = True, vc_min_stake = 0\<rparr>\<rparr>"

definition fresh_node :: "(unit, nat) ryther_node" where
  "fresh_node = (case node_new example_env 8 0 [1] 0 example_config of Inr n \<Rightarrow> n)"

lemma fresh_node: "node_new example_env 8 0 [1] 0 example_config = Inr fresh_node"
    "nd_validator_id fresh_node = Some (replicate 48 8)" "nd_validator_key fresh_node = Some ()" "nd_dag fresh_node = dag_new"
    "nd_clock fresh_node = clock_new" "pe_state (nd_executor fresh_node) = mvs_new" "nd_validators fresh_node = vs_new"
  by (simp_all add: fresh_node_def node_new_def params_new_def load_validator_key_def example_config_def node_config_default_def
      chain_config_default_def vs_from_validators_def example_env_def secret_key_from_bytes_def public_key_to_bytes_def
      example_blst_def executor_new_def)

theorem node_never_commits_witness:
  "\<exists>n. node_new example_env 8 (0 :: nat) [1] 0 example_config = Inr n \<and>
     (\<exists>n''. producer_tick example_env 0 0 (\<lambda>_ _. []) n = Inr n'') \<and> pe_state (nd_executor n) = mvs_new"
  using node_never_commits [OF fresh_node(1) rtranclp.rtrancl_refl, of 0 0 "\<lambda>_ _. []"] fresh_node(1) by auto

theorem committed_rounds_execute_nothing_witness:
  "\<exists>n'. process_commits example_env 0 0 (\<lambda>_ _. [])
      [\<lparr>cr_round = 2, cr_anchor_id = [], cr_leader = [], cr_support_round = 3\<rparr>] fresh_node = Inr n' \<and> pe_state (nd_executor n') = mvs_new"
  using committed_rounds_execute_nothing [OF fresh_node(6), of example_env 0 0 "\<lambda>_ _. []"
      "[\<lparr>cr_round = 2, cr_anchor_id = [], cr_leader = [], cr_support_round = 3\<rparr>]"]
  by (auto simp: fresh_node(7) vs_is_empty_def vs_new_def)

lemma created_event_structure:
  assumes "create_event env n = (Some e, n')" "event_parents (nd_dag n) (ev_creator e) \<noteq> []"
    and "dag_max_round (nd_dag n) < u64_MAX" "clk_value (nd_clock n) < u64_MAX"
  shows "validate_structure e = Inr ()"
proof -
  have "dag_max_round (nd_dag n) + 1 \<noteq> 0" "clk_value (nd_clock n) + 1 \<noteq> 0"
    using assms(3,4) u64_succ_greater [of "dag_max_round (nd_dag n)" 0] u64_succ_greater [of "clk_value (nd_clock n)" 0]
    by (auto simp: word_gt_0)
  then show ?thesis
    using assms(1,2) by (auto simp: create_event_def clock_tick_def validate_structure_ok Let_def split: option.splits)
qed

text \<open>Property C24: the events of a validator. On a store that is not empty, and unless the round or the clock is at
  the last 64-bit value, the created event is well formed, above every known event and exactly one round above some
  known one, has as its strong parents exactly the events of the highest round and the validator's own latest event, and
  carries a signature of its identifier that verifies under its creator's key.\<close>

theorem created_event_valid:
  assumes e: "create_event env n = (Some e, n')" and inv: "dag_inv (nd_dag n)"
    and some: "dag_events_at_round (nd_dag n) (dag_max_round (nd_dag n)) \<noteq> []"
    and bounds: "dag_max_round (nd_dag n) < u64_MAX" "clk_value (nd_clock n) < u64_MAX"
    and blst: "blst_ok (env_blst env)" and key: "nd_validator_key n = Some sk"
      "nd_validator_id n = Some (to_validator_id (env_blst env) (public_key (env_blst env) sk))"
  shows "validate_structure e = Inr () \<and> (\<forall>x. has_event (nd_dag n) x \<longrightarrow> ev_round x < ev_round e) \<and>
    (\<exists>x. has_event (nd_dag n) x \<and> unat (ev_round e) = unat (ev_round x) + 1) \<and>
    set (ev_strong_parents e) = ev_id ` {x. has_event (nd_dag n) x \<and> ev_round x = dag_max_round (nd_dag n)} \<union>
      set_option (dag_latest_from (nd_dag n) (ev_creator e)) \<and>
    check_signature (env_blst env) (ev_creator e) (ev_signature e) (ev_id e) = Inr ()"
proof -
  let ?r = "dag_max_round (nd_dag n)" and ?v = "to_validator_id (env_blst env) (public_key (env_blst env) sk)"
  have sel: "ev_strong_parents e = event_parents (nd_dag n) ?v" "ev_creator e = ?v" "ev_round e = ?r + 1"
      "ev_lamport_time e = clk_value (nd_clock n) + 1"
      "ev_signature e = to_bls_signature (env_blst env) (sign (env_blst env) sk (ev_id e))"
    using e key by (auto simp: create_event_def clock_tick_def Let_def)
  note at = events_at_round_set [OF inv, of ?r]
  have parents: "set (event_parents (nd_dag n) ?v) =
      ev_id ` {x. has_event (nd_dag n) x \<and> ev_round x = ?r} \<union> set_option (dag_latest_from (nd_dag n) ?v)"
    using at by (auto simp: event_parents_def Let_def split: option.splits)
  obtain x where x: "has_event (nd_dag n) x" "ev_round x = ?r"
    using some at by (metis (mono_tags, lifting) list.set_intros(1) mem_Collect_eq neq_Nil_conv)
  have "event_parents (nd_dag n) ?v \<noteq> []" using parents x by fastforce
  with sel(2) have "validate_structure e = Inr ()" using created_event_structure [OF e] bounds by simp
  moreover have lt: "?r < ?r + 1" using bounds(1) u64_succ_greater [of ?r ?r] by simp
  then have "unat (?r + 1) = unat ?r + 1" using bounds(1) by (simp add: u64_add_nowrap word_less_nat_alt)
  moreover have "ev_round x < ev_round e" if "has_event (nd_dag n) x" for x
  proof -
    have "ev_round x \<le> ?r" using inv that by (simp add: dag_inv_def dag_max_round_def)
    with lt show ?thesis using sel(3) by (metis order_le_less_trans)
  qed
  ultimately show ?thesis using parents sel x check_signature_signed [OF blst] by fastforce
qed

theorem created_event_valid_witness:
  "\<exists>e n'. create_event example_env (fresh_node\<lparr>nd_dag := dag_insert (example_event 1 1 0 []) dag_new\<rparr>) = (Some e, n') \<and>
     validate_structure e = Inr () \<and> unat (ev_round e) = 1 \<and> replicate 32 1 \<in> set (ev_strong_parents e)"
proof -
  let ?d = "dag_insert (example_event 1 1 0 []) dag_new" and ?n = "fresh_node\<lparr>nd_dag := dag_insert (example_event 1 1 0 []) dag_new\<rparr>"
  have c: "ids_consistent (set [example_event 1 1 0 []])" by (simp add: ids_consistent_def)
  have d: "dag_inv ?d" "\<And>x. has_event ?d x \<longleftrightarrow> x = example_event 1 1 0 []" using dag_of_list [OF c] by simp_all
  have r: "dag_max_round ?d = 0" by (simp add: dag_max_round_def dag_insert_def dag_new_def Let_def)
  have "dag_events_at_round ?d 0 \<noteq> []" using d events_at_round_set [OF d(1), of 0] by auto
  moreover obtain e n' where e: "create_event example_env ?n = (Some e, n')"
    using fresh_node by (simp add: create_event_def clock_tick_def Let_def)
  moreover have "blst_ok (env_blst example_env)" using example_blst_ok by (simp add: example_env_def)
  moreover have "nd_validator_id ?n = Some (to_validator_id (env_blst example_env) (public_key (env_blst example_env) ()))"
    using fresh_node by (simp add: example_env_def example_blst_def to_validator_id_def public_key_to_bytes_def)
  ultimately show ?thesis
    using created_event_valid [OF e, of "()"] d r fresh_node by (auto simp: clock_new_def)
qed

text \<open>The first event is refused. The event a validator creates on an empty store is in round 1 and has
  no parents, which the structural validation rejects: a peer that fetches it does not take it and penalizes the
  sender. No node has an event of round 1 but its own.\<close>

theorem first_event_is_refused:
  assumes "create_event env n = (Some e, n')" and "nd_dag n = dag_new"
  shows "ev_round e = 1 \<and> validate_structure e = Inl NoParents \<and>
    handle_event_response sender \<lparr>es_events = [e], es_missing = []\<rparr> g = g\<lparr>gn_peers := penalize_peer sender 10 (gn_peers g)\<rparr>"
proof -
  have "event_parents dag_new v = []" for v
    by (simp add: event_parents_def dag_events_at_round_def dag_latest_from_def dag_new_def)
  moreover have "dag_max_round dag_new = 0" by (simp add: dag_max_round_def dag_new_def)
  ultimately have e: "ev_strong_parents e = []" "ev_round e = 1"
    using assms by (auto simp: create_event_def Let_def split: option.splits prod.splits)
  then have "validate_structure e = Inl NoParents" by (simp add: validate_structure_def is_genesis_def)
  with e(2) show ?thesis by (simp add: handle_event_response_def accept_event_def)
qed

theorem first_event_is_refused_witness:
  "\<exists>e n'. create_event example_env fresh_node = (Some e, n') \<and> validate_structure e = Inl NoParents"
proof -
  obtain e n' where "create_event example_env fresh_node = (Some e, n')"
    using fresh_node by (simp add: create_event_def clock_tick_def Let_def)
  with first_event_is_refused [OF this fresh_node(4)] show ?thesis by blast
qed

text \<open>The producer inserts its event twice, so the index of the round lists it twice, and the next event of the
  validator names it twice among its parents.\<close>

theorem published_event_is_listed_twice:
  assumes inv: "dag_inv (nd_dag n)" and new: "dag_max_round (nd_dag n) < ev_round e"
  shows "event_parents (nd_dag (publish_event env now mids e n)) (ev_creator e) = [ev_id e, ev_id e]"
proof -
  let ?d = "nd_dag n" and ?d' = "dag_insert e (dag_insert e (nd_dag n))"
  have none: "ids = []" if "hm_get (ds_by_round ?d) (ev_round e) = Some ids" for ids
  proof (rule ccontr)
    assume "ids \<noteq> []"
    then have "hd ids \<in> set ids" by simp
    with dag_invD(4) [OF inv that] obtain x where "dag_get ?d (hd ids) = Some x" "ev_round x = ev_round e" by blast
    moreover from this dag_invD(1) [OF inv] have "has_event ?d x" by (simp add: has_event_def)
    moreover from this have "ev_round x \<le> ds_max_round ?d" by (rule dag_invD(8) [OF inv])
    ultimately show False using new by (simp add: dag_max_round_def)
  qed
  have "hm_get (ds_by_round ?d') (ev_round e) = Some [ev_id e, ev_id e]"
    using none by (auto simp: insert_indices split: option.splits)
  moreover have "dag_max_round ?d' = ev_round e" using new by (simp add: dag_max_round_def insert_indices)
  ultimately have at: "map ev_id (dag_events_at_round ?d' (dag_max_round ?d')) = [ev_id e, ev_id e]"
    using dag_get_insert [of e "dag_insert e ?d" "ev_id e"] by (simp add: dag_events_at_round_def dag_get_def List.map_filter_def)
  have "dag_latest_from (dag_insert e ?d) (ev_creator e) = Some (ev_id e)"
  proof (cases "dag_latest_from ?d (ev_creator e)")
    case (Some i)
    with dag_invD(6) [OF inv this] obtain x where x: "dag_get ?d i = Some x" by blast
    with dag_invD(1) [OF inv] have "has_event ?d x" by (simp add: has_event_def)
    then have "ev_round x < ev_round e"
      using dag_invD(8) [OF inv, of x] new by (simp add: dag_max_round_def order_le_less_trans)
    with Some x show ?thesis by (simp add: insert_indices)
  qed (simp add: insert_indices)
  then have "dag_latest_from ?d' (ev_creator e) = Some (ev_id e)" by (simp add: insert_indices(3) [of e "dag_insert e ?d"])
  with at show ?thesis by (simp add: event_parents_def Let_def)
qed

text \<open>The clock counts the node's own events only, so an event can have a timestamp no later than that of its
  parent.\<close>

theorem created_event_may_precede_parent:
  assumes "create_event env n = (Some e, n')" and "dag_inv (nd_dag n)" and "has_event (nd_dag n) p"
    and "ev_round p = dag_max_round (nd_dag n)" and "clk_value (nd_clock n) < ev_lamport_time p"
  shows "ev_id p \<in> set (ev_strong_parents e) \<and> ev_lamport_time e \<le> ev_lamport_time p"
proof -
  have "p \<in> set (dag_events_at_round (nd_dag n) (dag_max_round (nd_dag n)))"
    using assms(3,4) events_at_round_set [OF assms(2)] by simp
  moreover have "clk_value (nd_clock n) + 1 \<le> ev_lamport_time p" using assms(5) by (rule inc_le)
  ultimately show ?thesis
    using assms(1) by (auto simp: create_event_def clock_tick_def event_parents_def Let_def split: option.splits)
qed

end
