(* ===== verification/Rpc.thy ===== *)
theory Rpc
  imports Block_Store Ryther_Node
begin

text \<open>
  The JSON-RPC server, \<^verbatim>\<open>src/node/rpc.rs\<close>: the dispatch of a request, its parameters and the answers. A JSON
  number is what \<open>as_u64\<close> says of it, and the members of an object are a list. The serialization that \<open>serde\<close>
  derives for blocks, receipts and logs, the deserialization of a log filter, the crate \<open>hex\<close> and Keccak-256 are the
  record \<open>rpc_env\<close>. The routes and the page of metrics are in \<^verbatim>\<open>Rpc_Server\<close>.
\<close>

datatype json = JNull | JBool bool | JNumber "u64 option" | JString string | JArray "json list" | JObject "(string \<times> json) list"

record rpc_env =
  rv_block :: "block \<Rightarrow> json option"
  rv_receipt :: "transaction_receipt \<Rightarrow> json option"
  rv_logs :: "receipt_log list \<Rightarrow> json option"
  rv_filter :: "json \<Rightarrow> string + log_filter"
  rv_hex_encode :: "bytes \<Rightarrow> string"
  rv_hex_decode :: "string \<Rightarrow> bytes option"
  rv_keccak :: hash_fn

record rpc_request =
  rq_jsonrpc :: string
  rq_method :: string
  rq_params :: "json option"
  rq_id :: json

record rpc_error =
  re_code :: int
  re_message :: string
  re_data :: "json option"

record rpc_response =
  rs_jsonrpc :: string
  rs_result :: "json option"
  rs_error :: "rpc_error option"
  rs_id :: json

definition rpc_success :: "json \<Rightarrow> json \<Rightarrow> rpc_response" where
  "rpc_success rid result = \<lparr>rs_jsonrpc = ''2.0'', rs_result = Some result, rs_error = None, rs_id = rid\<rparr>"

definition rpc_fail :: "json \<Rightarrow> int \<Rightarrow> string \<Rightarrow> rpc_response" where
  "rpc_fail rid code message =
     \<lparr>rs_jsonrpc = ''2.0'', rs_result = None,
      rs_error = Some \<lparr>re_code = code, re_message = message, re_data = None\<rparr>, rs_id = rid\<rparr>"

definition PARSE_ERROR :: int where "PARSE_ERROR = - 32700"
definition INVALID_REQUEST :: int where "INVALID_REQUEST = - 32600"
definition METHOD_NOT_FOUND :: int where "METHOD_NOT_FOUND = - 32601"
definition INVALID_PARAMS :: int where "INVALID_PARAMS = - 32602"
definition INTERNAL_ERROR :: int where "INTERNAL_ERROR = - 32603"

record ('sk, 'r) rpc_state =
  rp_node :: "('sk, 'r) ryther_node"
  rp_blocks :: block_store

section \<open>Parameters\<close>

text \<open>\<open>Vec::get\<close>.\<close>

definition arg :: "json list \<Rightarrow> nat \<Rightarrow> json option" where
  "arg arr i = (if i < length arr then Some (arr ! i) else None)"

fun as_bool :: "json \<Rightarrow> bool option" where
  "as_bool (JBool b) = Some b"
| "as_bool _ = None"

fun as_str :: "json \<Rightarrow> string option" where
  "as_str (JString s) = Some s"
| "as_str _ = None"

definition starts_0x :: "string \<Rightarrow> bool" where
  "starts_0x s \<longleftrightarrow> take 2 s = ''0x''"

text \<open>The first parameter as a block identifier: \<open>Inl\<close> is a panic (copying a slice of the wrong length into the
  hash), and an error message is \<open>Inl\<close> of the inner sum.\<close>

definition block_id_param :: "rpc_env \<Rightarrow> json option \<Rightarrow> panic + (string + block_ident)" where
  "block_id_param env p =
     (case p of
        Some (JString s) \<Rightarrow>
          if starts_0x s \<and> length s = 66
          then (case rv_hex_decode env (trim_0x s) of
                  None \<Rightarrow> Inr (Inl ''Invalid hash'')
                | Some bs \<Rightarrow> if length bs = 32 then Inr (Inr (BlockHash bs)) else Inl SliceLengthMismatch)
          else if starts_0x s
          then (case u64_from_hex (trim_0x s) of
                  None \<Rightarrow> Inr (Inl ''Invalid number'')
                | Some n \<Rightarrow> Inr (Inr (BlockNumber n)))
          else Inr (Inr (BlockTag s))
      | Some (JNumber n) \<Rightarrow> Inr (Inr (BlockNumber (case n of Some k \<Rightarrow> k | None \<Rightarrow> 0)))
      | _ \<Rightarrow> Inr (Inr (BlockTag ''latest'')))"

definition parse_block_params :: "rpc_env \<Rightarrow> json option \<Rightarrow> panic + (string + block_ident \<times> bool)" where
  "parse_block_params env params =
     (case params of
        Some (JArray arr) \<Rightarrow>
          and_then (block_id_param env (arg arr 0)) (\<lambda>block_id.
            let full_tx = (case Option.bind (arg arr 1) as_bool of Some b \<Rightarrow> b | None \<Rightarrow> False)
            in Inr (map_sum id (\<lambda>b. (b, full_tx)) block_id))
      | _ \<Rightarrow> Inr (Inr (BlockTag ''latest'', False)))"

definition parse_hash_param :: "rpc_env \<Rightarrow> json option \<Rightarrow> string + bytes" where
  "parse_hash_param env params =
     (case params of
        Some (JArray arr) \<Rightarrow>
          (case Option.bind (arg arr 0) as_str of
             None \<Rightarrow> Inl ''Missing hash''
           | Some hash_str \<Rightarrow>
               (case rv_hex_decode env (trim_0x hash_str) of
                  None \<Rightarrow> Inl ''Invalid hash format''
                | Some bs \<Rightarrow> if length bs \<noteq> 32 then Inl ''Hash must be 32 bytes'' else Inr bs))
      | _ \<Rightarrow> Inl ''Missing params'')"

definition log_filter_default :: log_filter where
  "log_filter_default = \<lparr>lf_from_block = None, lf_to_block = None, lf_address = None, lf_topics = None\<rparr>"

definition parse_log_filter :: "rpc_env \<Rightarrow> json option \<Rightarrow> string + log_filter" where
  "parse_log_filter env params =
     (case params of
        Some (JArray arr) \<Rightarrow>
          (let filter_obj = (case arg arr 0 of Some j \<Rightarrow> j | None \<Rightarrow> JObject [])
           in map_sum (\<lambda>e. ''Invalid filter: '' @ e) id (rv_filter env filter_obj))
      | _ \<Rightarrow> Inr log_filter_default)"

section \<open>Ethereum methods\<close>

definition eth_chain_id :: "json \<Rightarrow> rpc_response" where
  "eth_chain_id rid = rpc_success rid (JString ''0x1'')"

definition eth_block_number :: "('sk, 'r) rpc_state \<Rightarrow> json \<Rightarrow> rpc_response" where
  "eth_block_number st rid = (let latest = latest_number (rp_blocks st) in rpc_success rid (JString (format_0x latest)))"

definition eth_gas_price :: "json \<Rightarrow> rpc_response" where
  "eth_gas_price rid = rpc_success rid (JString ''0x3b9aca00'')"

definition eth_get_balance :: "json \<Rightarrow> rpc_response" where
  "eth_get_balance rid = rpc_success rid (JString ''0x0'')"

definition eth_get_transaction_count :: "json \<Rightarrow> rpc_response" where
  "eth_get_transaction_count rid = rpc_success rid (JString ''0x0'')"

definition eth_send_raw_transaction :: "json \<Rightarrow> rpc_response" where
  "eth_send_raw_transaction rid = rpc_fail rid INTERNAL_ERROR ''Not implemented''"

definition eth_call :: "json \<Rightarrow> rpc_response" where
  "eth_call rid = rpc_success rid (JString ''0x'')"

definition eth_estimate_gas :: "json \<Rightarrow> rpc_response" where
  "eth_estimate_gas rid = rpc_success rid (JString ''0x5208'')"

definition eth_get_code :: "json \<Rightarrow> rpc_response" where
  "eth_get_code rid = rpc_success rid (JString ''0x'')"

definition eth_get_storage_at :: "json \<Rightarrow> rpc_response" where
  "eth_get_storage_at rid = rpc_success rid (JString (''0x'' @ replicate 64 (CHR ''0'')))"

text \<open>\<open>unwrap_or(json!(null))\<close>.\<close>

definition or_null :: "json option \<Rightarrow> json" where
  "or_null j = (case j of Some v \<Rightarrow> v | None \<Rightarrow> JNull)"

definition block_result :: "rpc_env \<Rightarrow> json \<Rightarrow> block option \<Rightarrow> rpc_response" where
  "block_result env rid b =
     (case b of
        Some block \<Rightarrow> rpc_success rid (or_null (rv_block env block))
      | None \<Rightarrow> rpc_success rid JNull)"

definition eth_get_block_by_number :: "rpc_env \<Rightarrow> ('sk, 'r) rpc_state \<Rightarrow> json \<Rightarrow> json option \<Rightarrow> panic + rpc_response" where
  "eth_get_block_by_number env st rid params =
     and_then (parse_block_params env params) (\<lambda>parsed.
       case parsed of
         Inl e \<Rightarrow> Inr (rpc_fail rid INVALID_PARAMS e)
       | Inr (block_id, _) \<Rightarrow>
           (let block_num =
              (case block_id of
                 BlockNumber n \<Rightarrow> Some n
               | BlockTag tag \<Rightarrow>
                   if tag = ''latest'' then Some (latest_number (rp_blocks st))
                   else if tag = ''earliest'' then Some 0
                   else if tag = ''pending'' then Some (latest_number (rp_blocks st))
                   else None
               | BlockHash _ \<Rightarrow> None)
            in case block_num of
                 None \<Rightarrow> Inr (rpc_fail rid INVALID_PARAMS ''Invalid block id'')
               | Some n \<Rightarrow> Inr (block_result env rid (get_by_number (rp_blocks st) n))))"

definition eth_get_block_by_hash :: "rpc_env \<Rightarrow> ('sk, 'r) rpc_state \<Rightarrow> json \<Rightarrow> json option \<Rightarrow> rpc_response" where
  "eth_get_block_by_hash env st rid params =
     (case parse_hash_param env params of
        Inl e \<Rightarrow> rpc_fail rid INVALID_PARAMS e
      | Inr hash \<Rightarrow> block_result env rid (get_by_hash (rp_blocks st) hash))"

text \<open>The loop over the transactions of the block, with the position reached.\<close>

fun find_tx :: "nat \<Rightarrow> bytes \<Rightarrow> tx_hash list \<Rightarrow> nat option" where
  "find_tx i hash [] = None"
| "find_tx i hash (tx # txs) = (if tx = hash then Some i else find_tx (i + 1) hash txs)"

definition eth_get_transaction_by_hash :: "rpc_env \<Rightarrow> ('sk, 'r) rpc_state \<Rightarrow> json \<Rightarrow> json option \<Rightarrow> rpc_response" where
  "eth_get_transaction_by_hash env st rid params =
     (case parse_hash_param env params of
        Inl e \<Rightarrow> rpc_fail rid INVALID_PARAMS e
      | Inr hash \<Rightarrow>
          (case Option.bind (get_tx_block (rp_blocks st) hash) (get_by_number (rp_blocks st)) of
             None \<Rightarrow> rpc_success rid JNull
           | Some block \<Rightarrow>
               (case find_tx 0 hash (blk_transactions block) of
                  None \<Rightarrow> rpc_success rid JNull
                | Some i \<Rightarrow>
                    rpc_success rid (JObject
                      [(''hash'', JString (''0x'' @ rv_hex_encode env hash)),
                       (''blockHash'', JString (''0x'' @ rv_hex_encode env (blk_hash block))),
                       (''blockNumber'', JString (format_0x (blk_number block))),
                       (''transactionIndex'', JString (format_0x (word_of_nat i)))]))))"

definition eth_get_transaction_receipt :: "rpc_env \<Rightarrow> ('sk, 'r) rpc_state \<Rightarrow> json \<Rightarrow> json option \<Rightarrow> rpc_response" where
  "eth_get_transaction_receipt env st rid params =
     (case parse_hash_param env params of
        Inl e \<Rightarrow> rpc_fail rid INVALID_PARAMS e
      | Inr hash \<Rightarrow>
          (case get_receipt (rp_blocks st) hash of
             Some receipt \<Rightarrow> rpc_success rid (or_null (rv_receipt env receipt))
           | None \<Rightarrow> rpc_success rid JNull))"

definition resolve_block :: "u64 \<Rightarrow> u64 \<Rightarrow> block_ident option \<Rightarrow> u64" where
  "resolve_block latest default_block b =
     (case b of
        Some (BlockNumber n) \<Rightarrow> n
      | Some (BlockTag t) \<Rightarrow> if t = ''latest'' then latest else if t = ''earliest'' then 0 else default_block
      | _ \<Rightarrow> default_block)"

definition eth_get_logs :: "rpc_env \<Rightarrow> ('sk, 'r) rpc_state \<Rightarrow> json \<Rightarrow> json option \<Rightarrow> rpc_response" where
  "eth_get_logs env st rid params =
     (case parse_log_filter env params of
        Inl e \<Rightarrow> rpc_fail rid INVALID_PARAMS e
      | Inr f \<Rightarrow>
          (let latest = latest_number (rp_blocks st);
               from_block = resolve_block latest 0 (lf_from_block f);
               to_block = resolve_block latest latest (lf_to_block f);
               logs = get_logs (rp_blocks st) from_block to_block (lf_address f) (lf_topics f)
           in rpc_success rid (case rv_logs env logs of Some v \<Rightarrow> v | None \<Rightarrow> JArray [])))"

section \<open>Other methods\<close>

definition node_state_debug :: "node_state \<Rightarrow> string" where
  "node_state_debug st =
     (case st of Starting \<Rightarrow> ''Starting'' | Syncing \<Rightarrow> ''Syncing'' | Running \<Rightarrow> ''Running''
      | Stopping \<Rightarrow> ''Stopping'' | Stopped \<Rightarrow> ''Stopped'')"

abbreviation json_u64 :: "u64 \<Rightarrow> json" where "json_u64 n \<equiv> JNumber (Some n)"
abbreviation json_usize :: "nat \<Rightarrow> json" where "json_usize n \<equiv> JNumber (Some (word_of_nat n))"

definition ryther_node_info :: "rpc_env \<Rightarrow> ('sk, 'r) rpc_state \<Rightarrow> json \<Rightarrow> rpc_response" where
  "ryther_node_info env st rid =
     (let stats = node_stats_of (rp_node st) in
      rpc_success rid (JObject
        [(''peerId'', JString (rv_hex_encode env (nd_peer_id (rp_node st)))),
         (''state'', JString (node_state_debug (nd_state (rp_node st)))),
         (''currentRound'', json_u64 (ns_current_round stats)),
         (''eventsCreated'', json_u64 (ns_events_created stats)),
         (''eventsReceived'', json_u64 (ns_events_received stats)),
         (''roundsCommitted'', json_u64 (ns_rounds_committed stats)),
         (''transactionsProcessed'', json_u64 (ns_transactions_processed stats)),
         (''connectedPeers'', json_usize (ns_connected_peers stats)),
         (''blocksStored'', json_usize (block_count (rp_blocks st))),
         (''version'', JString ''0.1.0'')]))"

definition ryther_dag_info :: "('sk, 'r) rpc_state \<Rightarrow> json \<Rightarrow> rpc_response" where
  "ryther_dag_info st rid =
     (let stats = node_stats_of (rp_node st) in
      rpc_success rid (JObject
        [(''maxRound'', json_u64 (ns_current_round stats)),
         (''totalEvents'', json_u64 (ns_events_received stats + ns_events_created stats)),
         (''latestBlock'', json_u64 (latest_number (rp_blocks st)))]))"

definition ryther_get_peers :: "('sk, 'r) rpc_state \<Rightarrow> json \<Rightarrow> rpc_response" where
  "ryther_get_peers st rid =
     (let stats = node_stats_of (rp_node st) in
      rpc_success rid (JObject [(''count'', json_usize (ns_connected_peers stats)), (''peers'', JArray [])]))"

definition ryther_pool_status :: "json \<Rightarrow> rpc_response" where
  "ryther_pool_status rid = rpc_success rid (JObject [(''pending'', json_u64 0), (''queued'', json_u64 0)])"

definition net_version :: "json \<Rightarrow> rpc_response" where
  "net_version rid = rpc_success rid (JString ''1'')"

definition net_peer_count :: "('sk, 'r) rpc_state \<Rightarrow> json \<Rightarrow> rpc_response" where
  "net_peer_count st rid =
     (let stats = node_stats_of (rp_node st) in rpc_success rid (JString (format_0x (word_of_nat (ns_connected_peers stats)))))"

definition net_listening :: "json \<Rightarrow> rpc_response" where
  "net_listening rid = rpc_success rid (JBool True)"

definition web3_client_version :: "json \<Rightarrow> rpc_response" where
  "web3_client_version rid = rpc_success rid (JString ''Ryther/v0.1.0'')"

definition web3_sha3 :: "rpc_env \<Rightarrow> json \<Rightarrow> json option \<Rightarrow> rpc_response" where
  "web3_sha3 env rid params =
     (case params of
        Some (JArray (JString data # _)) \<Rightarrow>
          (case rv_hex_decode env (trim_0x data) of
             Some bs \<Rightarrow> rpc_success rid (JString (''0x'' @ rv_hex_encode env (rv_keccak env bs)))
           | None \<Rightarrow> rpc_fail rid INVALID_PARAMS ''Invalid input'')
      | _ \<Rightarrow> rpc_fail rid INVALID_PARAMS ''Invalid input'')"

section \<open>Dispatch\<close>

text \<open>The methods, each with the answer to a request identifier and parameters.\<close>

definition rpc_methods :: "rpc_env \<Rightarrow> ('sk, 'r) rpc_state \<Rightarrow> (string \<times> (json \<Rightarrow> json option \<Rightarrow> panic + rpc_response)) list" where
  "rpc_methods env st =
     [(''eth_chainId'', \<lambda>rid params. Inr (eth_chain_id rid)),
      (''eth_blockNumber'', \<lambda>rid params. Inr (eth_block_number st rid)),
      (''eth_gasPrice'', \<lambda>rid params. Inr (eth_gas_price rid)),
      (''eth_getBalance'', \<lambda>rid params. Inr (eth_get_balance rid)),
      (''eth_getTransactionCount'', \<lambda>rid params. Inr (eth_get_transaction_count rid)),
      (''eth_sendRawTransaction'', \<lambda>rid params. Inr (eth_send_raw_transaction rid)),
      (''eth_call'', \<lambda>rid params. Inr (eth_call rid)),
      (''eth_estimateGas'', \<lambda>rid params. Inr (eth_estimate_gas rid)),
      (''eth_getBlockByNumber'', \<lambda>rid params. eth_get_block_by_number env st rid params),
      (''eth_getBlockByHash'', \<lambda>rid params. Inr (eth_get_block_by_hash env st rid params)),
      (''eth_getTransactionByHash'', \<lambda>rid params. Inr (eth_get_transaction_by_hash env st rid params)),
      (''eth_getTransactionReceipt'', \<lambda>rid params. Inr (eth_get_transaction_receipt env st rid params)),
      (''eth_getLogs'', \<lambda>rid params. Inr (eth_get_logs env st rid params)),
      (''eth_getCode'', \<lambda>rid params. Inr (eth_get_code rid)),
      (''eth_getStorageAt'', \<lambda>rid params. Inr (eth_get_storage_at rid)),
      (''ryther_nodeInfo'', \<lambda>rid params. Inr (ryther_node_info env st rid)),
      (''ryther_dagInfo'', \<lambda>rid params. Inr (ryther_dag_info st rid)),
      (''ryther_getPeers'', \<lambda>rid params. Inr (ryther_get_peers st rid)),
      (''ryther_poolStatus'', \<lambda>rid params. Inr (ryther_pool_status rid)),
      (''net_version'', \<lambda>rid params. Inr (net_version rid)),
      (''net_peerCount'', \<lambda>rid params. Inr (net_peer_count st rid)),
      (''net_listening'', \<lambda>rid params. Inr (net_listening rid)),
      (''web3_clientVersion'', \<lambda>rid params. Inr (web3_client_version rid)),
      (''web3_sha3'', \<lambda>rid params. Inr (web3_sha3 env rid params))]"

definition process_request :: "rpc_env \<Rightarrow> ('sk, 'r) rpc_state \<Rightarrow> rpc_request \<Rightarrow> panic + rpc_response" where
  "process_request env st request =
     (case map_of (rpc_methods env st) (rq_method request) of
        Some f \<Rightarrow> f (rq_id request) (rq_params request)
      | None \<Rightarrow> Inr (rpc_fail (rq_id request) METHOD_NOT_FOUND (''Method not found: '' @ rq_method request)))"

section \<open>Answers\<close>

text \<open>A response to a request: the protocol version, the identifier of the request, and a result or an error but
  not both.\<close>

definition answers :: "json \<Rightarrow> rpc_response \<Rightarrow> bool" where
  "answers rid r \<longleftrightarrow> rs_jsonrpc r = ''2.0'' \<and> rs_id r = rid \<and> (rs_result r = None \<longleftrightarrow> rs_error r \<noteq> None)"

lemma answers_success [simp]: "answers rid (rpc_success rid v)"
  by (simp add: answers_def rpc_success_def)

lemma answers_fail [simp]: "answers rid (rpc_fail rid code m)"
  by (simp add: answers_def rpc_fail_def)

lemma answers_block [simp]: "answers rid (block_result env rid b)"
  by (simp add: block_result_def split: option.splits)

lemmas plain_method_defs = eth_chain_id_def eth_block_number_def eth_gas_price_def eth_get_balance_def
  eth_get_transaction_count_def eth_send_raw_transaction_def eth_call_def eth_estimate_gas_def eth_get_code_def
  eth_get_storage_at_def ryther_node_info_def ryther_dag_info_def ryther_get_peers_def ryther_pool_status_def
  net_version_def net_peer_count_def net_listening_def web3_client_version_def

lemma answers_lookups:
  "answers rid (eth_get_block_by_hash env st rid params)" "answers rid (eth_get_transaction_by_hash env st rid params)"
  "answers rid (eth_get_transaction_receipt env st rid params)" "answers rid (eth_get_logs env st rid params)"
  "answers rid (web3_sha3 env rid params)"
  by (simp_all add: eth_get_block_by_hash_def eth_get_transaction_by_hash_def eth_get_transaction_receipt_def eth_get_logs_def
      web3_sha3_def Let_def split: sum.splits option.splits json.splits list.splits)

text \<open>The only parameter that makes a method panic: a text of 66 characters that starts with \<open>0x\<close> and, after every
  leading \<open>0x\<close> is removed, decodes to another number of bytes than 32.\<close>

definition bad_hash_param :: "rpc_env \<Rightarrow> json option \<Rightarrow> bool" where
  "bad_hash_param env params \<longleftrightarrow>
     (\<exists>s rest bs. params = Some (JArray (JString s # rest)) \<and> starts_0x s \<and> length s = 66 \<and>
        rv_hex_decode env (trim_0x s) = Some bs \<and> length bs \<noteq> 32)"

text \<open>With the decoder of the \<open>hex\<close> crate, that is a text with more than one \<open>0x\<close> in front of hexadecimal digits.\<close>

lemma bad_hash_param_iff:
  assumes "hex_decoder (rv_hex_decode env)"
  shows "bad_hash_param env params \<longleftrightarrow>
    (\<exists>s rest. params = Some (JArray (JString (''0x0x'' @ s) # rest)) \<and> length s = 62 \<and>
       (\<forall>c \<in> set (trim_0x s). hex_value c \<noteq> None))"
proof -
  have dec: "(\<exists>bs. rv_hex_decode env (trim_0x s) = Some bs \<and> length bs \<noteq> 32) \<longleftrightarrow>
      take 4 s = ''0x0x'' \<and> (\<forall>c \<in> set (trim_0x s). hex_value c \<noteq> None)"
    if s: "starts_0x s" "length s = 66" for s
  proof -
    obtain a b t where t: "s = ''0x'' @ a # b # t" "length t = 62"
      using s by (auto simp: starts_0x_def numeral_eq_Suc length_Suc_conv)
    have "length (trim_0x t) \<le> 62" "even (length (trim_0x t))" using length_trim_0x [of t] t(2) by simp_all
    then have "length (trim_0x s) = 64 \<longleftrightarrow> take 4 s \<noteq> ''0x0x''" "even (length (trim_0x s))" using t by auto
    moreover have "length (trim_0x s) = 2 * length bs" if "rv_hex_decode env (trim_0x s) = Some bs" for bs
      using assms that unfolding hex_decoder_def by blast
    moreover have "rv_hex_decode env (trim_0x s) \<noteq> None \<longleftrightarrow> even (length (trim_0x s)) \<and> (\<forall>c \<in> set (trim_0x s). hex_value c \<noteq> None)"
      using assms unfolding hex_decoder_def by blast
    ultimately show ?thesis by (cases "rv_hex_decode env (trim_0x s)") auto
  qed
  have pre: "starts_0x s \<and> length s = 66 \<and> take 4 s = ''0x0x'' \<longleftrightarrow> (\<exists>t. s = ''0x0x'' @ t \<and> length t = 62)" for s
  proof
    assume "starts_0x s \<and> length s = 66 \<and> take 4 s = ''0x0x''"
    then show "\<exists>t. s = ''0x0x'' @ t \<and> length t = 62"
      using append_take_drop_id [of 4 s] by (intro exI [of _ "drop 4 s"]) (simp del: append_take_drop_id)
  qed (auto simp: starts_0x_def)
  have trim: "trim_0x (''0x0x'' @ t) = trim_0x t" for t by simp
  have "bad_hash_param env params \<longleftrightarrow> (\<exists>s rest. params = Some (JArray (JString s # rest)) \<and>
      (starts_0x s \<and> length s = 66 \<and> take 4 s = ''0x0x'') \<and> (\<forall>c \<in> set (trim_0x s). hex_value c \<noteq> None))"
    unfolding bad_hash_param_def by (intro iff_exI) (use dec in metis)
  also have "\<dots> \<longleftrightarrow> (\<exists>s rest. params = Some (JArray (JString (''0x0x'' @ s) # rest)) \<and> length s = 62 \<and>
      (\<forall>c \<in> set (trim_0x (''0x0x'' @ s)). hex_value c \<noteq> None))" unfolding pre by blast
  finally show ?thesis unfolding trim .
qed

lemma parse_block_params_panics: "(\<exists>p. parse_block_params env params = Inl p) \<longleftrightarrow> bad_hash_param env params"
proof (cases params)
  case (Some j)
  then show ?thesis
  proof (cases j)
    case (JArray arr)
    with Some show ?thesis
      by (cases arr)
        (auto simp: parse_block_params_def block_id_param_def arg_def bad_hash_param_def Let_def split: json.splits option.splits if_splits)
  qed (auto simp: parse_block_params_def bad_hash_param_def)
qed (simp add: parse_block_params_def bad_hash_param_def)

lemma block_by_number_outcome:
  "(if bad_hash_param env params then \<exists>p. eth_get_block_by_number env st rid params = Inl p
    else \<exists>r. eth_get_block_by_number env st rid params = Inr r \<and> answers rid r)"
proof (cases "parse_block_params env params")
  case (Inl p)
  then show ?thesis using parse_block_params_panics [of env params] by (auto simp: eth_get_block_by_number_def)
next
  case (Inr parsed)
  then have "\<not> bad_hash_param env params" using parse_block_params_panics [of env params] by auto
  with Inr show ?thesis
    by (auto simp: eth_get_block_by_number_def Let_def split: sum.splits prod.splits option.splits)
qed

lemma other_methods_answer:
  assumes "(m, f) \<in> set (rpc_methods env st)" and "m \<noteq> ''eth_getBlockByNumber''"
  shows "\<exists>r. f rid params = Inr r \<and> answers rid r"
  using assms unfolding rpc_methods_def list.set insert_iff empty_iff prod.inject
  by (elim disjE conjE FalseE; simp add: plain_method_defs answers_lookups Let_def)

section \<open>Properties\<close>

text \<open>Property C30: every request is answered. With a decoder that takes exactly the texts of an even number of
  hexadecimal digits, a request gets, whatever its method and its parameters, a response with its own identifier and
  either a result or an error, with one exception: the server panics exactly when \<^verbatim>\<open>eth_getBlockByNumber\<close> is
  asked for a text of 66 characters that starts with \<open>0x0x\<close> and, after its leading \<open>0x\<close>, has
  hexadecimal digits only, because the decoded hash is too short. An answer may take long: a log query runs through every
  block number of its range.\<close>

theorem rpc_answers_every_request:
  assumes "hex_decoder (rv_hex_decode env)"
  shows "if rq_method request = ''eth_getBlockByNumber'' \<and>
      (\<exists>s rest. rq_params request = Some (JArray (JString (''0x0x'' @ s) # rest)) \<and> length s = 62 \<and>
         (\<forall>c \<in> set (trim_0x s). hex_value c \<noteq> None))
    then \<exists>p. process_request env st request = Inl p
    else \<exists>r. process_request env st request = Inr r \<and> answers (rq_id request) r"
proof (cases "rq_method request = ''eth_getBlockByNumber''")
  case True
  then have "process_request env st request = eth_get_block_by_number env st (rq_id request) (rq_params request)"
    by (simp add: process_request_def rpc_methods_def)
  with True block_by_number_outcome [of env "rq_params request" st "rq_id request"] show ?thesis
    unfolding bad_hash_param_iff [OF assms] by simp
next
  case False
  then show ?thesis
    using other_methods_answer [OF map_of_SomeD _, of env st "rq_method request"]
    by (cases "map_of (rpc_methods env st) (rq_method request)") (auto simp: process_request_def)
qed

text \<open>Blocks can be asked for. A request by number for a store into which blocks were inserted returns
  the serialized form of the last one inserted with that number, or null; and the number in the answer to
  \<^verbatim>\<open>eth_blockNumber\<close> reads back as the latest number.\<close>

theorem rpc_returns_inserted_block:
  assumes "rp_blocks st = insert_blocks bs bstore_new"
    and "rq_method request = ''eth_getBlockByNumber''" and "rq_params request = Some (JArray [JString (format_0x n), JBool full])"
  shows "process_request env st request =
      Inr (block_result env (rq_id request) (find (\<lambda>b. blk_number b = n) (rev bs))) \<and>
    (\<exists>s. rs_result (eth_block_number st rid) = Some (JString s) \<and> u64_from_hex (trim_0x s) = Some (latest_number (rp_blocks st)))"
proof -
  have "length (format_0x n) \<noteq> 66" using length_format_0x [of n] by simp
  moreover have "starts_0x (format_0x n)" by (simp add: starts_0x_def format_0x_def)
  ultimately have "parse_block_params env (rq_params request) = Inr (Inr (BlockNumber n, full))"
    using assms(3) by (simp add: parse_block_params_def block_id_param_def arg_def u64_hex_roundtrip)
  moreover have "process_request env st request = eth_get_block_by_number env st (rq_id request) (rq_params request)"
    using assms(2) by (simp add: process_request_def rpc_methods_def)
  ultimately show ?thesis
    using assms(1) by (simp add: eth_get_block_by_number_def get_by_number_blocks eth_block_number_def rpc_success_def u64_hex_roundtrip Let_def)
qed

definition example_rpc_env :: rpc_env where
  "example_rpc_env = \<lparr>rv_block = (\<lambda>b. Some (JString (format_0x (blk_number b)))), rv_receipt = (\<lambda>_. None), rv_logs = (\<lambda>_. None),
     rv_filter = (\<lambda>_. Inl []), rv_hex_encode = plain_encode, rv_hex_decode = plain_decode, rv_keccak = (\<lambda>b. b)\<rparr>"

theorem rpc_returns_inserted_block_witness:
  "process_request example_rpc_env
     \<lparr>rp_node = fresh_node, rp_blocks = insert_blocks [block_genesis 1] bstore_new\<rparr>
     \<lparr>rq_jsonrpc = ''2.0'', rq_method = ''eth_getBlockByNumber'', rq_params = Some (JArray [JString (format_0x 0), JBool False]), rq_id = JNull\<rparr> =
   Inr (rpc_success JNull (JString ''0x0''))"
proof -
  have "format_0x 0 = ''0x0''" by code_simp
  then show ?thesis
    using rpc_returns_inserted_block [of "\<lparr>rp_node = fresh_node, rp_blocks = insert_blocks [block_genesis 1] bstore_new\<rparr>"
        "[block_genesis 1]" "\<lparr>rq_jsonrpc = ''2.0'', rq_method = ''eth_getBlockByNumber'',
          rq_params = Some (JArray [JString (format_0x 0), JBool False]), rq_id = JNull\<rparr>" 0 False example_rpc_env]
    by (simp add: block_result_def block_genesis_def example_rpc_env_def or_null_def)
qed

text \<open>A request of each kind: one that panics, one with an unknown method, and one for the block \<open>0x0x5\<close>, which is
  answered.\<close>

definition example_request :: "string \<Rightarrow> string \<Rightarrow> rpc_request" where
  "example_request method s = \<lparr>rq_jsonrpc = ''2.0'', rq_method = method, rq_params = Some (JArray [JString s]), rq_id = JNull\<rparr>"

theorem rpc_answers_every_request_witness:
  "let st = \<lparr>rp_node = fresh_node, rp_blocks = bstore_new\<rparr> in
   hex_decoder (rv_hex_decode example_rpc_env) \<and>
   (\<exists>p. process_request example_rpc_env st (example_request ''eth_getBlockByNumber'' (''0x0x'' @ replicate 62 (CHR ''0''))) = Inl p) \<and>
   (\<exists>r. process_request example_rpc_env st (example_request ''eth_mining'' ''0x1'') = Inr r \<and> answers JNull r) \<and>
   (\<exists>r. process_request example_rpc_env st (example_request ''eth_getBlockByNumber'' ''0x0x5'') = Inr r \<and> answers JNull r)"
proof -
  have dec: "hex_decoder (rv_hex_decode example_rpc_env)" using hex_decoder_plain by (simp add: example_rpc_env_def)
  have "trim_0x (replicate 62 (CHR ''0'')) = replicate 62 (CHR ''0'')" by code_simp
  moreover have "hex_value (CHR ''0'') \<noteq> None" by code_simp
  ultimately have bad: "\<exists>s rest. rq_params (example_request ''eth_getBlockByNumber'' (''0x0x'' @ replicate 62 (CHR ''0''))) =
      Some (JArray (JString (''0x0x'' @ s) # rest)) \<and> length s = 62 \<and> (\<forall>c \<in> set (trim_0x s). hex_value c \<noteq> None)"
    by (intro exI [of _ "replicate 62 (CHR ''0'')"]) (simp add: example_request_def)
  note answer = rpc_answers_every_request [OF dec, of "example_request _ _" "\<lparr>rp_node = fresh_node, rp_blocks = bstore_new\<rparr>"]
  show ?thesis unfolding Let_def
    using dec bad answer [of "''eth_getBlockByNumber''" "''0x0x'' @ replicate 62 (CHR ''0'')"] answer [of "''eth_mining''" "''0x1''"]
      answer [of "''eth_getBlockByNumber''" "''0x0x5''"]
    by (auto simp: example_request_def)
qed

end
