(* ===== verification/Float64.thy ===== *)
theory Float64
  imports Text_Format Complex_Main "HOL-Library.Log_Nat"
begin

text \<open>
  The floating-point numbers of the Rust type \<open>f64\<close>, as far as the crate uses them: conversion of a \<open>u64\<close>,
  division, multiplication, and printing with two decimals (\<^verbatim>\<open>{:.2}\<close>). All of them round the exact result to the
  nearest number with a significand of 53 bits, ties to even. The numbers that occur are zero or lie between 2^-64
  and 2^71, far from the ends of the exponent range, so neither overflow nor subnormal numbers are modelled.
\<close>

text \<open>Significand and exponent.\<close>

datatype f64 = F64 (f64_sig: nat) (f64_exp: int)

definition f64_val :: "f64 \<Rightarrow> rat" where
  "f64_val x = of_nat (f64_sig x) * 2 powi f64_exp x"

definition round_half_even :: "nat \<Rightarrow> nat \<Rightarrow> nat" where
  "round_half_even n d =
     (let q = n div d; r = n mod d
      in if 2 * r < d then q else if d < 2 * r then q + 1 else if even q then q else q + 1)"

text \<open>The fraction \<open>a / b\<close> divided by a power of two, as numerator and denominator.\<close>

definition scaled :: "nat \<Rightarrow> nat \<Rightarrow> int \<Rightarrow> nat \<times> nat" where
  "scaled a b e = (if 0 \<le> e then (a, b * 2 ^ nat e) else (a * 2 ^ nat (- e), b))"

text \<open>The exponent that leaves 53 bits before the point.\<close>

definition ratio_exp :: "nat \<Rightarrow> nat \<Rightarrow> int" where
  "ratio_exp a b =
     (let e = int (floorlog 2 a) - int (floorlog 2 b) - 53
      in case scaled a b e of (n, d) \<Rightarrow> if 2 ^ 53 * d \<le> n then e + 1 else e)"

definition f64_ratio :: "nat \<Rightarrow> nat \<Rightarrow> f64" where
  "f64_ratio a b =
     (if a = 0 then F64 0 0
      else let e = ratio_exp a b
           in case scaled a b e of (n, d) \<Rightarrow>
                (let s = round_half_even n d in if s = 2 ^ 53 then F64 (2 ^ 52) (e + 1) else F64 s e))"

definition f64_of_u64 :: "u64 \<Rightarrow> f64" where
  "f64_of_u64 v = f64_ratio (unat v) 1"

definition f64_div :: "f64 \<Rightarrow> f64 \<Rightarrow> f64" where
  "f64_div x y = (case scaled (f64_sig x) (f64_sig y) (f64_exp y - f64_exp x) of (n, d) \<Rightarrow> f64_ratio n d)"

definition f64_mul :: "f64 \<Rightarrow> f64 \<Rightarrow> f64" where
  "f64_mul x y = (case scaled (f64_sig x * f64_sig y) 1 (- f64_exp x - f64_exp y) of (n, d) \<Rightarrow> f64_ratio n d)"

text \<open>The value in hundredths, rounded, and its text.\<close>

definition f64_hundredths :: "f64 \<Rightarrow> nat" where
  "f64_hundredths x = (case scaled (f64_sig x * 100) 1 (- f64_exp x) of (n, d) \<Rightarrow> round_half_even n d)"

definition f64_text2 :: "f64 \<Rightarrow> string" where
  "f64_text2 x =
     (let n = f64_hundredths x
      in decimal (n div 100) @ ''.'' @ [hex_char (n mod 100 div 10), hex_char (n mod 10)])"

section \<open>Rounding to an integer\<close>

lemma fraction_split:
  assumes "0 < d"
  obtains f :: rat where "of_nat n / of_nat d = of_nat (n div d) + f" "0 \<le> f" "f < 1"
    "2 * (n mod d) < d \<longleftrightarrow> f < 1 / 2" "d < 2 * (n mod d) \<longleftrightarrow> 1 / 2 < f"
proof
  let ?r = "n mod d" and ?f = "of_nat (n mod d) / of_nat d :: rat"
  have d: "(0 :: rat) < of_nat d" using assms by simp
  have "(of_nat n :: rat) = of_nat (n div d) * of_nat d + of_nat ?r" by (simp flip: of_nat_mult of_nat_add)
  with d show "of_nat n / of_nat d = of_nat (n div d) + ?f" by (simp add: field_simps)
  show "0 \<le> ?f" by simp
  show "?f < 1" using assms d by (simp add: field_simps)
  have "?f < 1 / 2 \<longleftrightarrow> (of_nat (2 * ?r) :: rat) < of_nat d" using d by (simp add: field_simps)
  then show "2 * ?r < d \<longleftrightarrow> ?f < 1 / 2" by (simp only: of_nat_less_iff)
  have "1 / 2 < ?f \<longleftrightarrow> (of_nat d :: rat) < of_nat (2 * ?r)" using d by (simp add: field_simps)
  then show "d < 2 * ?r \<longleftrightarrow> 1 / 2 < ?f" by (simp only: of_nat_less_iff)
qed

lemma round_half_even_close:
  assumes "0 < d"
  shows "\<bar>of_nat (round_half_even n d) - of_nat n / of_nat d\<bar> \<le> (1 / 2 :: rat)"
    "\<bar>of_nat (round_half_even n d) - of_nat n / of_nat d\<bar> = (1 / 2 :: rat) \<Longrightarrow> even (round_half_even n d)"
proof -
  obtain f :: rat where f: "of_nat n / of_nat d = of_nat (n div d) + f" "0 \<le> f" "f < 1"
      "2 * (n mod d) < d \<longleftrightarrow> f < 1 / 2" "d < 2 * (n mod d) \<longleftrightarrow> 1 / 2 < f"
    using fraction_split [OF assms] .
  show "\<bar>of_nat (round_half_even n d) - of_nat n / of_nat d\<bar> \<le> (1 / 2 :: rat)"
    unfolding f(1) round_half_even_def Let_def f(4,5) using f(2,3) by (auto simp: abs_if)
  show "even (round_half_even n d)" if "\<bar>of_nat (round_half_even n d) - of_nat n / of_nat d\<bar> = (1 / 2 :: rat)"
    using that unfolding f(1) round_half_even_def Let_def f(4,5) using f(2,3) by (auto simp: abs_if split: if_splits)
qed

lemma round_half_even_mono:
  assumes "0 < d" "0 < d'" "of_nat n / of_nat d \<le> (of_nat n' / of_nat d' :: rat)"
  shows "round_half_even n d \<le> round_half_even n' d'"
proof (rule ccontr)
  define x y where "x = (of_nat n / of_nat d :: rat)" and "y = (of_nat n' / of_nat d' :: rat)"
  note close = round_half_even_close [OF assms(1), of n, folded x_def] round_half_even_close [OF assms(2), of n', folded y_def]
  assume "\<not> ?thesis"
  then have gt: "round_half_even n' d' + 1 \<le> round_half_even n d" by simp
  then have "(of_nat (round_half_even n' d' + 1) :: rat) \<le> of_nat (round_half_even n d)"
    by (simp only: of_nat_le_iff)
  then have "(of_nat (round_half_even n' d') + 1 :: rat) \<le> of_nat (round_half_even n d)" by simp
  moreover have "x \<le> y" using assms(3) by (simp add: x_def y_def)
  ultimately have tie: "of_nat (round_half_even n d) - x = 1 / 2" "of_nat (round_half_even n' d') - y = - 1 / 2" "x = y"
    using close(1,3) by (auto simp: abs_le_iff)
  then have "even (round_half_even n d)" "even (round_half_even n' d')" using close(2,4) by simp_all
  moreover have "round_half_even n d = round_half_even n' d' + 1"
  proof -
    have "(of_nat (round_half_even n d) :: rat) = of_nat (round_half_even n' d' + 1)" using tie by simp
    then show ?thesis by (simp only: of_nat_eq_iff)
  qed
  ultimately show False by simp
qed

section \<open>Rounding to 53 bits\<close>

lemma scaled_val:
  assumes "scaled a b e = (n, d)" "0 < b"
  shows "0 < d" "of_nat n / of_nat d = (of_nat a / of_nat b / 2 powi e :: rat)"
  using assms by (auto simp: scaled_def power_int_def field_simps split: if_splits)

lemma floorlog_powi:
  assumes "0 < a"
  shows "2 powi int (floorlog 2 a) / 2 \<le> (of_nat a :: rat)" "of_nat a < (2 powi int (floorlog 2 a) :: rat)"
proof -
  have b: "2 ^ (floorlog 2 a - 1) \<le> a" "a < 2 ^ floorlog 2 a" using floorlog_bounds [of a 2] assms by auto
  then obtain k where k: "floorlog 2 a = Suc k" using assms by (cases "floorlog 2 a") auto
  have "(of_nat (2 ^ k) :: rat) \<le> of_nat a" "(of_nat a :: rat) < of_nat (2 ^ Suc k)"
    using b k by (simp_all only: of_nat_le_iff of_nat_less_iff diff_Suc_1)
  then show "2 powi int (floorlog 2 a) / 2 \<le> (of_nat a :: rat)" "of_nat a < (2 powi int (floorlog 2 a) :: rat)"
    by (simp_all add: k power_int_def nat_add_distrib)
qed

lemma ratio_exp_range:
  assumes "0 < a" "0 < b"
  shows "2 ^ 52 \<le> (of_nat a / of_nat b / 2 powi ratio_exp a b :: rat)" "of_nat a / of_nat b / 2 powi ratio_exp a b < (2 ^ 53 :: rat)"
proof -
  define e where "e = int (floorlog 2 a) - int (floorlog 2 b) - 53"
  define A B P Q where "A = (of_nat a :: rat)" and "B = (of_nat b :: rat)"
    and "P = (2 powi int (floorlog 2 a) :: rat)" and "Q = (2 powi int (floorlog 2 b) :: rat)"
  have pos: "0 < A" "0 < B" "0 < P" "0 < Q" using assms by (simp_all add: A_def B_def P_def Q_def)
  have AB: "P / 2 \<le> A" "A < P" "Q / 2 \<le> B" "B < Q"
    using floorlog_powi assms by (simp_all add: A_def B_def P_def Q_def)
  have e: "(2 powi e :: rat) = P / Q / 2 ^ 53"
    by (simp add: e_def P_def Q_def power_int_diff)
  let ?q = "A / B / 2 powi e"
  have q: "?q = 2 ^ 53 * (A * Q / (B * P))" using pos by (simp add: e field_simps)
  have "P / 2 * B \<le> A * B" "A * (Q / 2) \<le> A * B" using AB pos by (simp_all only: mult_right_mono mult_left_mono less_imp_le)
  moreover have "A * B < A * Q" "A * B < P * B" using AB pos by (simp_all only: mult_strict_left_mono mult_strict_right_mono)
  ultimately have "P / 2 * B < A * Q" "A * (Q / 2) < P * B" by linarith+
  then have bounds: "2 ^ 52 < ?q" "?q < 2 ^ 54" unfolding q using pos by (simp_all add: field_simps)
  obtain n d where nd: "scaled a b e = (n, d)" by fastforce
  note v = scaled_val [OF nd assms(2), folded A_def B_def]
  have "2 ^ 53 * d \<le> n \<longleftrightarrow> (of_nat (2 ^ 53 * d) :: rat) \<le> of_nat n" by (simp only: of_nat_le_iff)
  also have "\<dots> \<longleftrightarrow> 2 ^ 53 \<le> ?q" unfolding v(2) [symmetric] using v(1) by (simp add: field_simps)
  finally have big: "2 ^ 53 * d \<le> n \<longleftrightarrow> 2 ^ 53 \<le> ?q" .
  have "ratio_exp a b = (if 2 ^ 53 \<le> ?q then e + 1 else e)"
    using nd big by (simp add: ratio_exp_def Let_def flip: e_def)
  moreover have "A / B / 2 powi (e + 1) = ?q / 2" by (simp add: power_int_add)
  ultimately show "2 ^ 52 \<le> (of_nat a / of_nat b / 2 powi ratio_exp a b :: rat)" "of_nat a / of_nat b / 2 powi ratio_exp a b < (2 ^ 53 :: rat)"
    using bounds unfolding A_def [symmetric] B_def [symmetric] by auto
qed

lemma ratio_exp_bounds:
  assumes "0 < a" "0 < b"
  shows "2 ^ 52 * 2 powi ratio_exp a b \<le> (of_nat a / of_nat b :: rat)" "of_nat a / of_nat b < (2 ^ 53 * 2 powi ratio_exp a b :: rat)"
  using ratio_exp_range [OF assms] by (simp_all only: pos_le_divide_eq pos_divide_less_eq zero_less_power_int zero_less_numeral)

lemma f64_val_nonneg [simp]: "0 \<le> f64_val x"
  by (simp add: f64_val_def)

lemma f64_ratio_val:
  assumes "0 < a" "scaled a b (ratio_exp a b) = (n, d)"
  shows "f64_val (f64_ratio a b) = of_nat (round_half_even n d) * 2 powi ratio_exp a b"
  using assms by (simp add: f64_ratio_def f64_val_def Let_def power_int_add)

lemma f64_ratio_0 [simp]: "f64_val (f64_ratio 0 b) = 0"
  by (simp add: f64_ratio_def f64_val_def)

lemma f64_ratio_close:
  assumes "0 < b"
  shows "\<bar>f64_val (f64_ratio a b) - of_nat a / of_nat b\<bar> \<le> of_nat a / of_nat b / 2 ^ 53"
proof (cases "a = 0")
  case False
  then have a: "0 < a" by simp
  define E X where "E = (2 powi ratio_exp a b :: rat)" and "X = (of_nat a / of_nat b :: rat)"
  obtain n d where nd: "scaled a b (ratio_exp a b) = (n, d)" by fastforce
  define S where "S = (of_nat (round_half_even n d) :: rat)"
  note v = scaled_val [OF nd assms, folded X_def E_def]
  have E: "0 < E" by (simp add: E_def)
  have "\<bar>S - X / E\<bar> \<le> 1 / 2" using round_half_even_close(1) [OF v(1), of n] by (simp add: v(2) S_def)
  then have "\<bar>S - X / E\<bar> * E \<le> 1 / 2 * E" using E by (intro mult_right_mono) simp_all
  moreover have "\<bar>S - X / E\<bar> * E = \<bar>S * E - X\<bar>"
  proof -
    have "(S - X / E) * E = S * E - X" using E by (simp add: left_diff_distrib)
    then show ?thesis using E by (metis abs_mult abs_of_pos)
  qed
  moreover have "2 ^ 52 * E \<le> X"
    using ratio_exp_bounds(1) [OF a assms] by (simp add: E_def X_def)
  ultimately have "\<bar>S * E - X\<bar> \<le> X / 2 ^ 53" by simp
  then show ?thesis by (simp add: f64_ratio_val [OF a nd] S_def E_def X_def)
qed simp

lemma round_half_even_int [simp]: "round_half_even n (Suc 0) = n"
  by (simp add: round_half_even_def)

lemma significand_range:
  assumes "0 < a" "0 < b" "scaled a b (ratio_exp a b) = (n, d)"
  shows "2 ^ 52 \<le> round_half_even n d" "round_half_even n d \<le> 2 ^ 53"
proof -
  note v = scaled_val [OF assms(3,2)]
  have "of_nat (2 ^ 52) / of_nat (Suc 0) \<le> (of_nat n / of_nat d :: rat)" "of_nat n / of_nat d \<le> (of_nat (2 ^ 53) / of_nat (Suc 0) :: rat)"
    using ratio_exp_range [OF assms(1,2)] unfolding v(2) by simp_all
  from round_half_even_mono [OF _ v(1) this(1)] round_half_even_mono [OF v(1) _ this(2)]
  show "2 ^ 52 \<le> round_half_even n d" "round_half_even n d \<le> 2 ^ 53" by simp_all
qed

text \<open>Rounding preserves the order.\<close>

lemma f64_ratio_mono:
  assumes pos: "0 < b" "0 < b'" and le: "of_nat a / of_nat b \<le> (of_nat a' / of_nat b' :: rat)"
  shows "f64_val (f64_ratio a b) \<le> f64_val (f64_ratio a' b')"
proof (cases "a = 0")
  case True
  then show ?thesis by simp
next
  case False
  then have a: "0 < a" by simp
  have "(0 :: rat) < of_nat a / of_nat b" using a pos by simp
  with le have "(0 :: rat) < of_nat a' / of_nat b'" by linarith
  then have a': "0 < a'" by (cases a') simp_all
  define e e' where "e = ratio_exp a b" and "e' = ratio_exp a' b'"
  obtain n d n' d' where nd: "scaled a b e = (n, d)" "scaled a' b' e' = (n', d')" by fastforce
  note v = scaled_val [OF nd(1) pos(1)] scaled_val [OF nd(2) pos(2)]
  note val = f64_ratio_val [OF a nd(1) [unfolded e_def], folded e_def] f64_ratio_val [OF a' nd(2) [unfolded e'_def], folded e'_def]
  note sig = significand_range [OF a pos(1) nd(1) [unfolded e_def]] significand_range [OF a' pos(2) nd(2) [unfolded e'_def]]
  consider "e = e'" | "e + 1 \<le> e'" | "e' + 1 \<le> e" by linarith
  then show ?thesis
  proof cases
    case 1
    then have "of_nat n / of_nat d \<le> (of_nat n' / of_nat d' :: rat)" 
      unfolding v(2,4) using divide_right_mono [OF le, of "2 powi e'"] by simp
    then have "round_half_even n d \<le> round_half_even n' d'" by (rule round_half_even_mono [OF v(1,3)])
    then show ?thesis unfolding val 1 by (simp add: mult_right_mono)
  next
    case 2
    have "(2 powi (e + 1) :: rat) \<le> 2 powi e'" using 2 by (intro power_int_increasing) simp_all
    then have "2 ^ 53 * (2 powi e :: rat) \<le> 2 ^ 52 * 2 powi e'" by (simp add: power_int_add)
    moreover have "of_nat (round_half_even n d) * (2 powi e :: rat) \<le> 2 ^ 53 * 2 powi e"
      using sig(2) by (intro mult_right_mono) simp_all
    moreover have "2 ^ 52 * (2 powi e' :: rat) \<le> of_nat (round_half_even n' d') * 2 powi e'"
      using sig(3) by (intro mult_right_mono) simp_all
    ultimately show ?thesis unfolding val by linarith
  next
    case 3
    have "(2 powi (e' + 1) :: rat) \<le> 2 powi e" using 3 by (intro power_int_increasing) simp_all
    moreover note ratio_exp_bounds(1) [OF a pos(1), folded e_def] ratio_exp_bounds(2) [OF a' pos(2), folded e'_def] le
    ultimately show ?thesis by (simp add: power_int_add)
  qed
qed

text \<open>An integer of at most 53 bits is represented exactly.\<close>

lemma f64_ratio_exact:
  assumes "n < 2 ^ 53"
  shows "f64_val (f64_ratio n 1) = of_nat n"
proof (cases "n = 0")
  case False
  then have n: "0 < n" by simp
  define e where "e = ratio_exp n 1"
  have "2 ^ 52 * 2 powi e \<le> (of_nat n :: rat)"
    using ratio_exp_bounds(1) [OF n, of 1] by (simp add: e_def)
  moreover have "(of_nat n :: rat) < of_nat (2 ^ 53)" using assms by (simp only: of_nat_less_iff)
  ultimately have "(2 powi e :: rat) < 2 powi 1" by simp
  then have "e \<le> 0" using power_int_increasing [of 1 e "2 :: rat"] by (cases "e \<le> 0") auto
  then have "scaled n 1 e = (n * 2 ^ nat (- e), Suc 0)" by (cases "e = 0") (auto simp: scaled_def)
  moreover from this have "of_nat (n * 2 ^ nat (- e)) = (of_nat n / 2 powi e :: rat)" using scaled_val(2) by fastforce
  ultimately show ?thesis using f64_ratio_val [OF n, of 1, folded e_def, of "n * 2 ^ nat (- e)" "Suc 0"] by simp
qed simp

section \<open>The operations\<close>

lemma f64_div_ratio:
  assumes "0 < f64_sig y"
  obtains n d where "f64_div x y = f64_ratio n d" "0 < d" "of_nat n / of_nat d = f64_val x / f64_val y"
proof -
  obtain n d where nd: "scaled (f64_sig x) (f64_sig y) (f64_exp y - f64_exp x) = (n, d)" by fastforce
  have "of_nat n / of_nat d = f64_val x / f64_val y"
    by (simp add: scaled_val(2) [OF nd assms] f64_val_def power_int_diff)
  with nd scaled_val(1) [OF nd assms] show thesis by (intro that [of n d]) (simp_all add: f64_div_def)
qed

lemma f64_mul_ratio:
  obtains n d where "f64_mul x y = f64_ratio n d" "0 < d" "of_nat n / of_nat d = f64_val x * f64_val y"
proof -
  obtain n d where nd: "scaled (f64_sig x * f64_sig y) 1 (- f64_exp x - f64_exp y) = (n, d)" by fastforce
  have "of_nat n / of_nat d = f64_val x * f64_val y"
    using scaled_val(2) [OF nd] by (simp add: f64_val_def power_int_diff power_int_minus field_simps)
  with nd scaled_val(1) [OF nd] show thesis by (intro that [of n d]) (simp_all add: f64_mul_def)
qed

lemma f64_hundredths_close: "\<bar>of_nat (f64_hundredths x) - 100 * f64_val x\<bar> \<le> 1 / 2"
proof -
  obtain n d where nd: "scaled (f64_sig x * 100) 1 (- f64_exp x) = (n, d)" by fastforce
  have "of_nat n / of_nat d = 100 * f64_val x"
    using scaled_val(2) [OF nd] by (simp add: f64_val_def power_int_minus field_simps)
  with nd show ?thesis using round_half_even_close(1) [OF scaled_val(1) [OF nd], of n] by (simp add: f64_hundredths_def)
qed

text \<open>Every operation is exact up to a factor within \<open>1 - 2^-53\<close> and \<open>1 + 2^-53\<close>.\<close>

definition near :: "rat \<Rightarrow> rat \<Rightarrow> bool" where
  "near x y \<longleftrightarrow> (1 - 1 / 2 ^ 53) * y \<le> x \<and> x \<le> (1 + 1 / 2 ^ 53) * y"

lemma near_ratio: "0 < b \<Longrightarrow> near (f64_val (f64_ratio a b)) (of_nat a / of_nat b)"
  using f64_ratio_close [of b a] by (simp add: near_def abs_le_iff algebra_simps)

lemma near_nat: "near (f64_val (f64_ratio n 1)) (of_nat n)"
  using near_ratio [of 1 n] by simp

lemma near_div: "0 < f64_sig y \<Longrightarrow> near (f64_val (f64_div x y)) (f64_val x / f64_val y)"
  by (metis f64_div_ratio near_ratio)

lemma near_mul: "near (f64_val (f64_mul x y)) (f64_val x * f64_val y)"
  by (metis f64_mul_ratio near_ratio)

lemma near_pos: "near x y \<Longrightarrow> 0 < y \<Longrightarrow> 0 < x"
  by (simp add: near_def)

lemma f64_val_pos: "0 < f64_val x \<longleftrightarrow> 0 < f64_sig x"
  by (simp add: f64_val_def zero_less_mult_iff)

lemma f64_ratio_pos: "0 < n \<Longrightarrow> 0 < f64_sig (f64_ratio n 1)"
  using near_pos [OF near_nat, of n] by (simp add: f64_val_pos)

text \<open>The quotient of two integers, with the three roundings it takes, and a percentage with the fourth.\<close>

lemma f64_quotient_close:
  fixes h t :: nat
  assumes "0 < t"
  defines "z \<equiv> f64_val (f64_div (f64_ratio h 1) (f64_ratio t 1))" and "r \<equiv> of_nat h / of_nat t :: rat"
  shows "(1 - 1 / 2 ^ 51) * r \<le> z" "z \<le> (1 + 1 / 2 ^ 51) * r"
proof -
  define x y where "x = f64_val (f64_ratio h 1)" and "y = f64_val (f64_ratio t 1)"
  define u :: rat where "u = 1 / 2 ^ 53"
  have t: "(0 :: rat) < of_nat t" and r: "0 \<le> r" using assms(1) by (simp_all add: r_def)
  have x: "(1 - u) * of_nat h \<le> x" "x \<le> (1 + u) * of_nat h" using near_nat [of h] by (simp_all add: near_def x_def u_def)
  have y: "(1 - u) * of_nat t \<le> y" "y \<le> (1 + u) * of_nat t" using near_nat [of t] by (simp_all add: near_def y_def u_def)
  have z: "(1 - u) * (x / y) \<le> z" "z \<le> (1 + u) * (x / y)"
    using near_div [OF f64_ratio_pos [OF assms(1)], of "f64_ratio h 1"] by (simp_all add: near_def z_def x_def y_def u_def)
  have pos: "0 < (1 - u) * (of_nat t :: rat)" "0 < (1 + u) * (of_nat t :: rat)" using t by (simp_all add: u_def)
  have "0 \<le> x" "0 < y" using y(1) pos by (simp add: x_def, linarith)
  have hi: "x / y \<le> (1 + u) / (1 - u) * r"
  proof -
    have "x / y \<le> ((1 + u) * of_nat h) / ((1 - u) * of_nat t)" by (rule frac_le [OF _ x(2) pos(1) y(1)]) (simp add: u_def)
    then show ?thesis by (simp add: r_def)
  qed
  have lo: "(1 - u) / (1 + u) * r \<le> x / y"
  proof -
    have "((1 - u) * of_nat h) / ((1 + u) * of_nat t) \<le> x / y" by (rule frac_le [OF \<open>0 \<le> x\<close> x(1) \<open>0 < y\<close> y(2)])
    then show ?thesis by (simp add: r_def)
  qed
  have "z \<le> (1 + u) * ((1 + u) / (1 - u) * r)" using z(2) mult_left_mono [OF hi, of "1 + u"] by (simp add: u_def)
  also have "\<dots> \<le> (1 + 1 / 2 ^ 51) * r" using r by (simp add: u_def)
  finally show "z \<le> (1 + 1 / 2 ^ 51) * r" .
  have "(1 - 1 / 2 ^ 51) * r \<le> (1 - u) * ((1 - u) / (1 + u) * r)" using r by (simp add: u_def)
  also have "\<dots> \<le> z" using z(1) mult_left_mono [OF lo, of "1 - u"] by (simp add: u_def)
  finally show "(1 - 1 / 2 ^ 51) * r \<le> z" .
qed

lemma f64_quotient_le_1:
  assumes "0 < t" "h \<le> t"
  shows "f64_val (f64_div (f64_ratio h 1) (f64_ratio t 1)) \<le> 1"
proof -
  have le: "f64_val (f64_ratio h 1) \<le> f64_val (f64_ratio t 1)" by (rule f64_ratio_mono) (use assms in simp_all)
  obtain n d where nd: "f64_div (f64_ratio h 1) (f64_ratio t 1) = f64_ratio n d" "0 < d"
      "of_nat n / of_nat d = f64_val (f64_ratio h 1) / f64_val (f64_ratio t 1)"
    using f64_div_ratio [OF f64_ratio_pos [OF assms(1)]] .
  have "of_nat n / of_nat d \<le> (1 :: rat)"
    unfolding nd(3) using le f64_val_pos [of "f64_ratio t 1"] f64_ratio_pos [OF assms(1)] by simp
  then have "f64_val (f64_ratio n d) \<le> f64_val (f64_ratio 1 1)" by (intro f64_ratio_mono nd(2)) simp_all
  also have "f64_val (f64_ratio 1 1) = 1" using f64_ratio_exact [of 1] by simp
  finally show ?thesis unfolding nd(1) .
qed

lemma f64_percentage:
  assumes "0 < t" "h \<le> t"
  defines "w \<equiv> f64_val (f64_mul (f64_div (f64_ratio h 1) (f64_ratio t 1)) (f64_ratio 100 1))"
    and "r \<equiv> 100 * (of_nat h / of_nat t) :: rat"
  shows "w \<le> 100" "\<bar>w - r\<bar> \<le> r / 2 ^ 50"
proof -
  let ?z = "f64_div (f64_ratio h 1) (f64_ratio t 1)"
  have hundred: "f64_val (f64_ratio 100 1) = 100" using f64_ratio_exact [of 100] by simp
  obtain n d where nd: "f64_mul ?z (f64_ratio 100 1) = f64_ratio n d" "0 < d" "of_nat n / of_nat d = f64_val ?z * 100"
    using f64_mul_ratio hundred by metis
  have "of_nat n / of_nat d \<le> (of_nat 100 / of_nat 1 :: rat)" unfolding nd(3) using f64_quotient_le_1 [OF assms(1,2)] by simp
  then have "f64_val (f64_ratio n d) \<le> f64_val (f64_ratio 100 1)" by (intro f64_ratio_mono nd(2)) simp_all
  then show "w \<le> 100" unfolding w_def nd(1) hundred .
  have "near w (f64_val ?z * 100)" using near_mul [of ?z "f64_ratio 100 1"] unfolding w_def hundred .
  with f64_quotient_close [OF assms(1), of h] show "\<bar>w - r\<bar> \<le> r / 2 ^ 50"
    by (simp add: near_def r_def abs_le_iff)
qed

lemma hundredths_error:
  fixes n x r :: rat
  assumes "\<bar>n - 100 * x\<bar> \<le> 1 / 2" "(1 - 1 / 2 ^ 51) * r \<le> x" "x \<le> (1 + 1 / 2 ^ 51) * r"
  shows "\<bar>n / 100 - r\<bar> \<le> 1 / 200 + r / 2 ^ 51"
proof -
  have "n - 100 * x \<le> 1 / 2" "100 * x - n \<le> 1 / 2" using assms(1) by linarith+
  with assms(2,3) show ?thesis by (intro abs_leI) (simp_all add: algebra_simps)
qed

lemma f64_text2_reads:
  "\<exists>i c d u v. f64_text2 x = decimal i @ [CHR ''.'', c, d] \<and> to_digit 10 c = Some u \<and> to_digit 10 d = Some v \<and>
     f64_hundredths x = 100 * i + 10 * u + v"
proof -
  let ?n = "f64_hundredths x"
  have "?n mod 100 div 10 < 10" "?n mod 10 < 10" by (simp_all add: div_less_iff_less_mult)
  moreover have "?n = 100 * (?n div 100) + 10 * (?n mod 100 div 10) + ?n mod 10"
  proof -
    have "?n mod 100 mod 10 = ?n mod 10" by (simp add: mod_mod_cancel)
    then show ?thesis using mult_div_mod_eq [of 100 ?n] mult_div_mod_eq [of 10 "?n mod 100"] by linarith
  qed
  ultimately show ?thesis
    by (intro exI [of _ "?n div 100"] exI [of _ "hex_char (?n mod 100 div 10)"] exI [of _ "hex_char (?n mod 10)"]
        exI [of _ "?n mod 100 div 10"] exI [of _ "?n mod 10"]) (simp add: f64_text2_def Let_def to_digit_char)
qed

end
