(* ===== verification/Rpc_Server.thy ===== *)
theory Rpc_Server
  imports Rpc Float64
begin

text \<open>
  The HTTP side of \<^verbatim>\<open>src/node/rpc.rs\<close>: the two handlers, the routes they are registered under, the start of the
  server and the page of metrics. The server itself is the crate \<open>axum\<close>: the outcome of binding the address and of
  serving are arguments, and so is the parsing of a request body. The clock reading is an argument.
\<close>

text \<open>\<open>handle_rpc\<close> is called with a request that was parsed; its answer is the response as JSON.\<close>

definition handle_rpc :: "rpc_env \<Rightarrow> ('sk, 'r) rpc_state \<Rightarrow> rpc_request \<Rightarrow> panic + rpc_response" where
  "handle_rpc env st request = process_request env st request"

definition text_lines :: "string list \<Rightarrow> string" where
  "text_lines ls = concat (map (\<lambda>l. l @ [CHR 0x0A]) ls)"

definition metrics_uptime :: "u64 \<Rightarrow> node_stats \<Rightarrow> u64" where
  "metrics_uptime now stats = max (if now < ns_start_time stats then 0 else now - ns_start_time stats) 1"

definition metrics_tps :: "u64 \<Rightarrow> node_stats \<Rightarrow> f64" where
  "metrics_tps now stats = f64_div (f64_of_u64 (ns_transactions_processed stats)) (f64_of_u64 (metrics_uptime now stats))"

definition metrics_lines :: "u64 \<Rightarrow> node_stats \<Rightarrow> string list" where
  "metrics_lines now stats =
       [''# HELP ryther_current_round Current DAG round'',
        ''# TYPE ryther_current_round gauge'',
        ''ryther_current_round '' @ decimal (unat (ns_current_round stats)),
        ''# HELP ryther_transactions_total Total transactions processed'',
        ''# TYPE ryther_transactions_total counter'',
        ''ryther_transactions_total '' @ decimal (unat (ns_transactions_processed stats)),
        ''# HELP ryther_tps Transactions per second (average)'',
        ''# TYPE ryther_tps gauge'',
        ''ryther_tps '' @ f64_text2 (metrics_tps now stats),
        ''# HELP ryther_peers Connected peers'',
        ''# TYPE ryther_peers gauge'',
        ''ryther_peers '' @ decimal (ns_connected_peers stats)]"

definition handle_metrics :: "u64 \<Rightarrow> ('sk, 'r) rpc_state \<Rightarrow> string" where
  "handle_metrics now st = text_lines (metrics_lines now (node_stats_of (rp_node st)))"

datatype http_method = Get | Post

datatype http_answer = JsonAnswer rpc_response | TextAnswer string

text \<open>What the router does with a request: \<open>None\<close> where it has no route or the body is no request, which \<open>axum\<close>
  answers itself.\<close>

definition rpc_app ::
    "rpc_env \<Rightarrow> (string \<Rightarrow> rpc_request option) \<Rightarrow> u64 \<Rightarrow> ('sk, 'r) rpc_state \<Rightarrow> http_method \<Rightarrow> string \<Rightarrow> string \<Rightarrow>
     (panic + http_answer) option" where
  "rpc_app env parse now st meth path body =
     (if path = ''/'' \<and> meth = Post then map_option (\<lambda>request. map_sum id JsonAnswer (handle_rpc env st request)) (parse body)
      else if path = ''/metrics'' \<and> meth = Get then Some (Inr (TextAnswer (handle_metrics now st)))
      else None)"

definition start_rpc_server :: "string + unit \<Rightarrow> string + unit \<Rightarrow> string + unit" where
  "start_rpc_server bound served =
     (case bound of
        Inl e \<Rightarrow> Inl (''Failed to bind RPC server: '' @ e)
      | Inr _ \<Rightarrow> (case served of Inl e \<Rightarrow> Inl (''RPC server error: '' @ e) | Inr _ \<Rightarrow> Inr ()))"

section \<open>The rate\<close>

lemma metrics_uptime_pos: "0 < unat (metrics_uptime now stats)"
proof -
  have "1 \<le> metrics_uptime now stats" by (simp add: metrics_uptime_def)
  then show ?thesis by (metis bot_nat_0.not_eq_extremum unsigned_0 unsigned_1 word_le_nat_alt not_one_le_zero)
qed

text \<open>The rate on the page of metrics. Its text is a decimal number with two digits after the point,
  which differs from the number of transactions divided by the seconds the node has been running (at least one) by
  no more than half a hundredth and a relative error of 2^-51.\<close>

theorem metrics_rate_accurate:
  fixes st :: "('sk, 'r) rpc_state" and now :: u64
  defines "stats \<equiv> node_stats_of (rp_node st)"
  defines "exact \<equiv> of_nat (unat (ns_transactions_processed stats)) / of_nat (unat (metrics_uptime now stats)) :: rat"
  shows "\<exists>ls i c d u v. handle_metrics now st = text_lines ls \<and> ''ryther_tps '' @ decimal i @ [CHR ''.'', c, d] \<in> set ls \<and>
    to_digit 10 c = Some u \<and> to_digit 10 d = Some v \<and>
    \<bar>of_nat (100 * i + 10 * u + v) / 100 - exact\<bar> \<le> 1 / 200 + exact / 2 ^ 51"
proof -
  let ?x = "metrics_tps now stats"
  obtain i c d u v where text2: "f64_text2 ?x = decimal i @ [CHR ''.'', c, d]" "to_digit 10 c = Some u" "to_digit 10 d = Some v"
      "f64_hundredths ?x = 100 * i + 10 * u + v"
    using f64_text2_reads by blast
  have "\<bar>of_nat (100 * i + 10 * u + v) - 100 * f64_val ?x\<bar> \<le> 1 / 2"
    using f64_hundredths_close [of ?x] by (simp only: text2(4))
  moreover have "(1 - 1 / 2 ^ 51) * exact \<le> f64_val ?x" "f64_val ?x \<le> (1 + 1 / 2 ^ 51) * exact"
    using f64_quotient_close [OF metrics_uptime_pos, of "unat (ns_transactions_processed stats)" now stats]
    unfolding metrics_tps_def f64_of_u64_def exact_def by simp_all
  ultimately have "\<bar>of_nat (100 * i + 10 * u + v) / 100 - exact\<bar> \<le> 1 / 200 + exact / 2 ^ 51"
    by (rule hundredths_error)
  moreover have "handle_metrics now st = text_lines (metrics_lines now stats)" by (simp add: handle_metrics_def stats_def)
  moreover have "''ryther_tps '' @ decimal i @ [CHR ''.'', c, d] \<in> set (metrics_lines now stats)"
    using text2(1) by (simp add: metrics_lines_def)
  ultimately show ?thesis using text2(2,3) by blast
qed

end
