(* ===== verification/Ryther_Main.thy ===== *)
theory Ryther_Main
  imports Rpc_Server
begin

text \<open>
  The program, \<^verbatim>\<open>src/bin/ryther.rs\<close>: the configuration, the genesis block, the node and the order in which the
  node and the RPC server are started. The program is where its main task waits; the tasks of the node run in the
  background. An interrupt before the handler for it is installed ends the process.
\<close>

text \<open>The configuration comes from \<open>config.json\<close>, whose loading falls back to the defaults; where there is no such
  file, the defaults are used and saved. The file system is a value of the type \<open>'fs\<close> with its operations.\<close>

record 'fs file_ops =
  fs_exists :: "'fs \<Rightarrow> string \<Rightarrow> bool"
  fs_read_to_string :: "'fs \<Rightarrow> string \<Rightarrow> string + string"
  fs_write :: "'fs \<Rightarrow> string \<Rightarrow> string \<Rightarrow> string + 'fs"

record json_ops =
  js_from_str :: "string \<Rightarrow> string + node_config"
  js_to_string_pretty :: "node_config \<Rightarrow> string + string"

definition main_config :: "'fs file_ops \<Rightarrow> json_ops \<Rightarrow> nat \<Rightarrow> 'fs \<Rightarrow> node_config \<times> 'fs" where
  "main_config fo jo num_cpus fs =
     (let config_path = ''config.json'' in
      if fs_exists fo fs config_path then
        (case config_load (fs_read_to_string fo fs) (js_from_str jo) config_path of
           Inr cfg \<Rightarrow> (cfg, fs)
         | Inl e \<Rightarrow> (node_config_default num_cpus, fs))
      else
        (let config = node_config_default num_cpus in
         case config_save (js_to_string_pretty jo) (fs_write fo fs) config config_path of
           Inr fs \<Rightarrow> (config, fs)
         | Inl e \<Rightarrow> (config, fs)))"

datatype main_pc = InStart | InCtrlC | InStop | Ended

record ('sk, 'r) main_state =
  mn_pc :: main_pc
  mn_node :: "('sk, 'r) ryther_node"
  mn_blocks :: block_store
  mn_rpc_running :: bool

text \<open>Up to the point where \<open>start\<close> waits for the shutdown signal or returns.\<close>

definition main_init ::
    "('sk, 'pk, 'sg, 'ag) node_env \<Rightarrow> nat \<Rightarrow> 'r \<Rightarrow> peer_id \<Rightarrow> u64 \<Rightarrow> nat \<Rightarrow> (string \<Rightarrow> nat \<Rightarrow> io_error + unit) \<Rightarrow>
     node_config \<Rightarrow> panic + ('sk, 'r) main_state" where
  "main_init env num_cpus rng peer_id unix_secs now outcomes config =
     (let blocks = insert_block (block_genesis (cc_chain_id (cfg_chain config))) bstore_new
      in and_then (node_new env num_cpus rng peer_id unix_secs config) (\<lambda>node.
         let (waits, node) = node_start env now outcomes node
         in Inr \<lparr>mn_pc = (if waits then InStart else InCtrlC), mn_node = node, mn_blocks = blocks,
                 mn_rpc_running = (\<not> waits \<and> rc_enabled (cfg_rpc config))\<rparr>))"

inductive main_step :: "('sk, 'pk, 'sg, 'ag) node_env \<Rightarrow> ('sk, 'r) main_state \<Rightarrow> ('sk, 'r) main_state \<Rightarrow> bool" for env where
  background: "mn_pc m \<noteq> Ended \<Longrightarrow> background_step env (mn_node m) n \<Longrightarrow> main_step env m (m\<lparr>mn_node := n\<rparr>)"
| start_returns: "mn_pc m = InStart \<Longrightarrow> nd_shutdown_signal (mn_node m) \<Longrightarrow>
    main_step env m (m\<lparr>mn_pc := InCtrlC, mn_node := (mn_node m)\<lparr>nd_shutdown_signal := False, nd_shutdown_rx := RxDropped\<rparr>,
      mn_rpc_running := rc_enabled (cfg_rpc (nd_config (mn_node m)))\<rparr>)"
| interrupted: "mn_pc m = InCtrlC \<Longrightarrow> 
    main_step env m (m\<lparr>mn_node := snd (node_stop (mn_node m)), mn_pc := (if fst (node_stop (mn_node m)) then Ended else InStop)\<rparr>)"
| killed: "mn_pc m = InStart \<Longrightarrow> main_step env m (m\<lparr>mn_pc := Ended\<rparr>)"

inductive_cases main_stepE: "main_step env m m'"

section \<open>The shutdown signal\<close>

lemma process_commits_shutdown:
  "process_commits env now unix_secs mids commits n = Inr n' \<Longrightarrow> nd_shutdown_signal n' = nd_shutdown_signal n"
proof (induction env now unix_secs mids commits n rule: process_commits.induct)
  case (2 env now unix_secs mids c cs n)
  then obtain m where m: "process_commit env now unix_secs (mids 0) c n = Inr m"
      "process_commits env now unix_secs (\<lambda>k. mids (Suc k)) cs m = Inr n'"
    by (cases "process_commit env now unix_secs (mids 0) c n") auto
  have "nd_shutdown_signal m = nd_shutdown_signal n"
    using m(1) by (auto simp: process_commit_eq Let_def split: if_splits dest!: execute_round_frame)
  with "2.IH" [OF m(2)] show ?case by simp
qed simp

lemma producer_tick_shutdown:
  assumes "producer_tick env now unix_secs mids n = Inr n'"
  shows "nd_shutdown_signal n' = nd_shutdown_signal n"
proof -
  have c: "nd_shutdown_signal k = nd_shutdown_signal n" if "create_event env n = (e, k)" for e k
    using that by (auto simp: create_event_def clock_tick_def Let_def split: option.splits)
  define m where "m = (case create_event env n of (Some event, n) \<Rightarrow> publish_event env now (mids 0) event n | (None, n) \<Rightarrow> n)"
  have m: "nd_shutdown_signal m = nd_shutdown_signal n" using c by (auto simp: m_def split: prod.splits option.splits)
  from assms obtain commits d where "process_commits env now unix_secs (\<lambda>k. mids (Suc k)) commits (m\<lparr>nd_commit_detector := d\<rparr>) = Inr n'"
    unfolding producer_tick_def m_def [symmetric] by (auto simp: and_then_eq_Inr)
  with process_commits_shutdown [OF this] m show ?thesis by simp
qed

lemma background_shutdown: "background_step env n n' \<Longrightarrow> nd_shutdown_signal n' = nd_shutdown_signal n"
proof (induction rule: background_step.induct)
  case (incoming n now mid m)
  show ?case
    by (simp add: handle_incoming_def collect_share_def Let_def split: message_type.splits prod.splits option.splits)
qed (simp_all add: producer_tick_shutdown)

text \<open>The main task waits in \<open>start\<close> or has been killed.\<close>

definition starting :: "('sk, 'r) main_state \<Rightarrow> bool" where
  "starting m \<longleftrightarrow> \<not> mn_rpc_running m \<and> mn_pc m \<noteq> InCtrlC \<and> \<not> nd_shutdown_signal (mn_node m)"

interpretation waiting: step_invariant "main_step env" starting
  by unfold_locales (erule main_stepE; auto simp: starting_def dest: background_shutdown)

lemma starting_init:
  assumes "main_init env num_cpus rng peer_id unix_secs now outcomes config = Inr m"
  shows "starting m"
proof -
  obtain n where new: "node_new env num_cpus rng peer_id unix_secs config = Inr n"
    using assms by (cases "node_new env num_cpus rng peer_id unix_secs config") (auto simp: main_init_def)
  have "nd_shutdown_rx n = RxStored \<and> \<not> nd_shutdown_signal n"
    using new by (cases "load_validator_key env config") (auto simp: node_new_def params_new_def)
  then show ?thesis
    using assms new by (auto simp: main_init_def node_start_def connect_bootstrap_peers_def set_net_def starting_def Let_def)
qed

section \<open>Properties\<close>

text \<open>Property C37: the RPC server is never started. The program starts it after \<open>start\<close> has returned, but \<open>start\<close>
  returns only after the shutdown signal, which only the main task itself sends, later. Whatever the tasks of the
  node do, the main task stays in \<open>start\<close> until the process is killed.\<close>

theorem rpc_server_never_starts:
  assumes init: "main_init env num_cpus rng peer_id unix_secs now outcomes config = Inr m"
    and steps: "(main_step env)\<^sup>*\<^sup>* m m'"
  shows "\<not> mn_rpc_running m' \<and> mn_pc m' \<noteq> InCtrlC \<and> \<not> nd_shutdown_signal (mn_node m')"
  using waiting.reachable_inv [OF steps starting_init [OF init]] by (simp add: starting_def)

theorem rpc_server_never_starts_witness:
  "\<exists>m. main_init example_env 8 (0 :: nat) [1] 0 0 (\<lambda>_ _. Inr ()) example_config = Inr m \<and> \<not> mn_rpc_running m \<and>
     rc_enabled (cfg_rpc example_config)"
proof -
  obtain m where m: "main_init example_env 8 (0 :: nat) [1] 0 0 (\<lambda>_ _. Inr ()) example_config = Inr m"
    using fresh_node(1) by (simp add: main_init_def Let_def case_prod_beta)
  have "rc_enabled (cfg_rpc example_config)" by (simp add: example_config_def node_config_default_def rpc_config_default_def)
  with m rpc_server_never_starts [OF m rtranclp.rtrancl_refl] show ?thesis by blast
qed

end
