(* ===== verification/Node_Resources.thy ===== *)
theory Node_Resources
  imports Ryther_Node
begin

text \<open>
  The peer table and the transaction pool of a running node. Whatever a node does, it changes the two only through
  their operations; so their invariants, and with them their bounds, hold in every state of the node.
\<close>

definition node_evolves :: "('sk, 'r) ryther_node \<Rightarrow> ('sk, 'r) ryther_node \<Rightarrow> bool" where
  "node_evolves n n' \<longleftrightarrow> nd_config n' = nd_config n \<and> evolves peer_step (nd_peers n) (nd_peers n') \<and>
     evolves pool_step (nd_mempool n) (nd_mempool n')"

lemma node_evolves_refl [simp]: "node_evolves n n"
  by (simp add: node_evolves_def)

lemma node_evolves_trans [trans]: "node_evolves n m \<Longrightarrow> node_evolves m k \<Longrightarrow> node_evolves n k"
  by (auto simp: node_evolves_def intro: evolves_trans)

section \<open>The peer table\<close>

lemma peer_ops_evolve [intro]:
  "evolves peer_step m (snd (add_peer now p addr m))" "evolves peer_step m (set_state now p st m)"
  "evolves peer_step m (record_sent now p m)" "evolves peer_step m (record_received now p m)"
  "evolves peer_step m (reward_peer p amount m)" "evolves peer_step m (penalize_peer p amount m)"
  using evolves_op [of peer_step m "AddPeer now p addr"] evolves_op [of peer_step m "SetState now p st"]
    evolves_op [of peer_step m "RecordSent now p"] evolves_op [of peer_step m "RecordReceived now p"]
    evolves_op [of peer_step m "Reward p amount"] evolves_op [of peer_step m "Penalize p amount"]
  by simp_all

lemma send_evolves: "evolves peer_step (snd net) (snd (snd (send serialize now p m net)))"
  by (auto simp: send_def split: prod.splits option.splits)

lemma deliver_evolves: "evolves peer_step (snd net) (snd (deliver deserialize now p d net))"
  by (auto simp: deliver_def split: prod.splits option.splits)

lemma disconnect_evolves: "evolves peer_step (snd net) (snd (disconnect now p net))"
  by (auto simp: disconnect_def split: prod.splits)

lemma setup_evolves: "evolves peer_step (snd net) (snd (setup_connection now p net))"
  by (auto simp: setup_connection_def split: prod.splits)

lemma accept_evolves: "evolves peer_step (snd net) (snd (accept sha now addr net))"
proof -
  let ?p = "addr_to_peer_id sha addr"
  have "evolves peer_step (snd net) (snd (add_peer now ?p addr (snd net)))" by blast
  also have "evolves peer_step \<dots> (snd (setup_connection now ?p (fst net, snd (add_peer now ?p addr (snd net)))))"
    using setup_evolves [of "(fst net, snd (add_peer now ?p addr (snd net)))" now ?p] by simp
  finally show ?thesis by (simp add: accept_def case_prod_beta Let_def)
qed

lemma connect_evolves: "evolves peer_step (snd net) (snd (snd (connect now p addr outcome net)))"
proof -
  let ?pm = "set_state now p Connecting (snd (add_peer now p addr (snd net)))"
  have pm: "evolves peer_step (snd net) ?pm" by (blast intro: evolves_trans)
  also have "evolves peer_step ?pm (snd (setup_connection now p (fst net, ?pm)))"
    using setup_evolves [of "(fst net, ?pm)" now p] by simp
  finally show ?thesis using pm by (auto simp: connect_def case_prod_beta Let_def split: sum.splits)
qed

lemma connect_attempts_evolves: "evolves peer_step (snd net) (snd (connect_attempts now p addr outcomes net))"
proof (induction now p addr outcomes net rule: connect_attempts.induct)
  case (2 now p addr outcome outcomes net)
  have "evolves peer_step (snd net) (snd (snd (connect now p addr outcome net)))" by (rule connect_evolves)
  then show ?case using "2.IH" by (fastforce split: prod.splits sum.splits intro: evolves_trans)
qed simp

lemma accept_event_evolves: "evolves peer_step (gn_peers g) (gn_peers (accept_event sender e g))"
  by (auto simp: accept_event_def split: sum.splits)

lemma handle_message_evolves: "evolves peer_step (gn_peers g) (gn_peers (snd (handle_message now mid m g)))"
proof -
  have fold: "evolves peer_step (gn_peers g) (gn_peers (fold (accept_event sender) es g))" for sender es g
    by (induction es arbitrary: g) (auto intro: evolves_trans [OF accept_event_evolves])
  have "gn_peers (snd (handle_event_announce now mid sender a g)) = gn_peers g" for sender a g
    by (simp add: handle_event_announce_def Let_def)
  moreover have "evolves peer_step (gn_peers g) (gn_peers (handle_event_response sender r (g\<lparr>gn_gossip := h\<rparr>)))" for sender r h
    using fold [of "g\<lparr>gn_gossip := h\<rparr>" sender "es_events r"] by (simp add: handle_event_response_def)
  ultimately show ?thesis by (auto simp: handle_message_def Let_def split: message_type.splits)
qed

section \<open>The steps of a node\<close>

lemma set_net_evolves: "evolves peer_step (nd_peers n) (snd net) \<Longrightarrow> node_evolves n (set_net net n)"
  by (simp add: node_evolves_def set_net_def)

lemma send_all_evolves: "node_evolves n (send_all env now ms n)"
proof -
  have "evolves peer_step (snd net) (snd (fold (\<lambda>(p, m) net. snd (send serialize now p m net)) ms net))" for serialize and net :: net
    by (rule fold_preorder [where R = "\<lambda>m n. evolves peer_step (snd m) (snd n)"])
      (auto intro: evolves_trans simp: case_prod_beta send_evolves)
  from this [of "node_net n" "env_serialize env"] show ?thesis
    by (auto simp: send_all_def node_net_def intro: set_net_evolves)
qed

lemma handle_incoming_evolves: "node_evolves n (handle_incoming env now mid x n)"
proof -
  obtain p m where x: "x = (p, m)" by fastforce
  obtain reply g where h: "handle_message now mid m (node_gossip n) = (reply, g)" by fastforce
  have "node_evolves n (set_gossip g n)"
    using handle_message_evolves [of "node_gossip n" now mid m] h by (simp add: node_evolves_def set_gossip_def node_gossip_def)
  moreover have "node_evolves n (collect_share c n)" for c by (simp add: node_evolves_def collect_share_def Let_def)
  ultimately show ?thesis
    using x h by (auto simp: handle_incoming_def intro: node_evolves_trans [OF _ send_all_evolves] split: message_type.splits option.splits)
qed

lemma share_loop_evolves: "node_evolves n (share_loop env now mids es n)"
proof -
  have "node_evolves n (broadcast_share env now mid e n)" for mid e and n :: "('a, 'b) ryther_node"
    by (simp add: broadcast_share_def send_all_evolves split: option.splits)
  then show ?thesis
    unfolding share_loop_def by (intro fold_preorder [where R = node_evolves]) (auto simp: case_prod_beta intro: node_evolves_trans)
qed

lemma execute_round_evolves:
  assumes "execute_round env unix_secs r txs n = Inr n'"
  shows "node_evolves n n'"
proof -
  have "evolves pool_step (nd_mempool n) (snd (mark_included cs (nd_mempool n)))" for cs
    using evolves_op [of pool_step "nd_mempool n" "PInclude cs"] by simp
  then show ?thesis using assms by (auto simp: execute_round_def and_then_eq_Inr case_prod_beta node_evolves_def Let_def)
qed

lemma process_commits_evolves: "process_commits env now unix_secs mids commits n = Inr n' \<Longrightarrow> node_evolves n n'"
proof (induction env now unix_secs mids commits n rule: process_commits.induct)
  case (2 env now unix_secs mids c cs n)
  then obtain m where m: "process_commit env now unix_secs (mids 0) c n = Inr m"
      "process_commits env now unix_secs (\<lambda>k. mids (Suc k)) cs m = Inr n'"
    by (cases "process_commit env now unix_secs (mids 0) c n") auto
  have "node_evolves n m"
    using m(1) by (auto simp: process_commit_eq Let_def share_loop_evolves split: if_splits
        dest!: execute_round_evolves intro: node_evolves_trans [OF share_loop_evolves])
  with "2.IH" [OF m(2)] show ?case by (auto intro: node_evolves_trans)
qed simp

lemma publish_event_evolves: "node_evolves n (publish_event env now mids e n)"
proof -
  obtain msgs g where b: "broadcast_event mids e (node_gossip (n\<lparr>nd_dag := dag_insert e (nd_dag n)\<rparr>)) = (msgs, g)" by fastforce
  then have "node_evolves n (set_gossip g (n\<lparr>nd_dag := dag_insert e (nd_dag n)\<rparr>))"
    by (auto simp: broadcast_event_def node_gossip_def node_evolves_def set_gossip_def Let_def)
  with b show ?thesis by (auto simp: publish_event_def intro: node_evolves_trans [OF _ send_all_evolves])
qed

lemma producer_tick_evolves:
  assumes "producer_tick env now unix_secs mids n = Inr n'"
  shows "node_evolves n n'"
  using assms
proof (cases rule: producer_tick_cases)
  case (1 e m commits detector)
  let ?m = "case e of Some event \<Rightarrow> publish_event env now (mids 0) event m | None \<Rightarrow> m"
  have "node_evolves n m" using 1(1) by (auto simp: create_event_def clock_tick_def node_evolves_def Let_def split: option.splits)
  also have "node_evolves m ?m" by (auto intro: publish_event_evolves split: option.splits)
  also have "node_evolves ?m (?m\<lparr>nd_commit_detector := detector\<rparr>)" by (simp add: node_evolves_def)
  also have "node_evolves \<dots> n'" by (rule process_commits_evolves [OF 1(2)])
  finally show ?thesis .
qed

lemma background_evolves: "background_step env n n' \<Longrightarrow> node_evolves n n'"
proof (induction rule: background_step.induct)
  case (submit n now tx price)
  show ?case using evolves_op [of pool_step "nd_mempool n" "PAdd now tx price"] by (simp add: node_evolves_def)
next
  case (expire n now)
  show ?case using evolves_op [of pool_step "nd_mempool n" "PPrune now"] by (simp add: node_evolves_def)
next
  case (connected n now pid addr outcome)
  show ?case using connect_evolves [of "node_net n"] by (auto simp: node_net_def intro: set_net_evolves)
next
  case (accepted n sha now addr)
  show ?case using accept_evolves [of "node_net n"] by (auto simp: node_net_def intro: set_net_evolves)
next
  case (received n deserialize now pid data)
  show ?case using deliver_evolves [of "node_net n"] by (auto simp: node_net_def intro: set_net_evolves)
next
  case (disconnected n now pid)
  show ?case using disconnect_evolves [of "node_net n"] by (auto simp: node_net_def intro: set_net_evolves)
qed (simp_all add: producer_tick_evolves handle_incoming_evolves, simp add: node_evolves_def)

lemma node_start_evolves: "node_evolves n (snd (node_start env now outcomes n))"
proof -
  let ?peers = "\<lambda>net. fold (\<lambda>a net. case parse_socket_addr a of
      Some addr \<Rightarrow> connect_attempts now (env_sha env (as_bytes a)) addr (map (outcomes a) [0 ..< 5]) net | None \<Rightarrow> net)"
  have "evolves peer_step (snd net) (snd (?peers net as net))" for as and net :: net
    by (rule fold_preorder [where R = "\<lambda>m n. evolves peer_step (snd m) (snd n)"])
      (auto intro: evolves_trans connect_attempts_evolves split: option.splits)
  then show ?thesis
    by (auto simp: node_start_def connect_bootstrap_peers_def node_evolves_def set_net_def node_net_def Let_def)
qed

lemma node_step_evolves: "node_step env n n' \<Longrightarrow> node_evolves n n'"
  by (induction rule: node_step.induct)
    (simp_all add: background_evolves node_start_evolves, simp add: node_evolves_def node_stop_def Let_def)

lemma reachable_evolves: "(node_step env)\<^sup>*\<^sup>* n n' \<Longrightarrow> node_evolves n n'"
  by (induction rule: rtranclp_induct) (auto intro: node_evolves_trans node_step_evolves)

section \<open>Properties\<close>

text \<open>Property C29: a node keeps its bounds. Whatever messages, connections and transactions a node gets, its peer
  table has no more entries than the configuration allows, no peer twice and never the node itself, and its pool
  holds no more than 10000 transactions, each of them listed exactly once in the index by price.\<close>

theorem node_resources_bounded:
  assumes new: "node_new env num_cpus rng peer_id unix_secs config = Inr n" and run: "(node_step env)\<^sup>*\<^sup>* n n'"
  shows "peer_count (nd_peers n') \<le> nc_max_peers (cfg_network config) \<and> distinct (all_peer_ids (nd_peers n')) \<and>
    peer_id \<notin> set (all_peer_ids (nd_peers n')) \<and> pool_len (nd_mempool n') \<le> 10000 \<and> pool_inv (nd_mempool n')"
proof -
  have n: "nd_peers n = pm_new peer_id (nc_max_peers (cfg_network config))" "nd_mempool n = pool_new 10000"
    using new by (auto simp: node_new_def and_then_eq_Inr)
  obtain ops where ops: "nd_peers n' = fold peer_step ops (nd_peers n)"
    using reachable_evolves [OF run] by (auto simp: node_evolves_def evolves_def)
  obtain ops' where ops': "nd_mempool n' = fold pool_step ops' (nd_mempool n)"
    using reachable_evolves [OF run] by (auto simp: node_evolves_def evolves_def)
  have "pm_inv (nd_peers n')" "pool_inv (nd_mempool n')"
    unfolding ops ops' n by (auto intro: peers.run_inv pool.run_inv pool_inv_new)
  moreover have "pm_local_id (nd_peers n') = peer_id" "pm_max_peers (nd_peers n') = nc_max_peers (cfg_network config)"
      "tp_max_size (nd_mempool n') = 10000"
    unfolding ops ops' n by (simp_all add: pool_max_size_run pm_new_def pool_new_def)
  ultimately show ?thesis
    by (auto simp: pm_inv_def pool_inv_def peer_count_def all_peer_ids_def pool_len_def map_of_eq_None_iff)
qed

theorem node_resources_bounded_witness:
  "node_step example_env fresh_node (snd (node_start example_env 0 (\<lambda>_ _. Inr ()) fresh_node)) \<and>
   peer_count (nd_peers (snd (node_start example_env 0 (\<lambda>_ _. Inr ()) fresh_node))) \<le> 50"
proof -
  let ?n = "snd (node_start example_env 0 (\<lambda>_ _. Inr ()) fresh_node)"
  have step: "node_step example_env fresh_node ?n" by (rule node_step.started)
  then have "(node_step example_env)\<^sup>*\<^sup>* fresh_node ?n" by blast
  from step node_resources_bounded [OF fresh_node(1) this] show ?thesis
    by (simp add: example_config_def node_config_default_def network_config_default_def)
qed

end
