(* ===== verification/Node_Network.thy ===== *)
theory Node_Network
  imports Ryther_Node
begin

text \<open>
  Several nodes that run the code of \<^verbatim>\<open>src/node/node.rs\<close> and are connected through the transport. A network has
  a node for every index; a node knows each other one under some peer identifier, that of the connection between
  them, and has read so many of the messages the other has put on it. What travels is the bytes of the framed and
  encoded messages.
\<close>

record ('i, 'sk, 'r) network =
  nw_node :: "'i \<Rightarrow> ('sk, 'r) ryther_node"
  nw_known_as :: "'i \<Rightarrow> 'i \<Rightarrow> peer_id"
  nw_read :: "'i \<Rightarrow> 'i \<Rightarrow> nat"
  nw_created :: "dag_event set"

definition outgoing :: "('sk, 'r) ryther_node \<Rightarrow> peer_id \<Rightarrow> bytes list" where
  "outgoing n p = (case hm_get (tt_connections (nd_transport n)) p of Some c \<Rightarrow> cn_sent c | None \<Rightarrow> [])"

text \<open>The reader task of a connection takes the messages off the bytes that arrived.\<close>

definition receive ::
    "(bytes \<Rightarrow> network_message option) \<Rightarrow> nat \<Rightarrow> peer_id \<Rightarrow> bytes \<Rightarrow> ('sk, 'r) ryther_node \<Rightarrow> ('sk, 'r) ryther_node" where
  "receive deserialize now p stream n =
     set_net (fold (deliver deserialize now p) (read_frames (tc_max_message_size (tt_config (nd_transport n))) stream) (node_net n)) n"

text \<open>The message handler takes the next message from the channel.\<close>

definition handle_next ::
    "('sk, 'pk, 'sg, 'ag) node_env \<Rightarrow> nat \<Rightarrow> bytes \<Rightarrow> ('sk, 'r) ryther_node \<Rightarrow> ('sk, 'r) ryther_node" where
  "handle_next env now mid n =
     (case tt_incoming (nd_transport n) of
        [] \<Rightarrow> n
      | m # ms \<Rightarrow> handle_incoming env now mid m (n\<lparr>nd_transport := (nd_transport n)\<lparr>tt_incoming := ms\<rparr>\<rparr>))"

definition unread :: "('i, 'sk, 'r) network \<Rightarrow> 'i \<Rightarrow> 'i \<Rightarrow> bytes list" where
  "unread w i j = drop (nw_read w i j) (outgoing (nw_node w i) (nw_known_as w i j))"

definition put_node :: "'i \<Rightarrow> ('sk, 'r) ryther_node \<Rightarrow> ('i, 'sk, 'r) network \<Rightarrow> ('i, 'sk, 'r) network" where
  "put_node i n w = w\<lparr>nw_node := (nw_node w)(i := n)\<rparr>"

text \<open>Node \<open>j\<close> reads what node \<open>i\<close> has sent it since.\<close>

definition carry ::
    "(bytes \<Rightarrow> network_message option) \<Rightarrow> nat \<Rightarrow> 'i \<Rightarrow> 'i \<Rightarrow> ('i, 'sk, 'r) network \<Rightarrow> ('i, 'sk, 'r) network" where
  "carry deserialize now i j w =
     (put_node j (receive deserialize now (nw_known_as w j i) (writer_task (unread w i j)) (nw_node w j)) w)
       \<lparr>nw_read := (nw_read w)(i := (nw_read w i)(j := nw_read w i j + length (unread w i j)))\<rparr>"

text \<open>A step of the network: a round of a block producer, the transfer of messages, the handling of a message, a
  change of the connections, a transaction for the pool or the cleanup of a node. A message whose length does not
  fit the 32-bit length field of its frame is not carried.\<close>

inductive network_step ::
    "('sk, 'pk, 'sg, 'ag) node_env \<Rightarrow> (bytes \<Rightarrow> network_message option) \<Rightarrow> ('i, 'sk, 'r) network \<Rightarrow> ('i, 'sk, 'r) network \<Rightarrow> bool"
  for env deserialize where
  tick: "producer_tick env now unix_secs mids (nw_node w i) = Inr n \<Longrightarrow>
    network_step env deserialize w ((put_node i n w)\<lparr>nw_created := nw_created w \<union> set_option (fst (create_event env (nw_node w i)))\<rparr>)"
| transfer: "\<forall>d \<in> set (unread w i j). length d < 2 ^ 32 \<Longrightarrow> network_step env deserialize w (carry deserialize now i j w)"
| handled: "network_step env deserialize w (put_node i (handle_next env now mid (nw_node w i)) w)"
| connected: "network_step env deserialize w
    (put_node i (set_net (snd (connect now p addr outcome (node_net (nw_node w i)))) (nw_node w i)) w)"
| accepted: "network_step env deserialize w
    (put_node i (set_net (accept sha now addr (node_net (nw_node w i))) (nw_node w i)) w)"
| disconnected: "network_step env deserialize w
    (put_node i (set_net (disconnect now p (node_net (nw_node w i))) (nw_node w i)) w)"
| submitted: "network_step env deserialize w
    (put_node i ((nw_node w i)\<lparr>nd_mempool := snd (pool_add now tx price (nd_mempool (nw_node w i)))\<rparr>) w)"
| cleaned: "network_step env deserialize w
    (put_node i ((nw_node w i)\<lparr>nd_gossip := cleanup now (nd_gossip (nw_node w i))\<rparr>) w)"

text \<open>Two steps in a row: node \<open>j\<close> reads what node \<open>i\<close> has sent and handles its next message.\<close>

definition pass_message ::
    "('sk, 'pk, 'sg, 'ag) node_env \<Rightarrow> (bytes \<Rightarrow> network_message option) \<Rightarrow> nat \<Rightarrow> bytes \<Rightarrow> 'i \<Rightarrow> 'i \<Rightarrow>
     ('i, 'sk, 'r) network \<Rightarrow> ('i, 'sk, 'r) network" where
  "pass_message env deserialize now mid i j w =
     (let w1 = carry deserialize now i j w in put_node j (handle_next env now mid (nw_node w1 j)) w1)"

section \<open>Integrity\<close>

text \<open>A message whose events all belong to a set, and a node all whose events and messages do.\<close>

definition message_within :: "dag_event set \<Rightarrow> network_message \<Rightarrow> bool" where
  "message_within S m = (case nm_payload m of EventResponse r \<Rightarrow> set (es_events r) \<subseteq> S | _ \<Rightarrow> True)"

definition bytes_within :: "(network_message \<Rightarrow> bytes option) \<Rightarrow> dag_event set \<Rightarrow> bytes \<Rightarrow> bool" where
  "bytes_within serialize S d \<longleftrightarrow> (\<exists>m. message_within S m \<and> d = to_bytes serialize m)"

definition dag_within :: "dag_event set \<Rightarrow> dag_store \<Rightarrow> bool" where
  "dag_within S d \<longleftrightarrow> (\<forall>i e. dag_get d i = Some e \<longrightarrow> e \<in> S)"

definition transport_within :: "(network_message \<Rightarrow> bytes option) \<Rightarrow> dag_event set \<Rightarrow> tcp_transport \<Rightarrow> bool" where
  "transport_within serialize S t \<longleftrightarrow>
     (\<forall>p c. hm_get (tt_connections t) p = Some c \<longrightarrow> (\<forall>d \<in> set (cn_sent c). bytes_within serialize S d)) \<and>
     (\<forall>(p, m) \<in> set (tt_incoming t). message_within S m)"

definition node_within :: "(network_message \<Rightarrow> bytes option) \<Rightarrow> dag_event set \<Rightarrow> ('sk, 'r) ryther_node \<Rightarrow> bool" where
  "node_within serialize S n \<longleftrightarrow> dag_within S (nd_dag n) \<and> transport_within serialize S (nd_transport n)"

lemma message_within_mono: "message_within S m \<Longrightarrow> S \<subseteq> T \<Longrightarrow> message_within T m"
  by (auto simp: message_within_def split: message_type.splits)

lemma node_within_mono: "node_within serialize S n \<Longrightarrow> S \<subseteq> T \<Longrightarrow> node_within serialize T n"
  unfolding node_within_def dag_within_def transport_within_def bytes_within_def
  by (fast intro: message_within_mono)

lemma node_within_set_net [simp]:
  "node_within serialize S (set_net net n) \<longleftrightarrow> dag_within S (nd_dag n) \<and> transport_within serialize S (fst net)"
  by (simp add: node_within_def set_net_def)

lemma transport_within_insert:
  assumes "transport_within serialize S t" "\<forall>d \<in> set (cn_sent c). bytes_within serialize S d"
  shows "transport_within serialize S (t\<lparr>tt_connections := hm_insert p c (tt_connections t)\<rparr>)"
  using assms by (auto simp: transport_within_def hm_lookup split: if_splits)

lemma send_within:
  assumes "transport_within serialize S (fst net)" "message_within S m"
  shows "transport_within serialize S (fst (snd (send serialize now p m net)))"
proof -
  have "bytes_within serialize S (to_bytes serialize m)" using assms(2) by (auto simp: bytes_within_def)
  then have "transport_within serialize S (t\<lparr>tt_connections := hm_insert p (c\<lparr>cn_sent := cn_sent c @ [to_bytes serialize m]\<rparr>) (tt_connections t)\<rparr>)"
    if "transport_within serialize S t" "hm_get (tt_connections t) p = Some c" for t c
    using that by (intro transport_within_insert) (auto simp: transport_within_def)
  then show ?thesis using assms(1) by (auto simp: send_def split: prod.splits option.splits)
qed

lemma sends_within:
  "transport_within serialize S (fst net) \<Longrightarrow> \<forall>(p, m) \<in> set ms. message_within S m \<Longrightarrow>
   transport_within serialize S (fst (fold (\<lambda>(p, m) net. snd (send serialize now p m net)) ms net))"
  by (rule fold_invariant [where Q = "\<lambda>(p, m). message_within S m" and P = "\<lambda>net. transport_within serialize S (fst net)"])
    (auto intro: send_within [of _ _ "(t, pm)" for t pm, simplified])

lemma send_all_within:
  assumes "node_within (env_serialize env) S n" "\<forall>(p, m) \<in> set ms. message_within S m"
  shows "node_within (env_serialize env) S (send_all env now ms n)"
  using assms sends_within [of "env_serialize env" S "node_net n" ms now]
  by (simp add: send_all_def) (simp add: node_within_def node_net_def)

lemma connections_within:
  assumes "transport_within serialize S (fst net)"
  shows "transport_within serialize S (fst (setup_connection now p net))"
    "transport_within serialize S (fst (snd (connect now p addr outcome net)))"
    "transport_within serialize S (fst (accept sha now addr net))"
    "transport_within serialize S (fst (disconnect now p net))"
proof -
  have new: "transport_within serialize S (fst (setup_connection now p net))"
    if "transport_within serialize S (fst net)" for p net
    using that by (auto simp: setup_connection_def intro: transport_within_insert split: prod.splits)
  from assms show "transport_within serialize S (fst (setup_connection now p net))" by (rule new)
  show "transport_within serialize S (fst (snd (connect now p addr outcome net)))"
    using assms new by (auto simp: connect_def Let_def split: prod.splits sum.splits)
  show "transport_within serialize S (fst (accept sha now addr net))"
    using assms new by (auto simp: accept_def Let_def split: prod.splits)
  show "transport_within serialize S (fst (disconnect now p net))"
    using assms by (auto simp: disconnect_def transport_within_def hm_lookup split: prod.splits if_splits)
qed

lemma node_connections_within:
  assumes "node_within serialize S n"
  shows "node_within serialize S (set_net (snd (connect now p addr outcome (node_net n))) n)"
    "node_within serialize S (set_net (accept sha now addr (node_net n)) n)"
    "node_within serialize S (set_net (disconnect now p (node_net n)) n)"
  using assms connections_within [of serialize S "node_net n"] unfolding node_within_set_net
  by (simp_all add: node_within_def node_net_def)

text \<open>Reading gives back the messages that were written, as long as the encoding can be undone.\<close>

lemma bytes_within_read:
  assumes codec: "bincode_ok serialize deserialize" "deserialize [] = None"
    and "bytes_within serialize S d" "from_bytes deserialize d = Some m"
  shows "message_within S m"
proof -
  obtain m' where m': "message_within S m'" "d = to_bytes serialize m'" using assms(3) by (auto simp: bytes_within_def)
  then have "m' = m" using codec assms(4)
    by (cases "serialize m'") (auto simp: to_bytes_def from_bytes_def bincode_ok_def)
  with m'(1) show ?thesis by simp
qed

lemma deliver_within:
  assumes codec: "bincode_ok serialize deserialize" "deserialize [] = None"
    and "bytes_within serialize S d" "transport_within serialize S (fst net)"
  shows "transport_within serialize S (fst (deliver deserialize now p d net))"
  using assms(4) bytes_within_read [OF codec assms(3)]
  by (auto simp: deliver_def transport_within_def split: prod.splits option.splits)

lemma read_frames_subset:
  "\<forall>d \<in> set ds. length d < 2 ^ 32 \<Longrightarrow> set (read_frames max_size (writer_task ds)) \<subseteq> set ds"
proof (induction ds)
  case Nil
  then show ?case by (simp add: writer_task_def read_frames_short)
next
  case (Cons d ds)
  then have "length d < 2 ^ 32" by simp
  from read_frames_Cons [OF this, of max_size "writer_task ds"] Cons show ?case by (auto simp: writer_task_Cons)
qed

lemma receive_within:
  assumes codec: "bincode_ok serialize deserialize" "deserialize [] = None"
    and n: "node_within serialize S n" and ds: "\<forall>d \<in> set ds. bytes_within serialize S d \<and> length d < 2 ^ 32"
  shows "node_within serialize S (receive deserialize now p (writer_task ds) n)"
proof -
  have fold: "transport_within serialize S (fst (fold (deliver deserialize now p) xs net))"
    if "\<forall>d \<in> set xs. bytes_within serialize S d" "transport_within serialize S (fst net)" for xs net
    using that
    by (intro fold_invariant [where Q = "bytes_within serialize S" and P = "\<lambda>net. transport_within serialize S (fst net)"])
      (simp_all add: deliver_within [OF codec])
  have "\<forall>d \<in> set (read_frames (tc_max_message_size (tt_config (nd_transport n))) (writer_task ds)). bytes_within serialize S d"
    using ds read_frames_subset [of ds] by blast
  with n show ?thesis unfolding receive_def node_within_set_net by (auto simp: node_within_def node_net_def intro: fold)
qed

text \<open>Handling a message stores only events of the message and sends only events of the store.\<close>

lemma dag_within_insert: "dag_within S d \<Longrightarrow> e \<in> S \<Longrightarrow> dag_within S (dag_insert e d)"
  by (auto simp: dag_within_def split: if_splits)

lemma dag_within_fold:
  assumes "dag_within S d" "set es \<subseteq> S"
  shows "dag_within S (fold dag_insert es d)"
  using assms by (induction es arbitrary: d) (auto simp: dag_within_insert)

lemma handle_message_within:
  assumes d: "dag_within S (gn_dag g)" and m: "message_within S m" and h: "handle_message now mid m g = (reply, g')"
  shows "dag_within S (gn_dag g') \<and> (\<forall>r. reply = Some r \<longrightarrow> message_within S r)"
proof (cases "nm_payload m")
  case (EventResponse r)
  then have "set (accepted (es_events r)) \<subseteq> S" using m by (auto simp: message_within_def accepted_def)
  with EventResponse h d show ?thesis
    by (auto simp: handle_message_def handle_event_response_def response_fold dag_within_fold Let_def split: if_splits)
next
  case (EventRequest r)
  with h d show ?thesis
    by (auto simp: handle_message_def handle_event_request_eq message_within_def message_new_def dag_within_def
        List.map_filter_def Let_def split: if_splits)
qed (use h d in \<open>auto simp: handle_message_def handle_event_announce_def message_within_def message_new_def Let_def split: if_splits\<close>)

lemma set_gossip_within:
  "node_within serialize S (set_gossip g n) \<longleftrightarrow> dag_within S (gn_dag g) \<and> transport_within serialize S (nd_transport n)"
  by (simp add: node_within_def set_gossip_def)

lemma handle_incoming_within:
  assumes n: "node_within (env_serialize env) S n" and m: "message_within S m"
  shows "node_within (env_serialize env) S (handle_incoming env now mid (p, m) n)"
proof -
  obtain reply g where h: "handle_message now mid m (node_gossip n) = (reply, g)" by fastforce
  have g: "dag_within S (gn_dag g)" "\<forall>r. reply = Some r \<longrightarrow> message_within S r"
    using handle_message_within [OF _ m h] n by (simp_all add: node_within_def node_gossip_def)
  have "node_within (env_serialize env) S (set_gossip g n)"
    unfolding set_gossip_within using g(1) n by (simp add: node_within_def)
  moreover have "node_within (env_serialize env) S (collect_share x n)" for x
    using n by (simp add: collect_share_def node_within_def Let_def)
  ultimately show ?thesis
    using h g(2) by (simp add: handle_incoming_def send_all_within split: message_type.splits option.splits)
qed

lemma handle_next_within:
  assumes "node_within (env_serialize env) S n"
  shows "node_within (env_serialize env) S (handle_next env now mid n)"
proof (cases "tt_incoming (nd_transport n)")
  case (Cons x ms)
  obtain p m where x: "x = (p, m)" by fastforce
  let ?n = "n\<lparr>nd_transport := (nd_transport n)\<lparr>tt_incoming := ms\<rparr>\<rparr>"
  have "message_within S m" "node_within (env_serialize env) S ?n"
    using assms Cons x by (auto simp: node_within_def transport_within_def)
  then show ?thesis using Cons x by (simp add: handle_next_def handle_incoming_within)
qed (use assms in \<open>simp add: handle_next_def\<close>)

text \<open>A round of the block producer adds the event it creates.\<close>

lemma broadcast_event_within:
  "dag_within S (gn_dag g) \<Longrightarrow> e \<in> S \<Longrightarrow> broadcast_event mids e g = (msgs, g') \<Longrightarrow>
   dag_within S (gn_dag g') \<and> (\<forall>(p, m) \<in> set msgs. message_within S m)"
  by (auto simp: broadcast_event_def dag_within_insert message_within_def message_new_def Let_def)

lemma publish_event_within:
  assumes n: "node_within (env_serialize env) S n" and e: "e \<in> S"
  shows "node_within (env_serialize env) S (publish_event env now mids e n)"
proof -
  let ?n = "n\<lparr>nd_dag := dag_insert e (nd_dag n)\<rparr>"
  obtain msgs g where b: "broadcast_event mids e (node_gossip ?n) = (msgs, g)" by fastforce
  have "dag_within S (nd_dag ?n)" using n e by (simp add: node_within_def dag_within_insert)
  with broadcast_event_within [OF _ e b] n show ?thesis
    using b by (auto simp: publish_event_def node_gossip_def set_gossip_within node_within_def [of _ _ n] intro!: send_all_within)
qed

lemma broadcast_share_within:
  "node_within (env_serialize env) S n \<Longrightarrow> node_within (env_serialize env) S (broadcast_share env now mid e n)"
  by (auto simp: broadcast_share_def share_message_def message_within_def message_new_def intro!: send_all_within split: option.splits)

lemma share_loop_within:
  "node_within (env_serialize env) S n \<Longrightarrow> node_within (env_serialize env) S (share_loop env now mids es n)"
  unfolding share_loop_def by (induction es arbitrary: n) (auto simp: broadcast_share_within)

lemma process_commits_within:
  "process_commits env now unix_secs mids commits n = Inr n' \<Longrightarrow> node_within (env_serialize env) S n \<Longrightarrow>
   node_within (env_serialize env) S n'"
proof (induction env now unix_secs mids commits n rule: process_commits.induct)
  case (2 env now unix_secs mids c cs n)
  then obtain m where m: "process_commit env now unix_secs (mids 0) c n = Inr m"
      "process_commits env now unix_secs (\<lambda>k. mids (Suc k)) cs m = Inr n'"
    by (cases "process_commit env now unix_secs (mids 0) c n") auto
  have "node_within (env_serialize env) S m"
    using m(1) share_loop_within [OF "2.prems"(2)]
    by (auto simp: process_commit_eq node_within_def Let_def split: if_splits dest!: execute_round_frame)
  with "2.IH" [OF m(2)] show ?case by blast
qed simp

lemma producer_tick_within:
  assumes t: "producer_tick env now unix_secs mids n = Inr n'" and n: "node_within (env_serialize env) S n"
  shows "node_within (env_serialize env) (S \<union> set_option (fst (create_event env n))) n'"
  using t
proof (cases rule: producer_tick_cases)
  case (1 e m commits detector)
  have m: "node_within (env_serialize env) S m"
    using 1(1) n by (auto simp: create_event_def clock_tick_def node_within_def Let_def split: option.splits)
  let ?T = "S \<union> set_option e" and ?m = "case e of Some event \<Rightarrow> publish_event env now (mids 0) event m | None \<Rightarrow> m"
  have "node_within (env_serialize env) ?T ?m"
    using node_within_mono [OF m, of ?T] by (auto intro: publish_event_within split: option.splits)
  then have "node_within (env_serialize env) ?T (?m\<lparr>nd_commit_detector := detector\<rparr>)" by (simp add: node_within_def)
  from process_commits_within [OF 1(2) this] 1(1) show ?thesis by simp
qed

section \<open>Authenticity\<close>

text \<open>A node never changes its validator identity, and all its events carry it and its signature.\<close>

definition identity :: "('sk, 'r) ryther_node \<Rightarrow> validator_id option \<times> 'sk option" where
  "identity n = (nd_validator_id n, nd_validator_key n)"

lemma identity_update [simp]:
  "identity (n\<lparr>nd_dag := d\<rparr>) = identity n" "identity (n\<lparr>nd_clock := k\<rparr>) = identity n" "identity (n\<lparr>nd_mempool := p\<rparr>) = identity n"
  "identity (n\<lparr>nd_gossip := g\<rparr>) = identity n" "identity (n\<lparr>nd_commit_detector := c\<rparr>) = identity n"
  "identity (n\<lparr>nd_transport := t\<rparr>) = identity n" "identity (set_net net n) = identity n" "identity (set_gossip gg n) = identity n"
  "identity (send_all env now ms n) = identity n"
  by (simp_all add: identity_def set_net_def set_gossip_def send_all_def)

lemma identity_share [simp]: "identity (broadcast_share env now mid e n) = identity n"
  by (simp add: broadcast_share_def split: option.splits)

lemma identity_share_loop [simp]: "identity (share_loop env now mids es n) = identity n"
  unfolding share_loop_def by (induction es arbitrary: n) auto

lemma identity_publish [simp]: "identity (publish_event env now mids e n) = identity n"
  by (simp add: publish_event_def Let_def case_prod_beta)

lemma identity_incoming [simp]: "identity (handle_incoming env now mid m n) = identity n"
  by (auto simp: handle_incoming_def collect_share_def identity_def [of "n\<lparr>nd_collected_shares := s\<rparr>" for s] identity_def [of n]
      Let_def split: message_type.splits prod.splits option.splits)

lemma identity_next [simp]: "identity (handle_next env now mid n) = identity n"
  by (simp add: handle_next_def split: list.splits)

lemma identity_commits: "process_commits env now unix_secs mids commits n = Inr n' \<Longrightarrow> identity n' = identity n"
proof (induction env now unix_secs mids commits n rule: process_commits.induct)
  case (2 env now unix_secs mids c cs n)
  then obtain m where m: "process_commit env now unix_secs (mids 0) c n = Inr m"
      "process_commits env now unix_secs (\<lambda>k. mids (Suc k)) cs m = Inr n'"
    by (cases "process_commit env now unix_secs (mids 0) c n") auto
  let ?n = "share_loop env now (mids 0) (enumerate 0 (dag_events_at_round (nd_dag n) (cr_round c))) n"
  have "identity m = identity ?n"
    using m(1) by (auto simp: process_commit_eq identity_def Let_def split: if_splits dest!: execute_round_frame)
  with "2.IH" [OF m(2)] show ?case by simp
qed simp

lemma identity_create: "create_event env n = (e, n') \<Longrightarrow> identity n' = identity n"
  by (auto simp: create_event_def clock_tick_def Let_def split: option.splits)

lemma identity_tick: "producer_tick env now unix_secs mids n = Inr n' \<Longrightarrow> identity n' = identity n"
  by (erule producer_tick_cases) (auto dest!: identity_commits identity_create split: option.splits)

text \<open>An identity as \<open>new\<close> loads it: the public key of the secret key.\<close>

definition identity_ok :: "('sk, 'pk, 'sg, 'ag) blst \<Rightarrow> validator_id option \<times> 'sk option \<Rightarrow> bool" where
  "identity_ok b k \<longleftrightarrow> fst k = map_option (\<lambda>sk. to_validator_id b (public_key b sk)) (snd k)"

lemma identity_new: "node_new env num_cpus rng peer_id unix_secs config = Inr n \<Longrightarrow> identity_ok (env_blst env) (identity n)"
  by (auto simp: node_new_def and_then_eq_Inr load_validator_key_def identity_def identity_ok_def to_validator_id_def
      split: option.splits sum.splits if_splits)

lemma created_event_signed:
  assumes "fst (create_event env n) = Some e" "blst_ok (env_blst env)" "identity_ok (env_blst env) (identity n)"
  shows "nd_validator_id n = Some (ev_creator e) \<and> check_signature (env_blst env) (ev_creator e) (ev_signature e) (ev_id e) = Inr ()"
  using assms check_signature_signed [OF assms(2)]
  by (auto simp: create_event_def identity_def identity_ok_def clock_tick_def Let_def split: option.splits)

section \<open>The invariant of a network\<close>

definition authentic :: "('sk, 'pk, 'sg, 'ag) blst \<Rightarrow> ('i, 'sk, 'r) network \<Rightarrow> dag_event \<Rightarrow> bool" where
  "authentic b w e \<longleftrightarrow>
     (\<exists>i. nd_validator_id (nw_node w i) = Some (ev_creator e)) \<and> check_signature b (ev_creator e) (ev_signature e) (ev_id e) = Inr ()"

definition network_ok :: "('sk, 'pk, 'sg, 'ag) node_env \<Rightarrow> ('i, 'sk, 'r) network \<Rightarrow> bool" where
  "network_ok env w \<longleftrightarrow>
     (\<forall>i. node_within (env_serialize env) (nw_created w) (nw_node w i) \<and> identity_ok (env_blst env) (identity (nw_node w i))) \<and>
     (\<forall>e \<in> nw_created w. authentic (env_blst env) w e)"

lemma network_ok_put:
  assumes w: "network_ok env w" and n: "node_within (env_serialize env) (nw_created w \<union> E) n" "identity n = identity (nw_node w i)"
    and E: "\<forall>e \<in> E. authentic (env_blst env) w e"
  shows "network_ok env ((put_node i n w)\<lparr>nw_created := nw_created w \<union> E\<rparr>)"
proof -
  let ?w = "(put_node i n w)\<lparr>nw_created := nw_created w \<union> E\<rparr>"
  have ids: "identity (nw_node ?w j) = identity (nw_node w j)" for j using n(2) by (simp add: put_node_def)
  then have "authentic (env_blst env) ?w e = authentic (env_blst env) w e" for e by (simp add: authentic_def identity_def)
  moreover have "node_within (env_serialize env) (nw_created w \<union> E) (nw_node ?w j)" for j
    using w n(1) by (auto simp: put_node_def network_ok_def intro: node_within_mono)
  moreover have "identity_ok (env_blst env) (identity (nw_node ?w j))" for j using w ids by (simp add: network_ok_def)
  ultimately show ?thesis using w E by (auto simp: network_ok_def)
qed

lemma network_ok_step:
  assumes "network_ok env w" "node_within (env_serialize env) (nw_created w) n" "identity n = identity (nw_node w i)"
  shows "network_ok env (put_node i n w)"
  using network_ok_put [OF assms(1) _ assms(3), of "{}"] assms(2) by (simp add: put_node_def)

lemma outgoing_within:
  "node_within serialize S n \<Longrightarrow> d \<in> set (outgoing n p) \<Longrightarrow> bytes_within serialize S d"
  by (cases "hm_get (tt_connections (nd_transport n)) p") (auto simp: node_within_def transport_within_def outgoing_def)

lemma network_ok_carry:
  assumes codec: "bincode_ok (env_serialize env) deserialize" "deserialize [] = None"
    and w: "network_ok env w" and short: "\<forall>d \<in> set (unread w i j). length d < 2 ^ 32"
  shows "network_ok env (carry deserialize now i j w)"
proof -
  have "bytes_within (env_serialize env) (nw_created w) d" if "d \<in> set (unread w i j)" for d
    using w in_set_dropD [OF that [unfolded unread_def]]
    by (auto simp: network_ok_def intro: outgoing_within)
  then have "node_within (env_serialize env) (nw_created w)
      (receive deserialize now (nw_known_as w j i) (writer_task (unread w i j)) (nw_node w j))"
    using w short by (intro receive_within [OF codec]) (auto simp: network_ok_def)
  from network_ok_step [OF w this, of j] show ?thesis
    by (simp add: carry_def receive_def) (simp add: network_ok_def authentic_def put_node_def)
qed

lemma network_step_ok:
  assumes env: "bincode_ok (env_serialize env) deserialize" "deserialize [] = None" "blst_ok (env_blst env)"
  shows "network_step env deserialize w w' \<Longrightarrow> network_ok env w \<Longrightarrow> network_ok env w'"
proof (induction rule: network_step.induct)
  case (tick now unix_secs mids w i n)
  have "authentic (env_blst env) w e" if "fst (create_event env (nw_node w i)) = Some e" for e
    using created_event_signed [OF that env(3)] tick.prems by (auto simp: authentic_def network_ok_def)
  then show ?case
    using tick.prems producer_tick_within [OF tick.hyps] identity_tick [OF tick.hyps]
    by (intro network_ok_put) (auto simp: network_ok_def)
next
  case (transfer w i j now)
  then show ?case by (intro network_ok_carry env)
next
  case (handled w i now mid)
  then show ?case by (intro network_ok_step) (auto simp: network_ok_def intro: handle_next_within)
next
  case (connected w i now p addr outcome)
  then show ?case by (intro network_ok_step) (simp_all add: network_ok_def node_connections_within del: node_within_set_net)
next
  case (accepted w i sha now addr)
  then show ?case by (intro network_ok_step) (simp_all add: network_ok_def node_connections_within del: node_within_set_net)
next
  case (disconnected w i now p)
  then show ?case by (intro network_ok_step) (simp_all add: network_ok_def node_connections_within del: node_within_set_net)
next
  case (submitted w i now tx price)
  then show ?case by (intro network_ok_step) (auto simp: network_ok_def node_within_def)
next
  case (cleaned w i now)
  then show ?case by (intro network_ok_step) (auto simp: network_ok_def node_within_def)
qed

text \<open>What the network relies on of other crates: an encoding that can be undone, where nothing is not a message,
  and signatures that verify.\<close>

definition env_ok :: "('sk, 'pk, 'sg, 'ag) node_env \<Rightarrow> (bytes \<Rightarrow> network_message option) \<Rightarrow> bool" where
  "env_ok env deserialize \<longleftrightarrow> bincode_ok (env_serialize env) deserialize \<and> deserialize [] = None \<and> blst_ok (env_blst env)"

interpretation gossiping: step_invariant "network_step env deserialize" "\<lambda>w. env_ok env deserialize \<and> network_ok env w"
  by unfold_locales (auto simp: env_ok_def intro: network_step_ok)

lemma node_new_within:
  "node_new env num_cpus rng peer_id unix_secs config = Inr n \<Longrightarrow> node_within serialize S n"
  by (auto simp: node_new_def and_then_eq_Inr node_within_def dag_within_def dag_get_def dag_new_def transport_within_def transport_new_def)

section \<open>Delivery\<close>

text \<open>A connection a node can send on, and a message that fits into a frame and the limit of its reader.\<close>

definition open_to :: "('sk, 'r) ryther_node \<Rightarrow> peer_id \<Rightarrow> bool" where
  "open_to n p = (case hm_get (tt_connections (nd_transport n)) p of Some c \<Rightarrow> cn_open c | None \<Rightarrow> False)"

definition fits :: "(network_message \<Rightarrow> bytes option) \<Rightarrow> ('sk, 'r) ryther_node \<Rightarrow> network_message \<Rightarrow> bool" where
  "fits serialize n m \<longleftrightarrow> serialize m \<noteq> None \<and> length (to_bytes serialize m) < 2 ^ 32 \<and>
     length (to_bytes serialize m) \<le> tc_max_message_size (tt_config (nd_transport n))"

text \<open>What of a node matters to the delivery of messages.\<close>

definition same_links :: "('sk, 'r) ryther_node \<Rightarrow> ('sk, 'r) ryther_node \<Rightarrow> bool" where
  "same_links n n' \<longleftrightarrow> (\<forall>p. open_to n' p = open_to n p) \<and> tt_config (nd_transport n') = tt_config (nd_transport n)"

lemma send_all_Nil [simp]: "send_all env now [] n = n"
  by (simp add: send_all_def set_net_def node_net_def)

lemma send_all_Cons: "send_all env now ((p, m) # ms) n = send_all env now ms (send_all env now [(p, m)] n)"
  by (simp add: send_all_def set_net_def node_net_def)

lemma send_all_links:
  "same_links n (send_all env now ms n) \<and> tt_incoming (nd_transport (send_all env now ms n)) = tt_incoming (nd_transport n) \<and>
   (open_to n p \<longrightarrow> outgoing (send_all env now ms n) p =
     outgoing n p @ map (\<lambda>(_, m). to_bytes (env_serialize env) m) (filter (\<lambda>(q, _). q = p) ms)) \<and>
   nd_gossip (send_all env now ms n) = nd_gossip n"
proof (induction ms arbitrary: n)
  case (Cons x ms)
  obtain q m where x: "x = (q, m)" by fastforce
  let ?n = "send_all env now [(q, m)] n"
  have "same_links n ?n \<and> tt_incoming (nd_transport ?n) = tt_incoming (nd_transport n) \<and> nd_gossip ?n = nd_gossip n \<and>
    (open_to n p \<longrightarrow> outgoing ?n p = outgoing n p @ (if q = p then [to_bytes (env_serialize env) m] else []))"
    by (auto simp: send_all_def node_net_def set_net_def send_def same_links_def open_to_def outgoing_def hm_lookup
        split: option.splits)
  with Cons [of ?n] show ?case unfolding x send_all_Cons [of env now q m ms] by (auto simp: same_links_def)
qed (simp add: same_links_def)

lemma receive_one:
  assumes "bincode_ok serialize deserialize" "fits serialize n m"
  shows "same_links n (receive deserialize now p (writer_task [to_bytes serialize m]) n) \<and>
    tt_incoming (nd_transport (receive deserialize now p (writer_task [to_bytes serialize m]) n)) = tt_incoming (nd_transport n) @ [(p, m)] \<and>
    (\<forall>q. outgoing (receive deserialize now p (writer_task [to_bytes serialize m]) n) q = outgoing n q) \<and>
    nd_gossip (receive deserialize now p (writer_task [to_bytes serialize m]) n) = nd_gossip n \<and>
    nd_dag (receive deserialize now p (writer_task [to_bytes serialize m]) n) = nd_dag n"
proof -
  have "read_frames (tc_max_message_size (tt_config (nd_transport n))) (writer_task [to_bytes serialize m]) = [to_bytes serialize m]"
    using assms(2) read_frames_append [of "[to_bytes serialize m]" _ "[]"] by (simp add: fits_def read_frames_short)
  moreover have "from_bytes deserialize (to_bytes serialize m) = Some m"
    using assms bincode_roundtrip [of serialize deserialize m] by (simp add: fits_def)
  ultimately show ?thesis
    by (simp add: receive_def deliver_def node_net_def set_net_def same_links_def open_to_def outgoing_def)
qed

lemma handle_next_reply:
  assumes "tt_incoming (nd_transport n) = [(p, m)]" "\<forall>x. nm_payload m \<noteq> DecryptionShare x"
    and "handle_message now mid m (node_gossip n) = (reply, g)"
  shows "same_links n (handle_next env now mid n) \<and> tt_incoming (nd_transport (handle_next env now mid n)) = [] \<and>
    (open_to n p \<longrightarrow> outgoing (handle_next env now mid n) p =
       outgoing n p @ (case reply of Some r \<Rightarrow> [to_bytes (env_serialize env) r] | None \<Rightarrow> [])) \<and>
    nd_gossip (handle_next env now mid n) = gn_gossip g \<and> nd_dag (handle_next env now mid n) = gn_dag g"
proof -
  let ?n = "set_gossip g (n\<lparr>nd_transport := (nd_transport n)\<lparr>tt_incoming := []\<rparr>\<rparr>)"
  have "handle_next env now mid n = send_all env now (case reply of Some r \<Rightarrow> [(p, r)] | None \<Rightarrow> []) ?n"
    using assms by (auto simp: handle_next_def handle_incoming_def node_gossip_def split: message_type.splits option.splits)
  moreover have "same_links n ?n" "tt_incoming (nd_transport ?n) = []" "open_to ?n p = open_to n p" "outgoing ?n p = outgoing n p"
      "nd_gossip ?n = gn_gossip g" "nd_dag ?n = gn_dag g"
    by (simp_all add: same_links_def open_to_def outgoing_def set_gossip_def)
  ultimately show ?thesis
    using send_all_links [of ?n env now "case reply of Some r \<Rightarrow> [(p, r)] | None \<Rightarrow> []" p]
    by (cases reply) (simp_all add: same_links_def)
qed

lemma filter_announcements:
  "distinct (map f xs) \<Longrightarrow> p \<in> f ` set xs \<Longrightarrow>
   \<exists>k. filter (\<lambda>(q, _). q = p) (map (\<lambda>(i, x). (f x, g i)) (enumerate s xs)) = [(p, g k)]"
proof (induction xs arbitrary: s)
  case (Cons x xs)
  show ?case
  proof (cases "f x = p")
    case True
    have other: "f y \<noteq> p" if "(i, y) \<in> set (enumerate (Suc s) xs)" for i y
    proof -
      from that have "y \<in> set xs" by (auto simp: in_set_enumerate_eq intro!: nth_mem)
      then have "f y \<in> f ` set xs" by (rule imageI)
      with True Cons.prems(1) show ?thesis by auto
    qed
    have "filter (\<lambda>(q, _). q = p) (map (\<lambda>(i, x). (f x, g i)) (enumerate (Suc s) xs)) = []"
      by (auto simp: filter_empty_conv dest: other)
    with True show ?thesis by auto
  next
    case False
    with Cons.prems Cons.IH [of "Suc s"] show ?thesis by auto
  qed
qed simp

text \<open>A published event is announced once to each chosen peer.\<close>

lemma publish_event_links:
  assumes inv: "pm_inv (nd_peers n)" and "open_to n p"
    and p: "p \<in> pi_id ` set (best_peers (gc_fanout (gp_config (nd_gossip n))) (nd_peers n))"
    and new: "n' = publish_event env now mids e n"
  shows "\<exists>k. outgoing n' p = outgoing n p @ [to_bytes (env_serialize env) (announcement (mids k) (gp_local_id (nd_gossip n)) e)] \<and>
    same_links n n' \<and> tt_incoming (nd_transport n') = tt_incoming (nd_transport n) \<and>
    gp_seen_messages (nd_gossip n') = gp_seen_messages (nd_gossip n) \<and> gp_local_id (nd_gossip n') = gp_local_id (nd_gossip n)"
proof -
  let ?m = "n\<lparr>nd_dag := dag_insert e (nd_dag n)\<rparr>"
  obtain msgs g where b: "broadcast_event mids e (node_gossip ?m) = (msgs, g)" by fastforce
  have n': "n' = send_all env now msgs (set_gossip g ?m)" using b by (simp add: new publish_event_def)
  have "msgs = map (\<lambda>(i, x). (pi_id x, announcement (mids i) (gp_local_id (nd_gossip n)) e))
      (enumerate 0 (best_peers (gc_fanout (gp_config (nd_gossip n))) (nd_peers n)))"
    using b by (auto simp: broadcast_event_def node_gossip_def announcement_def Let_def)
  with filter_announcements [OF best_peers_distinct [OF inv] p, of "\<lambda>i. announcement (mids i) (gp_local_id (nd_gossip n)) e" 0]
  obtain k where k: "filter (\<lambda>(q, _). q = p) msgs = [(p, announcement (mids k) (gp_local_id (nd_gossip n)) e)]" by auto
  have m: "open_to (set_gossip g ?m) q = open_to n q" "outgoing (set_gossip g ?m) q = outgoing n q"
      "nd_transport (set_gossip g ?m) = nd_transport n" "nd_gossip (set_gossip g ?m) = gn_gossip g" for q
    by (simp_all add: open_to_def outgoing_def set_gossip_def)
  have g: "gp_seen_messages (gn_gossip g) = gp_seen_messages (nd_gossip n)" "gp_local_id (gn_gossip g) = gp_local_id (nd_gossip n)"
    using b by (auto simp: broadcast_event_def node_gossip_def Let_def)
  show ?thesis
    using send_all_links [of "set_gossip g ?m" env now msgs p] assms(2) k m g unfolding n' by (auto simp: same_links_def)
qed

text \<open>One message between two nodes: the other node reads it, handles it and answers.\<close>

lemma message_exchanged:
  assumes codec: "bincode_ok (env_serialize env) deserialize" and ij: "i \<noteq> j"
    and m: "unread w i j = [to_bytes (env_serialize env) m]" "fits (env_serialize env) (nw_node w j) m"
      "\<forall>x. nm_payload m \<noteq> DecryptionShare x"
    and j: "tt_incoming (nd_transport (nw_node w j)) = []" "open_to (nw_node w j) (nw_known_as w j i)"
    and handled: "\<And>g. gn_gossip g = nd_gossip (nw_node w j) \<Longrightarrow> gn_dag g = nd_dag (nw_node w j) \<Longrightarrow>
      \<exists>g'. handle_message now mid m g = (reply, g') \<and> Q (gn_gossip g') (gn_dag g')"
    and w': "w' = pass_message env deserialize now mid i j w"
  shows "(network_step env deserialize)\<^sup>*\<^sup>* w w' \<and> nw_node w' i = nw_node w i \<and> same_links (nw_node w j) (nw_node w' j) \<and>
    tt_incoming (nd_transport (nw_node w' j)) = [] \<and>
    outgoing (nw_node w' j) (nw_known_as w j i) = outgoing (nw_node w j) (nw_known_as w j i) @
      (case reply of Some r \<Rightarrow> [to_bytes (env_serialize env) r] | None \<Rightarrow> []) \<and>
    Q (nd_gossip (nw_node w' j)) (nd_dag (nw_node w' j)) \<and> nw_known_as w' = nw_known_as w \<and>
    nw_read w' i j = nw_read w i j + 1 \<and> nw_read w' j i = nw_read w j i"
proof -
  let ?p = "nw_known_as w j i"
  define n where "n = receive deserialize now ?p (writer_task [to_bytes (env_serialize env) m]) (nw_node w j)"
  have n: "same_links (nw_node w j) n" "tt_incoming (nd_transport n) = [(?p, m)]" "outgoing n ?p = outgoing (nw_node w j) ?p"
      "nd_gossip n = nd_gossip (nw_node w j)" "nd_dag n = nd_dag (nw_node w j)"
    using receive_one [OF codec m(2), of now ?p] j(1) by (simp_all add: n_def)
  obtain g' where g': "handle_message now mid m (node_gossip n) = (reply, g')" "Q (gn_gossip g') (gn_dag g')"
    using handled [of "node_gossip n"] n(4,5) by (auto simp: node_gossip_def)
  let ?w = "carry deserialize now i j w"
  have w: "nw_node ?w j = n" "nw_node ?w i = nw_node w i" "nw_known_as ?w = nw_known_as w" "nw_read ?w i j = nw_read w i j + 1"
      "nw_read ?w j i = nw_read w j i"
    using ij m(1) by (auto simp: carry_def put_node_def n_def)
  have w'': "w' = put_node j (handle_next env now mid (nw_node ?w j)) ?w" by (simp add: w' pass_message_def Let_def)
  have "network_step env deserialize w ?w" using m(1,2) by (intro network_step.transfer) (simp add: fits_def)
  moreover have "network_step env deserialize ?w w'" unfolding w'' by (rule network_step.handled)
  ultimately have "(network_step env deserialize)\<^sup>*\<^sup>* w w'" by (meson converse_rtranclp_into_rtranclp r_into_rtranclp)
  moreover have "open_to n ?p" using n(1) j(2) by (simp add: same_links_def)
  ultimately show ?thesis
    using handle_next_reply [OF n(2) m(3) g'(1), of env] n w g'(2) ij
    by (auto simp: w'' put_node_def same_links_def)
qed

text \<open>Two nodes with an open connection between them on which nothing is under way.\<close>

definition quiet :: "'i \<Rightarrow> 'i \<Rightarrow> ('i, 'sk, 'r) network \<Rightarrow> bool" where
  "quiet i j w \<longleftrightarrow> open_to (nw_node w i) (nw_known_as w i j) \<and>
     nw_read w i j = length (outgoing (nw_node w i) (nw_known_as w i j)) \<and> tt_incoming (nd_transport (nw_node w i)) = []"

text \<open>After an announcement, request and response carry the event over.\<close>

lemma announcement_answered:
  fixes w :: "('i, 'sk, 'r) network"
  assumes codec: "bincode_ok (env_serialize env) deserialize" and ij: "i \<noteq> j" and quiet: "quiet j i w"
    and i: "open_to (nw_node w i) (nw_known_as w i j)" "tt_incoming (nd_transport (nw_node w i)) = []"
      "nw_read w i j + 1 = length (outgoing (nw_node w i) (nw_known_as w i j))"
      "unread w i j = [to_bytes (env_serialize env) (announcement mid li e)]" "dag_get (nd_dag (nw_node w i)) (ev_id e) = Some e"
    and e: "validate_structure e = Inr ()" "\<not> dag_contains (nd_dag (nw_node w j)) (ev_id e)"
      "ev_id e \<notin> set (gp_processed_events (nd_gossip (nw_node w j)))"
    and fresh: "\<not> is_seen (nd_gossip (nw_node w j)) mid" "mid \<noteq> m2" "\<not> is_seen (nd_gossip (nw_node w j)) m2"
      "\<not> is_seen (nd_gossip (nw_node w i)) m1"
    and fits: "fits (env_serialize env) (nw_node w j) (announcement mid li e)"
      "fits (env_serialize env) (nw_node w i) (fetch_request m1 (gp_local_id (nd_gossip (nw_node w j))) (ev_id e))"
      "fits (env_serialize env) (nw_node w j) (fetch_response m2 (gp_local_id (nd_gossip (nw_node w i))) e)"
    and w': "w' = pass_message env deserialize now m3 i j (pass_message env deserialize now m2 j i (pass_message env deserialize now m1 i j w))"
  shows "(network_step env deserialize)\<^sup>*\<^sup>* w w' \<and> nd_dag (nw_node w' j) = dag_insert e (nd_dag (nw_node w j)) \<and>
    dag_get (nd_dag (nw_node w' i)) (ev_id e) = Some e"
proof -
  let ?p = "nw_known_as w i j" and ?q = "nw_known_as w j i"
  let ?li = "gp_local_id (nd_gossip (nw_node w i))" and ?lj = "gp_local_id (nd_gossip (nw_node w j))"
  define w1 where "w1 = pass_message env deserialize now m1 i j w"
  define w2 where "w2 = pass_message env deserialize now m2 j i w1"
  let ?req = "fetch_request m1 ?lj (ev_id e)" and ?resp = "fetch_response m2 ?li e"
  have payloads: "\<forall>x. nm_payload (announcement mid li e) \<noteq> DecryptionShare x" "\<forall>x. nm_payload ?req \<noteq> DecryptionShare x"
      "\<forall>x. nm_payload ?resp \<noteq> DecryptionShare x"
    by (simp_all add: announcement_def fetch_request_def fetch_response_def message_new_def)
  have quietD: "tt_incoming (nd_transport (nw_node w j)) = []" "open_to (nw_node w j) ?q" using quiet by (simp_all add: quiet_def)
  have "\<exists>g'. handle_message now m1 (announcement mid li e) g = (Some ?req, g') \<and> gn_dag g' = nd_dag (nw_node w j) \<and>
      \<not> is_seen (gn_gossip g') m2" if "gn_gossip g = nd_gossip (nw_node w j)" "gn_dag g = nd_dag (nw_node w j)" for g
    using announce_handled [of g mid e now m1 li] fresh e(2,3) that by (auto simp: is_seen_def hm_lookup)
  from message_exchanged [where Q = "\<lambda>g d. d = nd_dag (nw_node w j) \<and> \<not> is_seen g m2",
      OF codec ij i(4) fits(1) payloads(1) quietD this w1_def]
  have w1: "(network_step env deserialize)\<^sup>*\<^sup>* w w1" "nw_node w1 i = nw_node w i" "same_links (nw_node w j) (nw_node w1 j)"
      "tt_incoming (nd_transport (nw_node w1 j)) = []" "outgoing (nw_node w1 j) ?q = outgoing (nw_node w j) ?q @ [to_bytes (env_serialize env) ?req]"
      "nd_dag (nw_node w1 j) = nd_dag (nw_node w j)" "\<not> is_seen (nd_gossip (nw_node w1 j)) m2" "nw_known_as w1 = nw_known_as w"
      "nw_read w1 i j = nw_read w i j + 1" "nw_read w1 j i = nw_read w j i"
    unfolding option.case by blast+
  have req: "unread w1 j i = [to_bytes (env_serialize env) ?req]" using w1 quiet by (simp add: unread_def quiet_def)
  have "\<exists>g'. handle_message now m2 ?req g = (Some ?resp, g') \<and> dag_get (gn_dag g') (ev_id e) = Some e"
    if "gn_gossip g = nd_gossip (nw_node w1 i)" "gn_dag g = nd_dag (nw_node w1 i)" for g
    using request_handled [of g m1 e now m2 ?lj] fresh(4) i(5) that w1(2) by simp
  from message_exchanged [where Q = "\<lambda>g d. dag_get d (ev_id e) = Some e", OF codec ij [symmetric] req _ payloads(2) _ _ this w2_def] w1(2,8) fits(2) i(1,2)
  have w2: "(network_step env deserialize)\<^sup>*\<^sup>* w1 w2" "nw_node w2 j = nw_node w1 j"
      "outgoing (nw_node w2 i) ?p = outgoing (nw_node w i) ?p @ [to_bytes (env_serialize env) ?resp]"
      "dag_get (nd_dag (nw_node w2 i)) (ev_id e) = Some e" "nw_known_as w2 = nw_known_as w" "nw_read w2 i j = nw_read w1 i j"
    by auto
  have resp: "unread w2 i j = [to_bytes (env_serialize env) ?resp]" using w1(9) w2 i(3) by (simp add: unread_def)
  have fits2: "fits (env_serialize env) (nw_node w2 j) ?resp" "open_to (nw_node w2 j) ?q"
    using fits(3) w1(3) w2(2) quiet by (simp_all add: fits_def same_links_def quiet_def)
  have "\<exists>g'. handle_message now m3 ?resp g = (None, g') \<and> gn_dag g' = dag_insert e (nd_dag (nw_node w j))"
    if "gn_gossip g = nd_gossip (nw_node w2 j)" "gn_dag g = nd_dag (nw_node w2 j)" for g
    using response_handled [of g m2 e now m3 ?li] e(1) w1(6,7) w2(2) that by auto
  from message_exchanged [where Q = "\<lambda>g d. d = dag_insert e (nd_dag (nw_node w j))", OF codec ij resp fits2(1) payloads(3) _ _ this w' [folded w1_def, folded w2_def]] fits2(2) w1(4) w2(2,5)
  have "(network_step env deserialize)\<^sup>*\<^sup>* w2 w'" "nw_node w' i = nw_node w2 i"
      "nd_dag (nw_node w' j) = dag_insert e (nd_dag (nw_node w j))"
    by auto
  with w1(1) w2(1,4) show ?thesis by (metis rtranclp_trans)
qed

section \<open>Properties\<close>

text \<open>Property C19: integrity of the network. When nodes start empty and exchange messages, however their steps
  interleave and whatever connections come and go, every event in the store of any of them was created by the block
  producer of one of them, names it as creator, and carries its signature.\<close>

theorem gossip_integrity:
  fixes w :: "('i, 'sk, 'r) network"
  assumes env: "env_ok env deserialize"
    and new: "\<forall>i. \<exists>num_cpus rng peer_id unix_secs config. node_new env num_cpus rng peer_id unix_secs config = Inr (nw_node w i)"
      "nw_created w = {}"
    and run: "(network_step env deserialize)\<^sup>*\<^sup>* w w'" and e: "dag_get (nd_dag (nw_node w' i)) k = Some e"
  shows "e \<in> nw_created w' \<and> (\<exists>j. nd_validator_id (nw_node w' j) = Some (ev_creator e)) \<and>
    check_signature (env_blst env) (ev_creator e) (ev_signature e) (ev_id e) = Inr ()"
proof -
  have "network_ok env w"
    using new by (auto simp: network_ok_def intro: node_new_within identity_new)
  then have "network_ok env w'" using gossiping.reachable_inv [OF run] env by blast
  with e show ?thesis by (auto simp: network_ok_def node_within_def dag_within_def authentic_def)
qed

definition example_decode :: "bytes \<Rightarrow> network_message option" where
  "example_decode bs = (if bs = [] then None else example_deserialize bs)"

lemma example_env_ok: "env_ok example_env example_decode"
proof -
  have encoded: "u64_to_le_bytes x \<noteq> []" for x
  proof
    assume "u64_to_le_bytes x = []"
    moreover have "length (u64_to_le_bytes x) = 8" by (simp add: codec_simps)
    ultimately show False by simp
  qed
  have "bs \<noteq> []" if "example_serialize m = Some bs" for m bs
    using that encoded by (auto simp: example_serialize_def split: message_type.splits if_splits)
  then show ?thesis
    using example_bincode example_blst_ok by (auto simp: env_ok_def example_env_def bincode_ok_def example_decode_def)
qed

theorem gossip_integrity_witness:
  "\<exists>(w :: (bool, unit, nat) network) w' e. (\<forall>i. nw_node w i = fresh_node) \<and> (network_step example_env example_decode)\<^sup>*\<^sup>* w w' \<and>
     dag_get (nd_dag (nw_node w' True)) (ev_id e) = Some e \<and> e \<in> nw_created w'"
proof -
  let ?w = "\<lparr>nw_node = \<lambda>_ :: bool. fresh_node, nw_known_as = \<lambda>_ _. [], nw_read = \<lambda>_ _. 0, nw_created = {}\<rparr>"
  obtain e m where e: "create_event example_env fresh_node = (Some e, m)"
    using fresh_node by (simp add: create_event_def clock_tick_def Let_def)
  let ?n = "publish_event example_env 0 (\<lambda>_. []) e m"
  have n: "producer_tick example_env 0 0 (\<lambda>_ _. []) fresh_node = Inr ?n"
    by (simp add: producer_tick_idle [OF idle_new [OF fresh_node(1)]] e)
  have dag: "dag_get (nd_dag ?n) (ev_id e) = Some e" by simp
  let ?w' = "(put_node True ?n ?w)\<lparr>nw_created := {e}\<rparr>"
  have "network_step example_env example_decode ?w ?w'"
    using network_step.tick [of example_env 0 0 "\<lambda>_ _. []" ?w True ?n example_decode] n e by simp
  then have run: "(network_step example_env example_decode)\<^sup>*\<^sup>* ?w ?w'" by blast
  have "e \<in> nw_created ?w'"
    using gossip_integrity [OF example_env_ok _ _ run, of True "ev_id e" e] fresh_node(1) dag by (auto simp: put_node_def)
  with run dag show ?thesis by (intro exI [of _ ?w] exI [of _ ?w'] exI [of _ e]) (simp add: put_node_def)
qed

text \<open>Property C18: how a published event gets to a peer. Take two nodes with quiet connections to each other, a
  validator that is about to create a well-formed event, which the first event on an empty store is not, the other
  node among the peers the validator chooses and without the event, fresh message identifiers, and messages within the
  size limits. Then one fixed run always works: the round of the block producer, and three times the transfer of the
  bytes sent and the handling of the next message, for the announcement, the request and the response. The run consists
  of steps of the network, and after it the event is in the validator's store and has been inserted into the other node's
  store, which is otherwise as before. Other runs, in which messages are not carried or handled, are not excluded.\<close>

theorem published_event_reaches_peer:
  fixes w :: "('i, 'sk, 'r) network" and mids :: "nat \<Rightarrow> bytes"
  assumes codec: "bincode_ok (env_serialize env) deserialize" and ij: "i \<noteq> j" and quiet: "quiet i j w" "quiet j i w"
    and i: "idle (nw_node w i)" "pm_inv (nd_peers (nw_node w i))" "create_event env (nw_node w i) = (Some e, n)"
      "nw_known_as w i j \<in> pi_id ` set (best_peers (gc_fanout (gp_config (nd_gossip (nw_node w i)))) (nd_peers (nw_node w i)))"
    and e: "validate_structure e = Inr ()" "\<not> dag_contains (nd_dag (nw_node w j)) (ev_id e)"
      "ev_id e \<notin> set (gp_processed_events (nd_gossip (nw_node w j)))"
    and fresh: "\<forall>k. \<not> is_seen (nd_gossip (nw_node w j)) (mids k) \<and> mids k \<noteq> m2" "\<not> is_seen (nd_gossip (nw_node w j)) m2"
      "\<not> is_seen (nd_gossip (nw_node w i)) m1"
    and fits: "\<forall>k. fits (env_serialize env) (nw_node w j) (announcement (mids k) (gp_local_id (nd_gossip (nw_node w i))) e)"
      "fits (env_serialize env) (nw_node w i) (fetch_request m1 (gp_local_id (nd_gossip (nw_node w j))) (ev_id e))"
      "fits (env_serialize env) (nw_node w j) (fetch_response m2 (gp_local_id (nd_gossip (nw_node w i))) e)"
  shows "\<exists>n'. producer_tick env now unix_secs (\<lambda>_. mids) (nw_node w i) = Inr n' \<and>
    (let w0 = (put_node i n' w)\<lparr>nw_created := nw_created w \<union> {e}\<rparr>;
         w' = pass_message env deserialize now m3 i j
           (pass_message env deserialize now m2 j i (pass_message env deserialize now m1 i j w0))
     in (network_step env deserialize)\<^sup>*\<^sup>* w w' \<and> nd_dag (nw_node w' j) = dag_insert e (nd_dag (nw_node w j)) \<and>
       dag_get (nd_dag (nw_node w' i)) (ev_id e) = Some e)"
proof -
  let ?p = "nw_known_as w i j" and ?n = "publish_event env now mids e n"
  have frame: "nd_gossip n = nd_gossip (nw_node w i)" "nd_peers n = nd_peers (nw_node w i)" "nd_transport n = nd_transport (nw_node w i)"
    using i(3) by (auto simp: create_event_def clock_tick_def Let_def split: option.splits)
  then have links: "open_to n ?p = open_to (nw_node w i) ?p" "outgoing n ?p = outgoing (nw_node w i) ?p"
    by (simp_all add: open_to_def outgoing_def)
  obtain k where k: "outgoing ?n ?p = outgoing (nw_node w i) ?p @
        [to_bytes (env_serialize env) (announcement (mids k) (gp_local_id (nd_gossip (nw_node w i))) e)]"
      "same_links n ?n" "tt_incoming (nd_transport ?n) = []" "gp_seen_messages (nd_gossip ?n) = gp_seen_messages (nd_gossip (nw_node w i))"
      "gp_local_id (nd_gossip ?n) = gp_local_id (nd_gossip (nw_node w i))"
    using publish_event_links [of n ?p ?n env now mids e] i(2,4) quiet(1) frame links by (auto simp: quiet_def)
  let ?w = "(put_node i ?n w)\<lparr>nw_created := nw_created w \<union> {e}\<rparr>"
  let ?w' = "pass_message env deserialize now m3 i j (pass_message env deserialize now m2 j i (pass_message env deserialize now m1 i j ?w))"
  have tick: "producer_tick env now unix_secs (\<lambda>_. mids) (nw_node w i) = Inr ?n"
    using i(3) by (simp add: producer_tick_idle [OF i(1)])
  with i(3) have "network_step env deserialize w ?w"
    using network_step.tick [of env now unix_secs "\<lambda>_. mids" w i ?n deserialize] by simp
  moreover have "(network_step env deserialize)\<^sup>*\<^sup>* ?w ?w' \<and> nd_dag (nw_node ?w' j) = dag_insert e (nd_dag (nw_node ?w j)) \<and>
      dag_get (nd_dag (nw_node ?w' i)) (ev_id e) = Some e"
  proof (rule announcement_answered [OF codec ij, where mid = "mids k" and li = "gp_local_id (nd_gossip (nw_node w i))" and ?m1.0 = m1 and ?m2.0 = m2])
    show "quiet j i ?w" using quiet(2) ij by (simp add: quiet_def put_node_def)
  qed (use k quiet ij e fresh fits links frame in \<open>auto simp: put_node_def unread_def quiet_def same_links_def is_seen_def fits_def\<close>)
  moreover have "nd_dag (nw_node ?w j) = nd_dag (nw_node w j)" using ij by (simp add: put_node_def)
  ultimately show ?thesis using tick by (auto simp: Let_def intro: converse_rtranclp_into_rtranclp)
qed

text \<open>A validator that knows one event, with a connection to a peer, and an encoding of the messages it takes.\<close>

definition example_side :: "dag_store \<Rightarrow> peer_id \<Rightarrow> (unit, nat) ryther_node" where
  "example_side dag p =
     (let n = fresh_node\<lparr>nd_dag := dag\<rparr> in set_net (snd (connect 0 p (SocketV4 [10, 0, 0, 1] 1) (Inr ()) (node_net n))) n)"

definition example_created :: dag_event where
  "example_created = the (fst (create_event example_env (example_side (dag_insert (example_event 1 1 0 []) dag_new) [2])))"

definition exchange_env :: "(unit, unit, unit, unit) node_env" where
  "exchange_env = example_env\<lparr>env_serialize := (\<lambda>m.
     if m = announcement [10] [1] example_created then Some [0]
     else if m = fetch_request [11] [1] (ev_id example_created) then Some [1]
     else if m = fetch_response [12] [1] example_created then Some [2] else None)\<rparr>"

definition exchange_decode :: "bytes \<Rightarrow> network_message option" where
  "exchange_decode bs =
     (if bs = [0] then Some (announcement [10] [1] example_created)
      else if bs = [1] then Some (fetch_request [11] [1] (ev_id example_created))
      else if bs = [2] then Some (fetch_response [12] [1] example_created) else None)"

lemma exchange_codec: "bincode_ok (env_serialize exchange_env) exchange_decode"
  by (simp add: bincode_ok_def exchange_env_def exchange_decode_def)

lemma fresh_links: "tt_connections (nd_transport fresh_node) = []" "tt_incoming (nd_transport fresh_node) = []"
    "tc_max_message_size (tt_config (nd_transport fresh_node)) = 16 * 1024 * 1024"
    "nd_peers fresh_node = pm_new [1] 50" "nd_gossip fresh_node = gossip_new [1] gossip_config_default"
  by (simp_all add: fresh_node_def node_new_def params_new_def load_validator_key_def example_config_def node_config_default_def
      network_config_default_def example_env_def secret_key_from_bytes_def example_blst_def transport_new_def transport_config_default_def)

lemma example_side_eq:
  assumes "p \<noteq> [1]"
  shows "example_side d p = fresh_node\<lparr>nd_dag := d,
      nd_transport := (nd_transport fresh_node)\<lparr>tt_connections := [(p, \<lparr>cn_peer_id = p, cn_sent = [], cn_open = True\<rparr>)]\<rparr>,
      nd_peers := (pm_new [1] 50)\<lparr>pm_peers :=
        [(p, peer_touch 0 ((peer_touch 0 ((peer_info_new 0 p (SocketV4 [10, 0, 0, 1] 1))\<lparr>pi_state := Connecting\<rparr>))\<lparr>pi_state := Connected\<rparr>))]\<rparr>\<rparr>"
  using assms fresh_links(1,4)
  by (simp add: example_side_def connect_def is_connected_def setup_connection_def add_peer_def set_state_def with_peer_def hm_modify_def
      set_net_def node_net_def pm_new_def Let_def)

lemma example_side:
  assumes "p \<noteq> [1]"
  shows "nd_dag (example_side d p) = d" "nd_gossip (example_side d p) = gossip_new [1] gossip_config_default" "idle (example_side d p)"
    "pm_inv (nd_peers (example_side d p))" "open_to (example_side d p) p" "outgoing (example_side d p) p = []"
    "tt_incoming (nd_transport (example_side d p)) = []" "p \<in> pi_id ` set (best_peers 8 (nd_peers (example_side d p)))"
    "tt_config (nd_transport (example_side d p)) = tt_config (nd_transport fresh_node)"
    "nd_validator_id (example_side d p) = nd_validator_id fresh_node" "nd_validator_key (example_side d p) = nd_validator_key fresh_node"
    "nd_clock (example_side d p) = clock_new"
  using assms fresh_links fresh_node(5) idle_new [OF fresh_node(1)]
  by (simp_all add: example_side_eq open_to_def outgoing_def idle_def best_peers_def pm_inv_def pm_new_def peer_touch_def peer_info_new_def)

theorem published_event_reaches_peer_witness:
  "\<exists>(w :: (bool, unit, nat) network) w'. nw_node w False = example_side dag_new [3] \<and>
     (network_step exchange_env exchange_decode)\<^sup>*\<^sup>* w w' \<and> nd_dag (nw_node w' False) = dag_insert example_created dag_new"
proof -
  let ?d = "dag_insert (example_event 1 1 0 []) dag_new"
  let ?i = "example_side ?d [2]" and ?j = "example_side dag_new [3]"
  let ?w = "\<lparr>nw_node = \<lambda>b. if b then ?i else ?j, nw_known_as = \<lambda>b _. if b then [2] else [3], nw_read = \<lambda>_ _. 0, nw_created = {}\<rparr>"
  have i: "nd_validator_id ?i = Some (replicate 48 8)" "nd_validator_key ?i = Some ()" "nd_clock ?i = clock_new" "nd_dag ?i = ?d"
    using fresh_node by (simp_all add: example_side)
  obtain n where n: "create_event example_env ?i = (Some example_created, n)"
    using i by (simp add: example_created_def create_event_def clock_tick_def Let_def)
  then have n': "create_event exchange_env ?i = (Some example_created, n)" using i by (simp add: create_event_def exchange_env_def Let_def)
  have "dag_inv ?d" "has_event ?d (example_event 1 1 0 [])" using dag_of_list [of "[example_event 1 1 0 []]"] by (simp_all add: ids_consistent_def)
  moreover have r: "dag_max_round ?d = 0" by (simp add: dag_max_round_def dag_insert_def dag_new_def Let_def)
  ultimately have "dag_events_at_round ?d 0 \<noteq> []" using events_at_round_set [of ?d 0] by auto
  then have "event_parents ?d v \<noteq> []" for v using r by (auto simp: event_parents_def Let_def split: option.splits)
  then have ok: "validate_structure example_created = Inr ()"
    using created_event_structure [OF n] i r by (simp add: clock_new_def)
  have fits: "fits (env_serialize exchange_env) (example_side d p) m"
    if "p \<noteq> [1]" "m \<in> {announcement [10] [1] example_created, fetch_request [11] [1] (ev_id example_created), fetch_response [12] [1] example_created}"
    for d p m
    using that fresh_links(3) by (auto simp: fits_def example_side exchange_env_def to_bytes_def)
  have "\<exists>n'. producer_tick exchange_env 0 0 (\<lambda>_ _. [10]) (nw_node ?w True) = Inr n' \<and>
    (let w0 = (put_node True n' ?w)\<lparr>nw_created := nw_created ?w \<union> {example_created}\<rparr>;
         w' = pass_message exchange_env exchange_decode 0 [] True False
           (pass_message exchange_env exchange_decode 0 [12] False True (pass_message exchange_env exchange_decode 0 [11] True False w0))
     in (network_step exchange_env exchange_decode)\<^sup>*\<^sup>* ?w w' \<and>
       nd_dag (nw_node w' False) = dag_insert example_created (nd_dag (nw_node ?w False)) \<and>
       dag_get (nd_dag (nw_node w' True)) (ev_id example_created) = Some example_created)"
    using n' ok fits
    by (intro published_event_reaches_peer [OF exchange_codec, where mids = "\<lambda>_. [10]" and ?m1.0 = "[11]" and ?m2.0 = "[12]" and n = n])
      (simp_all add: quiet_def example_side gossip_new_def gossip_config_default_def is_seen_def dag_contains_def dag_new_def)
  then obtain w' where "(network_step exchange_env exchange_decode)\<^sup>*\<^sup>* ?w w'" "nd_dag (nw_node w' False) = dag_insert example_created dag_new"
    by (auto simp: example_side Let_def)
  then show ?thesis by (intro exI [of _ ?w] exI [of _ w']) simp
qed

end
