(* ===== verification/Tests_Types.thy ===== *)
theory Tests_Types
  imports Lamport_Clock Validator_Set Version_Chain Dag_Events Blocks
begin

text \<open>
  The unit tests of the crate's value types (\<^verbatim>\<open>src/types\<close>), replayed on the model: each test is the conjunction of
  its assertions, in the order of its statements, and passes. Where a test hashes, it passes for every hash function.
  Left out are two tests that compute a hash twice and compare, \<open>test_log_filter\<close>, which only builds a record, and
  \<open>test_validator_id_serde\<close> and \<open>test_block_serialization\<close>, which run the serialization \<open>serde\<close> derives.
\<close>

section \<open>\<open>types/mod.rs\<close>\<close>

definition test_u256_roundtrip :: bool where
  "test_u256_roundtrip =
     (let original = U256 0xDEADBEEF 0xCAFEBABE 0x12345678 0xABCDEF00;
          bs = u256_to_be_bytes original;
          recovered = u256_from_be_bytes bs
      in original = recovered)"

definition test_state_key_bytes :: bool where
  "test_state_key_bytes =
     (let key = \<lparr>sk_address = replicate 20 0x42, sk_slot = u256_from_u64 100\<rparr>;
          bs = state_key_to_bytes key
      in length bs = 52 \<and> take 20 bs = replicate 20 0x42)"

lemma types_tests_pass: "test_u256_roundtrip" "test_state_key_bytes"
  by (simp_all only: test_u256_roundtrip_def test_state_key_bytes_def Let_def u256_be.dec_enc state_key_to_bytes_def)
    (simp add: u256_be.enc_length)

section \<open>\<open>types/lamport.rs\<close>\<close>

definition test_tick_increments :: bool where
  "test_tick_increments =
     (let c0 = clock_new; (t1, c1) = clock_tick c0; (t2, c2) = clock_tick c1; (t3, c3) = clock_tick c2
      in clock_current c0 = 0 \<and> t1 = 1 \<and> t2 = 2 \<and> t3 = 3 \<and> clock_current c3 = 3)"

definition test_witness_advances_past_received :: bool where
  "test_witness_advances_past_received =
     (let (t1, c1) = clock_witness 100 clock_new; (t2, c2) = clock_witness 50 c1
      in t1 = 101 \<and> clock_current c1 = 101 \<and> t2 = 102)"

definition test_witness_many :: bool where
  "test_witness_many = (fst (clock_witness_many [10, 50, 30, 25] clock_new) = 51)"

fun ticks_above :: "nat \<Rightarrow> u64 \<Rightarrow> lamport_clock \<Rightarrow> bool" where
  "ticks_above 0 prev c \<longleftrightarrow> True"
| "ticks_above (Suc n) prev c \<longleftrightarrow> (let (current, c') = clock_tick c in prev < current \<and> ticks_above n current c')"

definition test_monotonicity_invariant :: bool where
  "test_monotonicity_invariant = ticks_above 100 0 clock_new"

text \<open>Ten threads with 100 ticks each: the atomic increments come in some order, the list of the threads they belong to.\<close>

definition test_concurrent_ticks :: "nat list \<Rightarrow> bool" where
  "test_concurrent_ticks schedule = (clock_current (fold (\<lambda>i c. snd (clock_tick c)) schedule clock_new) = 1000)"

definition test_causal_ordering_property :: bool where
  "test_causal_ordering_property =
     (let (timestamp_a, clock_a) = clock_tick clock_new;
          (timestamp_b, clock_b) = clock_witness timestamp_a clock_new;
          (timestamp_b_event, clock_b') = clock_tick clock_b
      in timestamp_a < timestamp_b_event \<and> timestamp_a < timestamp_b)"

lemma lamport_tests_pass:
  "test_tick_increments" "test_witness_advances_past_received" "test_witness_many" "test_causal_ordering_property"
  by code_simp+

lemma test_monotonicity_invariant_passes: "test_monotonicity_invariant"
  by code_simp

lemma clock_after_ticks: "clk_value (fold (\<lambda>i c. snd (clock_tick c)) schedule c) = clk_value c + word_of_nat (length schedule)"
  by (induction schedule arbitrary: c) (simp_all add: clock_tick_def)

lemma test_concurrent_ticks_passes:
  assumes "set schedule \<subseteq> {..<10}" and "\<And>i. i < 10 \<Longrightarrow> count_list schedule i = 100"
  shows "test_concurrent_ticks schedule"
proof -
  have "length schedule = (\<Sum>i \<in> {..<10}. count_list schedule i)"
    using sum_count_set [OF assms(1)] by simp
  then have "length schedule = 1000" using assms(2) by simp
  then show ?thesis by (simp add: test_concurrent_ticks_def clock_current_def clock_after_ticks clock_new_def)
qed

text \<open>The tests of the file together.\<close>

definition lamport_tests :: "nat list \<Rightarrow> bool" where
  "lamport_tests schedule \<longleftrightarrow>
     test_tick_increments \<and> test_witness_advances_past_received \<and> test_witness_many \<and>
     test_monotonicity_invariant \<and> test_concurrent_ticks schedule \<and> test_causal_ordering_property"

lemma all_lamport_tests_pass:
  assumes "set schedule \<subseteq> {..<10}"
    and "\<And>i. i < 10 \<Longrightarrow> count_list schedule i = 100"
  shows "lamport_tests schedule"
  using assms by (simp add: lamport_tests_def lamport_tests_pass test_monotonicity_invariant_passes test_concurrent_ticks_passes)

section \<open>\<open>types/validator.rs\<close>\<close>

definition make_validator :: "u8 \<Rightarrow> validator_id" where
  "make_validator i = (replicate 48 0)[0 := i]"

definition make_address :: "u8 \<Rightarrow> address" where
  "make_address i = (replicate 20 0)[0 := i]"

definition test_quorum_threshold :: bool where
  "test_quorum_threshold =
     (let vs = vs_from_validators [(make_validator 1, 50, make_address 1), (make_validator 2, 50, make_address 2)]
      in vs_total_stake vs = 100 \<and> vs_quorum_threshold vs = 67 \<and> vs_fault_threshold vs = 33)"

definition three_validators :: validator_set where
  "three_validators = vs_from_validators
     [(make_validator 1, 34, make_address 1), (make_validator 2, 33, make_address 2), (make_validator 3, 33, make_address 3)]"

definition test_has_quorum :: bool where
  "test_has_quorum =
     (let v1 = make_validator 1; v2 = make_validator 2; v3 = make_validator 3; vs = three_validators
      in \<not> vs_has_quorum vs [v1] \<and> vs_has_quorum vs [v1, v2] \<and> \<not> vs_has_quorum vs [v2, v3] \<and>
         vs_has_quorum vs [v1, v2, v3])"

definition test_quorum_tracker :: bool where
  "test_quorum_tracker =
     (let q0 = qt_new (replicate 32 0xAB) three_validators;
          (r1, q1) = qt_add_support (make_validator 1) q0;
          (r2, q2) = qt_add_support (make_validator 2) q1
      in \<not> r1 \<and> \<not> qt_has_quorum q1 \<and> qt_current_stake q1 = 34 \<and>
         r2 \<and> qt_has_quorum q2 \<and> qt_current_stake q2 = 67)"

definition test_add_remove_validator :: bool where
  "test_add_remove_validator =
     (let v1 = make_validator 1; addr1 = make_address 1; s1 = vs_add v1 100 addr1 vs_new; s2 = snd (vs_remove v1 s1)
      in vs_total_stake s1 = 100 \<and> vs_contains s1 v1 \<and> vs_get_address s1 v1 = Some addr1 \<and>
         vs_total_stake s2 = 0 \<and> \<not> vs_contains s2 v1)"

definition test_stake_update :: bool where
  "test_stake_update =
     (let v1 = make_validator 1; addr1 = make_address 1; s1 = vs_add v1 100 addr1 vs_new; s2 = vs_add v1 150 addr1 s1
      in vs_total_stake s1 = 100 \<and> vs_total_stake s2 = 150 \<and> vs_stake s2 v1 = Some 150)"

lemma validator_tests_pass:
  "test_quorum_threshold" "test_has_quorum" "test_quorum_tracker" "test_add_remove_validator" "test_stake_update"
  by code_simp+

text \<open>The tests of the file together.\<close>

definition validator_tests :: bool where
  "validator_tests \<longleftrightarrow>
     test_quorum_threshold \<and> test_has_quorum \<and> test_quorum_tracker \<and> test_add_remove_validator \<and>
     test_stake_update"

lemma all_validator_tests_pass: "validator_tests"
  by (simp add: validator_tests_def validator_tests_pass)

section \<open>\<open>types/state.rs\<close>\<close>

definition make_key :: "u8 \<Rightarrow> u64 \<Rightarrow> state_key" where
  "make_key addr slot = \<lparr>sk_address = replicate 20 addr, sk_slot = u256_from_u64 slot\<rparr>"

definition version_of :: "u64 \<Rightarrow> u64 \<Rightarrow> tx_status \<Rightarrow> state_version" where
  "version_of s v st = \<lparr>sv_tx_sequence = s, sv_value = Some (u256_from_u64 v), sv_status = st\<rparr>"

definition test_version_chain_ordering :: bool where
  "test_version_chain_ordering =
     (let chain = add_version (version_of 3 300 Committed) (add_version (version_of 10 1000 Pending)
            (add_version (version_of 5 500 Committed) chain_new))
      in sv_tx_sequence (chain ! 0) = 10 \<and> sv_tx_sequence (chain ! 1) = 5 \<and> sv_tx_sequence (chain ! 2) = 3)"

definition test_read_for_transaction :: bool where
  "test_read_for_transaction =
     (let chain = add_version (version_of 10 1000 Committed) (add_version (version_of 5 500 Committed) chain_new)
      in read_for chain 7 = Some (Some (u256_from_u64 500), 5) \<and>
         read_for chain 15 = Some (Some (u256_from_u64 1000), 10) \<and> read_for chain 3 = None)"

definition test_skip_aborted_versions :: bool where
  "test_skip_aborted_versions =
     (let chain = add_version (version_of 8 800 Aborted) (add_version (version_of 5 500 Committed) chain_new)
      in read_for chain 10 = Some (Some (u256_from_u64 500), 5))"

definition test_mark_status :: bool where
  "test_mark_status =
     (let chain = add_version (version_of 5 500 Pending) chain_new;
          chain1 = chain_mark_committed 5 chain; chain2 = chain_mark_aborted 5 chain1
      in sv_status (chain1 ! 0) = Committed \<and> sv_status (chain2 ! 0) = Aborted)"

lemma state_tests_pass:
  "test_version_chain_ordering" "test_read_for_transaction" "test_skip_aborted_versions" "test_mark_status"
  by code_simp+

text \<open>The tests of the file together.\<close>

definition state_tests :: bool where
  "state_tests \<longleftrightarrow>
     test_version_chain_ordering \<and> test_read_for_transaction \<and> test_skip_aborted_versions \<and> test_mark_status"

lemma all_state_tests_pass: "state_tests"
  by (simp add: state_tests_def state_tests_pass)

section \<open>\<open>types/transaction.rs\<close>\<close>

definition capsule_default :: threshold_capsule where
  "capsule_default = \<lparr>ephemeral_pubkey = [], encrypted_shares = []\<rparr>"

definition test_empty_batch :: bool where
  "test_empty_batch \<longleftrightarrow> batch_is_empty batch_empty \<and> eb_batch_root batch_empty = replicate 32 0"

definition test_merkle_root_single :: "hash_fn \<Rightarrow> bool" where
  "test_merkle_root_single sha =
     (let tx = \<lparr>et_ciphertext = [1, 2, 3], et_capsule = capsule_default, et_commitment = replicate 32 0xAB\<rparr>;
          batch = batch_from_transactions sha [tx]
      in eb_batch_root batch = et_commitment tx)"

definition test_ordered_batch_sequence_assignment :: bool where
  "test_ordered_batch_sequence_assignment =
     (let txs = map (\<lambda>i. \<lparr>dt_from = replicate 20 (word_of_nat i), dt_to = Some (replicate 20 0xFF), dt_value = U256_ZERO,
            dt_gas_limit = 21000, dt_gas_price = u256_from_u64 1000000000, dt_nonce = word_of_nat i, dt_data = [],
            dt_source_commitment = replicate 32 0, dt_sequence_number = 0\<rparr>) [0..<3];
          batch = ordered_batch_new txs 100 5
      in dt_sequence_number (ob_transactions batch ! 0) = 100 \<and> dt_sequence_number (ob_transactions batch ! 1) = 101 \<and>
         dt_sequence_number (ob_transactions batch ! 2) = 102 \<and> ob_end_sequence batch = 103)"

lemma transaction_tests_pass: "test_empty_batch" "test_ordered_batch_sequence_assignment"
  by code_simp+

lemma test_merkle_root_single_passes: "test_merkle_root_single sha"
  by (simp add: test_merkle_root_single_def batch_from_transactions_def compute_merkle_root_def)

section \<open>\<open>types/event.rs\<close>\<close>

definition dummy_validator :: validator_id where
  "dummy_validator = replicate 48 0x42"

definition test_genesis_validation :: bool where
  "test_genesis_validation =
     (let genesis = \<lparr>ev_id = replicate 32 0, ev_creator = dummy_validator, ev_lamport_time = 0, ev_round = 0,
            ev_strong_parents = [], ev_weak_parents = [], ev_payload = batch_empty, ev_signature = bls_signature_default\<rparr>
      in is_genesis genesis \<and> validate_structure genesis = Inr ())"

definition test_non_genesis_needs_parents :: bool where
  "test_non_genesis_needs_parents =
     (let event = \<lparr>ev_id = replicate 32 0, ev_creator = dummy_validator, ev_lamport_time = 1, ev_round = 1,
            ev_strong_parents = [], ev_weak_parents = [], ev_payload = batch_empty, ev_signature = bls_signature_default\<rparr>
      in \<not> is_genesis event \<and> validate_structure event = Inl NoParents)"

definition test_parent_order_independence :: "hash_fn \<Rightarrow> bool" where
  "test_parent_order_independence sha =
     (let creator = dummy_validator; payload_hash = replicate 32 0xAB;
          parents1 = [replicate 32 1, replicate 32 2]; parents2 = [replicate 32 2, replicate 32 1]
      in compute_id sha creator 5 payload_hash parents1 = compute_id sha creator 5 payload_hash parents2)"

lemma event_tests_pass: "test_genesis_validation" "test_non_genesis_needs_parents"
  by code_simp+

lemma test_parent_order_independence_passes: "test_parent_order_independence sha"
  by (simp add: test_parent_order_independence_def compute_id_def event_id_preimage_def Let_def) (meson linear)

section \<open>\<open>types/block.rs\<close>\<close>

definition test_genesis_block :: bool where
  "test_genesis_block =
     (let genesis = block_genesis 1
      in blk_number genesis = 0 \<and> blk_gas_limit genesis = 30000000 \<and> blk_extra_data genesis \<noteq> [])"

definition test_block_creation :: "hash_fn \<Rightarrow> bool" where
  "test_block_creation sha =
     (let block = block_from_round sha 1 (replicate 32 0) (replicate 32 1) [replicate 32 2] [replicate 32 3] address_zero
            21000 1234567890
      in blk_number block = 1 \<and> length (blk_transactions block) = 1 \<and> length (blk_dag_events block) = 1 \<and>
         blk_gas_used block = 21000)"

lemma test_genesis_block_passes: "test_genesis_block"
  by (simp add: test_genesis_block_def block_genesis_def as_bytes_def)

lemma test_block_creation_passes: "test_block_creation sha"
  by (simp add: test_block_creation_def block_from_round_def Let_def)

end
