(* ===== verification/Tests_Consensus.thy ===== *)
theory Tests_Consensus
  imports Tests_Types Commit_Detector
begin

text \<open>
  The unit tests of the DAG store and the consensus (\<^verbatim>\<open>src/dag\<close>, \<^verbatim>\<open>src/consensus\<close>) on the model. The identifiers of
  the events are hashes; a test that depends on it passes for every hash function without a collision among them. The
  two tests that count the leaders of many rounds depend on the values of SHA-256 and are left out, and so is the one that
  elects the same leader twice.
\<close>

section \<open>\<open>dag/store.rs\<close>\<close>

definition make_event :: "hash_fn \<Rightarrow> u8 \<Rightarrow> u64 \<Rightarrow> event_id list \<Rightarrow> dag_event" where
  "make_event sha creator round parents =
     \<lparr>ev_id = sha [creator, ucast round], ev_creator = make_validator creator, ev_lamport_time = round, ev_round = round,
      ev_strong_parents = parents, ev_weak_parents = [], ev_payload = batch_empty, ev_signature = bls_signature_default\<rparr>"

lemma make_event_simps:
  "ev_id (make_event sha c r ps) = sha [c, ucast r]" "ev_creator (make_event sha c r ps) = make_validator c"
  "ev_round (make_event sha c r ps) = r" "ev_strong_parents (make_event sha c r ps) = ps"
  by (simp_all add: make_event_def)

definition test_insert_and_get :: "hash_fn \<Rightarrow> bool" where
  "test_insert_and_get sha =
     (let event = make_event sha 1 1 []; i = ev_id event; store = dag_insert event dag_new
      in dag_contains store i \<and> (case dag_get store i of Some retrieved \<Rightarrow> ev_round retrieved = 1 | None \<Rightarrow> False))"

definition test_round_indexing :: "hash_fn \<Rightarrow> bool" where
  "test_round_indexing sha =
     (let store = dag_insert (make_event sha 3 2 []) (dag_insert (make_event sha 2 1 []) (dag_insert (make_event sha 1 1 []) dag_new))
      in length (dag_events_at_round store 1) = 2 \<and> length (dag_events_at_round store 2) = 1)"

definition test_can_reach :: "hash_fn \<Rightarrow> bool" where
  "test_can_reach sha =
     (let e1 = make_event sha 1 1 []; s1 = dag_insert e1 dag_new;
          e2 = make_event sha 1 2 [ev_id e1]; s2 = dag_insert e2 s1;
          e3 = make_event sha 1 3 [ev_id e2]; s3 = dag_insert e3 s2
      in dag_can_reach s3 (ev_id e3) (ev_id e1) \<and> \<not> dag_can_reach s3 (ev_id e1) (ev_id e3))"

lemma test_insert_and_get_passes: "test_insert_and_get sha"
  by (simp add: test_insert_and_get_def Let_def dag_contains_iff make_event_def)

lemma test_round_indexing_passes: "test_round_indexing sha"
  by (simp add: test_round_indexing_def Let_def dag_events_at_round_def dag_insert_def dag_new_def make_event_def
      List.map_filter_simps)

lemma test_can_reach_passes:
  assumes "distinct [sha [1, 1], sha [1, 2], sha [1, 3]]"
  shows "test_can_reach sha"
  using assms by (auto simp: test_can_reach_def Let_def dag_can_reach_def dag_insert_def dag_new_def make_event_def)

text \<open>The tests of the file together.\<close>

definition dag_store_tests :: "hash_fn \<Rightarrow> bool" where
  "dag_store_tests sha \<longleftrightarrow>
     test_insert_and_get sha \<and> test_round_indexing sha \<and> test_can_reach sha"

lemma all_dag_store_tests_pass:
  assumes "distinct [sha [1, 1], sha [1, 2], sha [1, 3]]"
  shows "dag_store_tests sha"
  using assms by (simp add: dag_store_tests_def test_insert_and_get_passes test_round_indexing_passes test_can_reach_passes)

section \<open>\<open>consensus/leader.rs\<close>\<close>

definition test_empty_set :: "hash_fn \<Rightarrow> bool" where
  "test_empty_set sha = (elect_leader sha vs_new 0 (replicate 32 0) = Inr None)"

lemma test_empty_set_passes: "test_empty_set sha"
  by (simp add: test_empty_set_def elect_leader_def vs_is_empty_def vs_new_def)

section \<open>\<open>consensus/commit.rs\<close>\<close>

definition equal_validators :: validator_set where
  "equal_validators = vs_from_validators
     [(make_validator 1, 100, replicate 20 0), (make_validator 2, 100, replicate 20 0), (make_validator 3, 100, replicate 20 0)]"

definition two_rounds :: "hash_fn \<Rightarrow> dag_store" where
  "two_rounds sha =
     (let e1_r1 = make_event sha 1 1 []; e2_r1 = make_event sha 2 1 []; e3_r1 = make_event sha 3 1 [];
          ids = [ev_id e1_r1, ev_id e2_r1, ev_id e3_r1]
      in fold dag_insert [e1_r1, e2_r1, e3_r1, make_event sha 1 2 ids, make_event sha 2 2 ids, make_event sha 3 2 ids] dag_new)"

definition test_commit_with_quorum :: "hash_fn \<Rightarrow> bool" where
  "test_commit_with_quorum sha =
     (case check_commit sha (cd_new equal_validators (replicate 32 0)) (two_rounds sha) 1 of
        Inl p \<Rightarrow> False
      | Inr None \<Rightarrow> True
      | Inr (Some result) \<Rightarrow> cr_round result = 1 \<and> cr_support_round result = 2)"

text \<open>Without collisions the test does not pass vacuously: whoever is elected, the round is committed.\<close>

definition test_events :: "hash_fn \<Rightarrow> bytes list" where
  "test_events sha = [sha [1, 1], sha [2, 1], sha [3, 1], sha [1, 2], sha [2, 2], sha [3, 2]]"

lemma make_validator_inject [simp]: "make_validator a = make_validator b \<longleftrightarrow> a = b"
  by (auto simp: make_validator_def dest: arg_cong [where f = "\<lambda>l. l ! 0"])

lemma equal_validators_facts:
  "vs_is_empty equal_validators = False" "vs_total_stake equal_validators = 300"
  "sort_key fst (vs_iter equal_validators) = map (\<lambda>i. (make_validator i, 100)) [1, 2, 3]"
  "vs_has_quorum equal_validators (map make_validator [3, 2, 1])"
  by code_simp+

lemma equal_validators_leader:
  "\<exists>i \<in> {1, 2, 3}. elect_leader sha equal_validators round seed = Inr (Some (make_validator i))"
proof -
  define target where "target = u64_from_le_bytes (take 8 (sha (leader_input round seed))) mod 300"
  have "target < 300" unfolding target_def by (rule word_mod_less_divisor) simp
  moreover have "elect_leader sha equal_validators round seed =
      Inr (pick_leader (map (\<lambda>i. (make_validator i, 100)) [1, 2, 3]) 0 target)"
    by (simp only: elect_leader_def equal_validators_facts Let_def target_def) simp
  ultimately show ?thesis by (cases "target < 100"; cases "target < 200") (auto simp: Let_def)
qed

lemma two_rounds_get:
  assumes "distinct (test_events sha)" "i \<in> {1, 2, 3}"
  shows "dag_get (two_rounds sha) (sha [i, 1]) = Some (make_event sha i 1 [])"
    "dag_get (two_rounds sha) (sha [i, 2]) = Some (make_event sha i 2 [sha [1, 1], sha [2, 1], sha [3, 1]])"
  using assms by (auto simp: two_rounds_def test_events_def Let_def make_event_simps)

lemma two_rounds_indices:
  "hm_get (ds_by_round (two_rounds sha)) 2 = Some [sha [1, 2], sha [2, 2], sha [3, 2]]"
  "dag_max_round (two_rounds sha) = 2"
  "i \<in> {1, 2, 3} \<Longrightarrow> hm_get (ds_by_creator_round (two_rounds sha)) (make_validator i, 1) = Some (sha [i, 1])"
  by (auto simp: two_rounds_def Let_def make_event_simps insert_indices dag_max_round_def dag_new_def)

lemma two_rounds_events:
  assumes "distinct (test_events sha)" "i \<in> {1, 2, 3}"
  shows "dag_event_at (two_rounds sha) (make_validator i) 1 = Some (make_event sha i 1 [])"
  using assms by (simp add: dag_event_at_def two_rounds_indices two_rounds_get flip: dag_get_def)

lemma two_rounds_round_2:
  assumes "distinct (test_events sha)"
  shows "dag_events_at_round (two_rounds sha) 2 = map (\<lambda>i. make_event sha i 2 [sha [1, 1], sha [2, 1], sha [3, 1]]) [1, 2, 3]"
  using assms by (simp add: dag_events_at_round_def two_rounds_indices two_rounds_get List.map_filter_simps flip: dag_get_def)

lemma two_rounds_reach:
  assumes "distinct (test_events sha)" "i \<in> {1, 2, 3}" "j \<in> {1, 2, 3}"
  shows "dag_can_reach (two_rounds sha) (sha [j, 2]) (sha [i, 1])"
proof -
  have "(sha [j, 2], sha [i, 1]) \<in> parent_rel (ds_events (two_rounds sha))"
    using assms two_rounds_get(2) [OF assms(1, 3)] by (auto simp: parent_rel_def make_event_simps simp flip: dag_get_def)
  then show ?thesis by (simp add: dag_can_reach_iff r_into_rtrancl)
qed

lemma round_1_commits:
  assumes "distinct (test_events sha)"
  shows "\<exists>i. check_commit sha (cd_new equal_validators (replicate 32 0)) (two_rounds sha) 1 =
     Inr (Some \<lparr>cr_round = 1, cr_anchor_id = sha [i, 1], cr_leader = make_validator i, cr_support_round = 2\<rparr>)"
proof -
  obtain i where i: "i \<in> {1, 2, 3}"
    and l: "elect_leader sha equal_validators 1 (replicate 32 0) = Inr (Some (make_validator i))"
    using equal_validators_leader by blast
  have s: "supporters (two_rounds sha) (sha [i, 1]) 2 = map make_validator [3, 2, 1]"
    using two_rounds_reach [OF assms i, of 1] two_rounds_reach [OF assms i, of 2] two_rounds_reach [OF assms i, of 3]
    by (simp add: supporters_def two_rounds_round_2 [OF assms]) (simp add: make_event_def)
  have "u64_range_incl 2 2 = [2]" by code_simp
  then show ?thesis
    using l s equal_validators_facts(4)
    by (intro exI [of _ i])
      (simp add: check_commit_def cd_new_def two_rounds_events [OF assms i] two_rounds_indices check_quorum_support_def make_event_def)
qed

lemma test_commit_with_quorum_passes:
  assumes "distinct (test_events sha)"
  shows "test_commit_with_quorum sha"
  using round_1_commits [OF assms] by (auto simp: test_commit_with_quorum_def)

end
