(* ===== verification/Tests_Execution.thy ===== *)
theory Tests_Execution
  imports Tests_Types Parallel_Executor
begin

text \<open>
  The unit tests of the execution engine (\<^verbatim>\<open>src/execution\<close>, \<^verbatim>\<open>src/evm\<close>) on the model. Keccak-256 and SHA-256 are
  arguments; the tests pass for all functions, except where the statement says what is needed.
\<close>

section \<open>\<open>execution/mvcc.rs\<close>\<close>

definition test_read_write_basic :: bool where
  "test_read_write_basic =
     (let key = make_key 1 100; s = mvs_write key 5 (Some (u256_from_u64 500)) mvs_new
      in mvs_read s key 10 = (Some (u256_from_u64 500), 5) \<and> mvs_read s key 3 = (None, 0))"

definition test_base_state_fallback :: bool where
  "test_base_state_fallback =
     (let s = mvs_with_base_state [(make_key 1 100, u256_from_u64 1000)]; key = make_key 1 100
      in mvs_read s key 5 = (Some (u256_from_u64 1000), 0))"

definition test_mvcc_overrides_base :: bool where
  "test_mvcc_overrides_base =
     (let key = make_key 1 100;
          s = mvs_write key 5 (Some (u256_from_u64 2000)) (mvs_with_base_state [(make_key 1 100, u256_from_u64 1000)])
      in mvs_read s key 10 = (Some (u256_from_u64 2000), 5) \<and> mvs_read s key 3 = (Some (u256_from_u64 1000), 0))"

definition test_aborted_skipped :: bool where
  "test_aborted_skipped =
     (let key = make_key 1 100;
          s1 = mvs_mark_committed key 5 (mvs_write key 5 (Some (u256_from_u64 500)) mvs_new);
          s2 = mvs_mark_aborted key 8 (mvs_write key 8 (Some (u256_from_u64 800)) s1)
      in mvs_read s2 key 10 = (Some (u256_from_u64 500), 5))"

definition test_finalize :: "hash_fn \<Rightarrow> bool" where
  "test_finalize sha =
     (let key = make_key 1 100; s = mvs_mark_committed key 5 (mvs_write key 5 (Some (u256_from_u64 500)) mvs_new)
      in case finalize sha s of
           Inl p \<Rightarrow> False
         | Inr s' \<Rightarrow> mvcc_key_count s' = 0 \<and> get_base s' key = Some (u256_from_u64 500))"

text \<open>Ten threads write 100 keys each; the writes come in some order, the list of thread and key index.\<close>

definition test_concurrent_writes :: "(u8 \<times> u64) list \<Rightarrow> bool" where
  "test_concurrent_writes schedule =
     (mvcc_key_count
        (fold (\<lambda>(t, i). mvs_write (make_key t i) (ucast t) (Some (u256_from_u64 (ucast t * 1000 + i)))) schedule mvs_new) = 1000)"

lemma mvcc_tests_pass:
  "test_read_write_basic" "test_base_state_fallback" "test_mvcc_overrides_base" "test_aborted_skipped"
  by code_simp+

lemma test_finalize_passes:
  assumes "\<forall>x. length (sha x) = 32"
  shows "test_finalize sha"
proof -
  let ?s = "mvs_mark_committed (make_key 1 100) 5 (mvs_write (make_key 1 100) 5 (Some (u256_from_u64 500)) mvs_new)"
  have "mvs_inv ?s" by (simp add: mvs_inv_mark mvs_inv_write)
  moreover have "mv_jmt ?s = jmt_new" by (simp add: mvs_mark_committed_def mvs_write_def mvs_new_def Let_def split: option.split)
  moreover have "fst (mvs_read ?s (make_key 1 100) u64_MAX) = Some (u256_from_u64 500)" by code_simp
  ultimately show ?thesis
    using finalize_outcome [OF _ assms, of ?s] by (auto simp: test_finalize_def Let_def mvcc_key_count_def)
qed

lemma make_key_inject: "make_key a i = make_key b j \<longleftrightarrow> a = b \<and> i = j"
  by (auto simp: make_key_def u256_from_u64_def)

lemma keys_after_writes:
  "mvs_inv s \<Longrightarrow> mvs_inv (fold (\<lambda>(t, i). mvs_write (make_key t i) (q t i) (v t i)) schedule s) \<and>
     fst ` set (mv_data (fold (\<lambda>(t, i). mvs_write (make_key t i) (q t i) (v t i)) schedule s)) =
       fst ` set (mv_data s) \<union> (\<lambda>(t, i). make_key t i) ` set schedule"
proof (induction schedule arbitrary: s)
  case (Cons p schedule)
  obtain t i where p: "p = (t, i)" by (cases p)
  have "fst ` set (mv_data (mvs_write (make_key t i) (q t i) (v t i) s)) = insert (make_key t i) (fst ` set (mv_data s))"
    by (simp add: mvs_write_def Let_def dom_update)
  with Cons.IH [OF mvs_inv_write [OF Cons.prems]] show ?case by (auto simp: p)
qed simp

lemma card_small_words: "n \<le> 2 ^ LENGTH('a) \<Longrightarrow> card (word_of_nat ` {..<n} :: 'a::len word set) = n"
  by (subst card_image) (auto intro!: inj_onI simp: word_of_nat_eq_iff take_bit_nat_eq_self)

text \<open>The schedule is any order of the 1000 writes.\<close>

lemma test_concurrent_writes_passes:
  assumes "set schedule = word_of_nat ` {..<10} \<times> word_of_nat ` {..<100}"
  shows "test_concurrent_writes schedule"
proof -
  define s where "s = fold (\<lambda>(t, i). mvs_write (make_key t i) (ucast t) (Some (u256_from_u64 (ucast t * 1000 + i)))) schedule mvs_new"
  have s: "mvs_inv s" "fst ` set (mv_data s) = (\<lambda>(t, i). make_key t i) ` set schedule"
    using keys_after_writes [of mvs_new "\<lambda>t i. ucast t" "\<lambda>t i. Some (u256_from_u64 (ucast t * 1000 + i))" schedule]
    by (simp_all add: s_def) (simp add: mvs_new_def)
  have "length (mv_data s) = card (fst ` set (mv_data s))"
    using s(1) by (simp add: mvs_inv_def distinct_card flip: set_map)
  also have "\<dots> = card (set schedule)" unfolding s(2) by (rule card_image) (auto intro!: inj_onI simp: make_key_inject)
  also have "\<dots> = 1000" by (simp add: assms card_cartesian_product card_small_words)
  finally show ?thesis by (simp add: test_concurrent_writes_def mvcc_key_count_def s_def)
qed

text \<open>The tests of the file together.\<close>

definition mvcc_tests :: "hash_fn \<Rightarrow> (u8 \<times> u64) list \<Rightarrow> bool" where
  "mvcc_tests sha schedule \<longleftrightarrow>
     test_read_write_basic \<and> test_base_state_fallback \<and> test_mvcc_overrides_base \<and> test_aborted_skipped \<and>
     test_finalize sha \<and> test_concurrent_writes schedule"

lemma all_mvcc_tests_pass:
  assumes "\<forall>x. length (sha x) = 32"
    and "set schedule = word_of_nat ` {..<10} \<times> word_of_nat ` {..<100}"
  shows "mvcc_tests sha schedule"
  using assms by (simp add: mvcc_tests_def mvcc_tests_pass test_finalize_passes test_concurrent_writes_passes)

section \<open>\<open>execution/conflict.rs\<close>\<close>

definition make_slot :: "u8 \<Rightarrow> state_key" where
  "make_slot i = \<lparr>sk_address = replicate 20 i, sk_slot = U256_ZERO\<rparr>"

definition make_result :: "u64 \<Rightarrow> (u8 \<times> u64) list \<Rightarrow> u8 list \<Rightarrow> execution_result" where
  "make_result seq reads writes =
     \<lparr>er_tx_seq = seq, er_status = Success,
      er_read_set = fold (\<lambda>(key_id, version). rs_record (make_slot key_id) None version) reads [],
      er_write_set = fold (\<lambda>key_id. ws_record (make_slot key_id) (Some (u256_from_u64 seq))) writes [],
      er_gas_used = 21000, er_logs = [], er_output = []\<rparr>"

definition test_no_conflict_independent_txs :: bool where
  "test_no_conflict_independent_txs =
     (let validation = validate_batch [make_result 0 [(1, 0)] [1], make_result 1 [(2, 0)] [2]]
      in val_committed validation = [0, 1] \<and> val_aborted validation = [])"

definition test_conflict_detected :: bool where
  "test_conflict_detected =
     (let validation = validate_batch [make_result 1 [] [1], make_result 2 [(1, 0)] [2]]
      in val_committed validation = [1] \<and> val_aborted validation = [2])"

definition test_read_same_version_no_conflict :: bool where
  "test_read_same_version_no_conflict =
     (let validation = validate_batch [make_result 0 [] [1], make_result 1 [(1, 0)] []]
      in val_committed validation = [0, 1] \<and> val_aborted validation = [])"

definition test_cascading_scenario :: bool where
  "test_cascading_scenario =
     (let validation = validate_batch [make_result 1 [] [1], make_result 2 [(1, 0)] [2], make_result 3 [(3, 0)] [3]]
      in val_committed validation = [1, 3] \<and> val_aborted validation = [2])"

lemma conflict_tests_pass:
  "test_no_conflict_independent_txs" "test_conflict_detected" "test_read_same_version_no_conflict" "test_cascading_scenario"
  by code_simp+

text \<open>The tests of the file together.\<close>

definition conflict_tests :: bool where
  "conflict_tests \<longleftrightarrow>
     test_no_conflict_independent_txs \<and> test_conflict_detected \<and> test_read_same_version_no_conflict \<and>
     test_cascading_scenario"

lemma all_conflict_tests_pass: "conflict_tests"
  by (simp add: conflict_tests_def conflict_tests_pass)

section \<open>\<open>evm/vm.rs\<close>\<close>

definition make_vm_tx :: "u8 \<Rightarrow> u8 option \<Rightarrow> u64 \<Rightarrow> u64 \<Rightarrow> u64 \<Rightarrow> decrypted_transaction" where
  "make_vm_tx from to val nonce seq =
     \<lparr>dt_from = replicate 20 from, dt_to = map_option (replicate 20) to, dt_value = u256_from_u64 val, dt_gas_limit = 100000,
      dt_gas_price = u256_from_u64 1000000000, dt_nonce = nonce, dt_data = [], dt_source_commitment = replicate 32 0,
      dt_sequence_number = seq\<rparr>"

definition funded_sender :: mvs where
  "funded_sender =
     (let sender_balance_key = balance_key (replicate 20 0xAA)
      in mvs_mark_committed sender_balance_key 0
           (mvs_write sender_balance_key 0 (Some (u256_from_u64 1000000000000000000)) mvs_new))"

definition test_vm_creation :: bool where
  "test_vm_creation = (vm_chain_id (vm_new 1) = 1)"

definition test_simple_transfer :: "hash_fn \<Rightarrow> bool" where
  "test_simple_transfer keccak =
     (let tx = make_vm_tx 0xAA (Some 0xBB) 100000000000000000 0 1;
          result = fst (vm_execute keccak (vm_new 1) tx funded_sender block_context_default)
      in er_status result = Success \<and> 21000 \<le> er_gas_used result)"

definition test_insufficient_balance :: "hash_fn \<Rightarrow> bool" where
  "test_insufficient_balance keccak =
     (let tx = make_vm_tx 0xAA (Some 0xBB) 100000000000000000 0 1;
          result = fst (vm_execute keccak (vm_new 1) tx mvs_new block_context_default)
      in er_status result = Failure)"

definition test_invalid_nonce :: "hash_fn \<Rightarrow> bool" where
  "test_invalid_nonce keccak =
     (let tx = make_vm_tx 0xAA (Some 0xBB) 100000000 5 1;
          result = fst (vm_execute keccak (vm_new 1) tx funded_sender block_context_default)
      in er_status result = Failure)"

definition test_contract_creation :: "hash_fn \<Rightarrow> bool" where
  "test_contract_creation keccak =
     (let tx = (make_vm_tx 0xAA None 0 0 1)\<lparr>dt_data := [0x60, 0x00, 0x60, 0x00, 0xf3]\<rparr>;
          result = fst (vm_execute keccak (vm_new 1) tx funded_sender block_context_default)
      in er_status result = Success \<and> er_output result \<noteq> [])"

definition test_create_address_computation :: "hash_fn \<Rightarrow> bool" where
  "test_create_address_computation keccak =
     (let sender = replicate 20 0; addr0 = compute_create_address keccak sender 0; addr1 = compute_create_address keccak sender 1
      in addr0 \<noteq> addr1)"

definition test_read_write_tracking :: "hash_fn \<Rightarrow> bool" where
  "test_read_write_tracking keccak =
     (let tx = make_vm_tx 0xAA (Some 0xBB) 100000000 0 1;
          result = fst (vm_execute keccak (vm_new 1) tx funded_sender block_context_default)
      in er_read_set result \<noteq> [] \<and> er_write_set result \<noteq> [])"

lemma test_vm_creation_passes: "test_vm_creation"
  by code_simp

lemma funded_sender_inv: "mvs_inv funded_sender"
  by (simp add: funded_sender_def Let_def mvs_inv_mark mvs_inv_write)

lemma funded_sender_reads:
  "balance_at funded_sender (replicate 20 0xAA) 1 = u256_from_u64 1000000000000000000"
  "nonce_at funded_sender (replicate 20 0xAA) 1 = 0"
  "balance_at mvs_new (replicate 20 0xAA) 1 = U256_ZERO" "nonce_at mvs_new (replicate 20 0xAA) 1 = 0"
  by code_simp+

lemma vm_checks:
  "vm_check funded_sender (make_vm_tx 0xAA (Some 0xBB) 100000000000000000 0 1) = None"
  "vm_check funded_sender (make_vm_tx 0xAA (Some 0xBB) 100000000 0 1) = None"
  "vm_check funded_sender ((make_vm_tx 0xAA None 0 0 1)\<lparr>dt_data := [0x60, 0x00, 0x60, 0x00, 0xf3]\<rparr>) = None"
  "vm_check funded_sender (make_vm_tx 0xAA (Some 0xBB) 100000000 5 1) = Some (InvalidNonce 0 5)"
  "vm_check mvs_new (make_vm_tx 0xAA (Some 0xBB) 100000000000000000 0 1) = Some InsufficientBalance"
  by (simp_all add: vm_check_def make_vm_tx_def funded_sender_reads calculate_gas_cost_def u256_to_u64_def add_u256_def
      u256_wrapping_add_def add_limb_def overflowing_add_def compare_u256_def u256_from_u64_def U256_ZERO_def Let_def)

lemma record_not_empty: "record_reads s n (k # ks) [] \<noteq> []" "record_writes (w # ws) [] \<noteq> []"
proof -
  have "set (ws_keys (record_writes (w # ws) [])) \<noteq> {}" by (simp add: set_record_writes)
  then show "record_writes (w # ws) [] \<noteq> []" by (auto simp: ws_keys_def)
  have "m \<noteq> [] \<Longrightarrow> record_reads s n ks m \<noteq> []" for m
    by (induction ks arbitrary: m) (auto simp: record_reads_def rs_record_def update_nonempty)
  then show "record_reads s n (k # ks) [] \<noteq> []" by (simp add: record_reads_def rs_record_def)
qed

lemma vm_tests_pass:
  "test_simple_transfer keccak" "test_insufficient_balance keccak" "test_invalid_nonce keccak"
  "test_read_write_tracking keccak"
  by (simp_all add: test_simple_transfer_def test_insufficient_balance_def test_invalid_nonce_def
      test_read_write_tracking_def vm_execute_ok vm_execute_failed funded_sender_inv vm_checks)
    (simp_all add: gas_of_def make_vm_tx_def get_code_def vm_new_def vm_reads_def check_reads_def tracked_writes_def
      pre_writes_def record_not_empty)

lemma test_contract_creation_passes:
  assumes "\<And>x. length (keccak x) = 32"
  shows "test_contract_creation keccak"
  using assms by (simp add: test_contract_creation_def vm_execute_ok funded_sender_inv vm_checks)
    (auto simp: vm_output_def make_vm_tx_def compute_create_address_def dest: arg_cong [where f = length])

lemma test_create_address_computation_passes:
  assumes "take 20 (drop 12 (keccak ([0xd6, 0x94] @ replicate 20 0 @ [0x80]))) \<noteq>
    take 20 (drop 12 (keccak ([0xd6, 0x94] @ replicate 20 0 @ [1])))"
  shows "test_create_address_computation keccak"
  using assms by (simp add: test_create_address_computation_def compute_create_address_def rlp_nonce_def)

text \<open>The tests of the file together.\<close>

definition vm_tests :: "hash_fn \<Rightarrow> bool" where
  "vm_tests keccak \<longleftrightarrow>
     test_vm_creation \<and> test_simple_transfer keccak \<and> test_insufficient_balance keccak \<and>
     test_invalid_nonce keccak \<and> test_contract_creation keccak \<and> test_create_address_computation keccak \<and>
     test_read_write_tracking keccak"

lemma all_vm_tests_pass:
  assumes "\<And>x. length (keccak x) = 32"
    and "take 20 (drop 12 (keccak ([0xd6, 0x94] @ replicate 20 0 @ [0x80]))) \<noteq>
    take 20 (drop 12 (keccak ([0xd6, 0x94] @ replicate 20 0 @ [1])))"
  shows "vm_tests keccak"
  using assms by (simp add: vm_tests_def test_vm_creation_passes vm_tests_pass test_contract_creation_passes test_create_address_computation_passes)

section \<open>\<open>execution/executor.rs\<close>\<close>

definition make_tx :: "u64 \<Rightarrow> u8 \<Rightarrow> u8 \<Rightarrow> decrypted_transaction" where
  "make_tx seq from to =
     \<lparr>dt_from = replicate 20 from, dt_to = Some (replicate 20 to), dt_value = u256_from_u64 100, dt_gas_limit = 21000,
      dt_gas_price = u256_from_u64 1000000000, dt_nonce = 0, dt_data = [], dt_source_commitment = replicate 32 0,
      dt_sequence_number = seq\<rparr>"

definition make_block_context :: block_context where
  "make_block_context = \<lparr>bc_number = 1, bc_timestamp = 1234567890, bc_coinbase = replicate 20 0, bc_gas_limit = 10000000,
     bc_base_fee = U256_ZERO, bc_chain_id = 1\<rparr>"

definition make_funded_state :: "u8 list \<Rightarrow> mvs" where
  "make_funded_state addresses =
     (let eth = u256_from_u64 1000000000000000000;
          balance = fold (\<lambda>_ b. u256_wrapping_add b eth) [0..<100] U256_ZERO
      in mvs_with_base_state (concat (map (\<lambda>a.
           [(\<lparr>sk_address = replicate 20 a, sk_slot = u256_from_u64 0\<rparr>, balance),
            (\<lparr>sk_address = replicate 20 a, sk_slot = u256_from_u64 1\<rparr>, U256_ZERO)]) addresses)))"

definition run_test_batch ::
    "hash_fn \<Rightarrow> nat \<Rightarrow> u8 list \<Rightarrow> decrypted_transaction list \<Rightarrow> execution_result list" where
  "run_test_batch keccak num_cpus funded txs =
     (let executor = executor_new (make_funded_state funded) (vm_new 1) (executor_config_default num_cpus)
      in fst (run_batch keccak make_block_context txs executor))"

definition test_execute_empty_batch :: "hash_fn \<Rightarrow> nat \<Rightarrow> bool" where
  "test_execute_empty_batch keccak num_cpus =
     (fst (run_batch keccak make_block_context [] (executor_new mvs_new (vm_new 1) (executor_config_default num_cpus))) = [])"

definition test_execute_single_tx :: "hash_fn \<Rightarrow> nat \<Rightarrow> bool" where
  "test_execute_single_tx keccak num_cpus =
     (let results = run_test_batch keccak num_cpus [0xAA] [make_tx 0 0xAA 0xBB]
      in length results = 1 \<and> er_tx_seq (results ! 0) = 0 \<and> er_status (results ! 0) = Success)"

definition test_execute_independent_txs :: "hash_fn \<Rightarrow> nat \<Rightarrow> bool" where
  "test_execute_independent_txs keccak num_cpus =
     (let results = run_test_batch keccak num_cpus [0xAA, 0xBB, 0xEE]
            [make_tx 0 0xAA 0xCC, make_tx 1 0xBB 0xDD, make_tx 2 0xEE 0xFF]
      in length results = 3 \<and> er_tx_seq (results ! 0) = 0 \<and> er_tx_seq (results ! 1) = 1 \<and> er_tx_seq (results ! 2) = 2)"

definition test_results_ordered :: "hash_fn \<Rightarrow> nat \<Rightarrow> bool" where
  "test_results_ordered keccak num_cpus =
     (let results = run_test_batch keccak num_cpus [0x33, 0x11, 0x22, 0x00]
            [make_tx 3 0x33 0xAA, make_tx 1 0x11 0xBB, make_tx 2 0x22 0xCC, make_tx 0 0x00 0xDD]
      in list_all (\<lambda>(i, result). er_tx_seq result = word_of_nat i) (enumerate 0 results))"

lemma run_test_batch_serial:
  assumes "distinct (map dt_sequence_number txs)"
  shows "run_test_batch keccak num_cpus funded txs =
    fst (run_serial (execute_single keccak (vm_new 1) make_block_context) (sort_key dt_sequence_number txs) (make_funded_state funded))"
proof -
  let ?single = "execute_single keccak (vm_new 1) make_block_context"
  obtain rs s' where run: "run_serial ?single (sort_key dt_sequence_number txs) (make_funded_state funded) = (rs, s')"
    by fastforce
  have "mvs_inv (make_funded_state funded)" by (simp add: make_funded_state_def Let_def mvs_inv_with_base)
  from ryther.execute_batch_serial [OF this assms run] run show ?thesis
    by (simp add: run_test_batch_def run_batch_def executor_new_def)
qed

text \<open>A batch with different sequence numbers is answered in their order.\<close>

lemma run_test_batch_seqs:
  assumes "distinct (map dt_sequence_number txs)"
  shows "map er_tx_seq (run_test_batch keccak num_cpus funded txs) = sort (map dt_sequence_number txs)"
proof -
  have "mvs_inv (make_funded_state funded)" by (simp add: make_funded_state_def Let_def mvs_inv_with_base)
  then have "map er_tx_seq (run_test_batch keccak num_cpus funded txs) = map dt_sequence_number (sort_key dt_sequence_number txs)"
    using ryther.run_serial_seqs [of keccak "vm_new 1" make_block_context] assms
    by (metis run_test_batch_serial prod.collapse)
  then show ?thesis by (simp add: sort_map_key)
qed

lemma repeated_add_val:
  "u256_val b + length xs * u256_val e < 2 ^ 256 \<Longrightarrow>
     u256_val (fold (\<lambda>_ b. u256_wrapping_add b e) xs b) = u256_val b + length xs * u256_val e"
  by (induction xs arbitrary: b) (simp_all add: u256_wrapping_add_nowrap)

lemma funded_check: "vm_check (make_funded_state [0xAA]) (make_tx 0 0xAA 0xBB) = None"
proof -
  let ?a = "replicate 20 0xAA :: address"
  define b where "b = fold (\<lambda>_ b. u256_wrapping_add b (u256_from_u64 1000000000000000000)) [0..<100] U256_ZERO"
  have s: "make_funded_state [0xAA] = mvs_with_base_state [(balance_key ?a, b), (nonce_key ?a, U256_ZERO)]"
    by (simp add: make_funded_state_def Let_def b_def balance_key_def nonce_key_def SLOT_BALANCE_def SLOT_NONCE_def)
  have "balance_at (make_funded_state [0xAA]) ?a 0 = b" "nonce_at (make_funded_state [0xAA]) ?a 0 = 0"
    by (simp_all add: s balance_at_def nonce_at_def mvs_read_def mvs_with_base_state_def hm_lookup balance_key_def
        nonce_key_def SLOT_BALANCE_def SLOT_NONCE_def u256_from_u64_def U256_ZERO_def)
  moreover have "u256_val b = 100000000000000000000" unfolding b_def by (subst repeated_add_val) simp_all
  moreover have "u256_val (add_u256 (u256_from_u64 100) (calculate_gas_cost (make_tx 0 0xAA 0xBB))) = 21000000000100"
    by (subst add_u256_val) (simp_all add: calculate_gas_cost_def make_tx_def u256_to_u64_def u256_from_u64_def u256_val_def)
  ultimately show ?thesis by (simp add: vm_check_def Let_def compare_u256_less) (simp add: make_tx_def)
qed

lemma test_execute_single_tx_passes: "test_execute_single_tx keccak num_cpus"
proof -
  have "mvs_inv (make_funded_state [0xAA])" by (simp add: make_funded_state_def Let_def mvs_inv_with_base)
  then show ?thesis
    by (simp add: test_execute_single_tx_def run_test_batch_serial Let_def execute_single_def vm_execute_ok funded_check)
      (simp add: make_tx_def)
qed

lemma seqs_nth: "map er_tx_seq rs = qs \<Longrightarrow> length rs = length qs \<and> (\<forall>i < length qs. er_tx_seq (rs ! i) = qs ! i)"
  by auto

lemma executor_tests_pass:
  "test_execute_empty_batch keccak num_cpus" "test_execute_independent_txs keccak num_cpus"
  "test_results_ordered keccak num_cpus"
proof -
  show "test_execute_empty_batch keccak num_cpus"
    by (simp add: test_execute_empty_batch_def run_batch_def execute_batch_def executor_new_def)
  let ?r = "run_test_batch keccak num_cpus [0xAA, 0xBB, 0xEE] [make_tx 0 0xAA 0xCC, make_tx 1 0xBB 0xDD, make_tx 2 0xEE 0xFF]"
  have "map er_tx_seq ?r = [0, 1, 2]" by (subst run_test_batch_seqs) (simp_all add: make_tx_def)
  from seqs_nth [OF this] show "test_execute_independent_txs keccak num_cpus"
    by (auto simp: test_execute_independent_txs_def Let_def)
  let ?o = "run_test_batch keccak num_cpus [0x33, 0x11, 0x22, 0x00]
    [make_tx 3 0x33 0xAA, make_tx 1 0x11 0xBB, make_tx 2 0x22 0xCC, make_tx 0 0x00 0xDD]"
  have "map er_tx_seq ?o = map word_of_nat [0..<4]" by (subst run_test_batch_seqs) (simp_all add: make_tx_def upt_rec word_le_nat_alt)
  from seqs_nth [OF this] show "test_results_ordered keccak num_cpus"
    by (auto simp: test_results_ordered_def Let_def list_all_iff in_set_enumerate_eq)
qed

text \<open>The tests of the file together.\<close>

definition executor_tests :: "hash_fn \<Rightarrow> nat \<Rightarrow> bool" where
  "executor_tests keccak num_cpus \<longleftrightarrow>
     test_execute_empty_batch keccak num_cpus \<and> test_execute_single_tx keccak num_cpus \<and>
     test_execute_independent_txs keccak num_cpus \<and> test_results_ordered keccak num_cpus"

lemma all_executor_tests_pass: "executor_tests keccak num_cpus"
  by (simp add: executor_tests_def executor_tests_pass test_execute_single_tx_passes)

end
