(* ===== verification/Lru_Cache.thy ===== *)
theory Lru_Cache
  imports Ryther_Prelude
begin

text \<open>
  The bounded cache, \<^verbatim>\<open>src/storage/cache.rs\<close>: a hash map from keys to slots of an entry vector, with the
  entries chained into a doubly linked list from the most to the least recently used and a free list of
  vacant slots. Every \<open>entries[idx]\<close> that may be out of bounds is a possible panic of the model. The cache is
  shown to refine a plain list of key-value pairs.
\<close>

record 'v cache_entry =
  ce_value :: 'v
  ce_prev :: "nat option"
  ce_next :: "nat option"

record ('k, 'v) lru_cache =
  lr_map :: "('k, nat) hmap"
  lr_entries :: "'v cache_entry option list"
  lr_free_list :: "nat list"
  lr_head :: "nat option"
  lr_tail :: "nat option"
  lr_capacity :: nat
  lr_size :: nat
  lr_hits :: u64
  lr_misses :: u64

text \<open>The capacity is any number; the source reserves memory for it, which panics for a capacity that cannot be
  allocated.\<close>

definition lru_new :: "nat \<Rightarrow> ('k, 'v) lru_cache" where
  "lru_new capacity =
     \<lparr>lr_map = [], lr_entries = [], lr_free_list = [], lr_head = None, lr_tail = None,
      lr_capacity = max capacity 1, lr_size = 0, lr_hits = 0, lr_misses = 0\<rparr>"

text \<open>Access to a slot: \<open>entries[idx].as_ref()\<close>, \<open>entries[idx].as_mut()\<close> and \<open>entries[idx].take()\<close>.\<close>

definition entry_at :: "nat \<Rightarrow> ('k, 'v) lru_cache \<Rightarrow> panic + 'v cache_entry option" where
  "entry_at idx c = (if idx < length (lr_entries c) then Inr (lr_entries c ! idx) else Inl IndexOutOfBounds)"

definition update_entry ::
    "nat \<Rightarrow> ('v cache_entry \<Rightarrow> 'v cache_entry) \<Rightarrow> ('k, 'v) lru_cache \<Rightarrow> panic + ('k, 'v) lru_cache" where
  "update_entry idx f c =
     (if idx < length (lr_entries c)
      then Inr (c\<lparr>lr_entries := (lr_entries c)[idx := map_option f (lr_entries c ! idx)]\<rparr>)
      else Inl IndexOutOfBounds)"

definition take_entry :: "nat \<Rightarrow> ('k, 'v) lru_cache \<Rightarrow> panic + 'v cache_entry option \<times> ('k, 'v) lru_cache" where
  "take_entry idx c =
     (if idx < length (lr_entries c)
      then Inr (lr_entries c ! idx, c\<lparr>lr_entries := (lr_entries c)[idx := None]\<rparr>)
      else Inl IndexOutOfBounds)"

definition allocate_entry :: "'v \<Rightarrow> ('k, 'v) lru_cache \<Rightarrow> panic + nat \<times> ('k, 'v) lru_cache" where
  "allocate_entry val c =
     (let entry = \<lparr>ce_value = val, ce_prev = None, ce_next = None\<rparr>
      in if lr_free_list c \<noteq> [] then
           (let idx = last (lr_free_list c); c = c\<lparr>lr_free_list := butlast (lr_free_list c)\<rparr>
            in if idx < length (lr_entries c)
               then Inr (idx, c\<lparr>lr_entries := (lr_entries c)[idx := Some entry]\<rparr>)
               else Inl IndexOutOfBounds)
         else Inr (length (lr_entries c), c\<lparr>lr_entries := lr_entries c @ [Some entry]\<rparr>))"

definition add_to_front :: "nat \<Rightarrow> ('k, 'v) lru_cache \<Rightarrow> panic + ('k, 'v) lru_cache" where
  "add_to_front idx c =
     and_then (update_entry idx (\<lambda>entry. entry\<lparr>ce_prev := None, ce_next := lr_head c\<rparr>) c) (\<lambda>c.
     and_then (case lr_head c of
                 Some old_head \<Rightarrow> update_entry old_head (\<lambda>entry. entry\<lparr>ce_prev := Some idx\<rparr>) c
               | None \<Rightarrow> Inr c) (\<lambda>c.
     Inr (c\<lparr>lr_head := Some idx, lr_tail := (if lr_tail c = None then Some idx else lr_tail c)\<rparr>)))"

definition remove_from_list :: "nat \<Rightarrow> ('k, 'v) lru_cache \<Rightarrow> panic + ('k, 'v) lru_cache" where
  "remove_from_list idx c =
     and_then (entry_at idx c) (\<lambda>slot.
       case slot of
         None \<Rightarrow> Inr c
       | Some entry \<Rightarrow>
           and_then (case ce_prev entry of
                       Some prev_idx \<Rightarrow> update_entry prev_idx (\<lambda>e. e\<lparr>ce_next := ce_next entry\<rparr>) c
                     | None \<Rightarrow> Inr (c\<lparr>lr_head := ce_next entry\<rparr>)) (\<lambda>c.
           case ce_next entry of
             Some next_idx \<Rightarrow> update_entry next_idx (\<lambda>e. e\<lparr>ce_prev := ce_prev entry\<rparr>) c
           | None \<Rightarrow> Inr (c\<lparr>lr_tail := ce_prev entry\<rparr>)))"

definition move_to_front :: "nat \<Rightarrow> ('k, 'v) lru_cache \<Rightarrow> panic + ('k, 'v) lru_cache" where
  "move_to_front idx c =
     (if lr_head c = Some idx then Inr c
      else and_then (remove_from_list idx c) (add_to_front idx))"

definition evict_lru :: "('k, 'v) lru_cache \<Rightarrow> panic + 'v option \<times> ('k, 'v) lru_cache" where
  "evict_lru c =
     (case lr_tail c of
        None \<Rightarrow> Inr (None, c)
      | Some tail_idx \<Rightarrow>
          and_then (remove_from_list tail_idx c) (\<lambda>c.
          and_then (take_entry tail_idx c) (\<lambda>(entry, c).
          Inr (map_option ce_value entry,
               c\<lparr>lr_free_list := lr_free_list c @ [tail_idx], lr_size := lr_size c - 1,
                 lr_map := filter (\<lambda>(k, v). v \<noteq> tail_idx) (lr_map c)\<rparr>))))"

definition lru_get :: "'k \<Rightarrow> ('k, 'v) lru_cache \<Rightarrow> panic + 'v option \<times> ('k, 'v) lru_cache" where
  "lru_get key c =
     (case hm_get (lr_map c) key of
        None \<Rightarrow> Inr (None, c\<lparr>lr_misses := lr_misses c + 1\<rparr>)
      | Some idx \<Rightarrow>
          and_then (move_to_front idx (c\<lparr>lr_hits := lr_hits c + 1\<rparr>)) (\<lambda>c.
          and_then (entry_at idx c) (\<lambda>slot. Inr (map_option ce_value slot, c))))"

definition lru_put :: "'k \<Rightarrow> 'v \<Rightarrow> ('k, 'v) lru_cache \<Rightarrow> panic + 'v option \<times> ('k, 'v) lru_cache" where
  "lru_put key val c =
     (case hm_get (lr_map c) key of
        Some idx \<Rightarrow>
          and_then (entry_at idx c) (\<lambda>slot.
          and_then (update_entry idx (\<lambda>entry. entry\<lparr>ce_value := val\<rparr>) c) (\<lambda>c.
          and_then (move_to_front idx c) (\<lambda>c. Inr (map_option ce_value slot, c))))
      | None \<Rightarrow>
          and_then (if lr_capacity c \<le> lr_size c then evict_lru c else Inr (None, c)) (\<lambda>(evicted, c).
          and_then (allocate_entry val c) (\<lambda>(idx, c).
          and_then (add_to_front idx (c\<lparr>lr_map := hm_insert key idx (lr_map c)\<rparr>)) (\<lambda>c.
          Inr (evicted, c\<lparr>lr_size := lr_size c + 1\<rparr>)))))"

definition lru_remove :: "'k \<Rightarrow> ('k, 'v) lru_cache \<Rightarrow> panic + 'v option \<times> ('k, 'v) lru_cache" where
  "lru_remove key c =
     (case hm_get (lr_map c) key of
        None \<Rightarrow> Inr (None, c)
      | Some idx \<Rightarrow>
          and_then (remove_from_list idx (c\<lparr>lr_map := hm_remove key (lr_map c)\<rparr>)) (\<lambda>c.
          and_then (take_entry idx c) (\<lambda>(entry, c).
          Inr (map_option ce_value entry,
               c\<lparr>lr_free_list := lr_free_list c @ [idx], lr_size := lr_size c - 1\<rparr>))))"

definition lru_contains :: "'k \<Rightarrow> ('k, 'v) lru_cache \<Rightarrow> bool" where
  "lru_contains key c = hm_contains (lr_map c) key"

definition lru_len :: "('k, 'v) lru_cache \<Rightarrow> nat" where
  "lru_len c = lr_size c"

definition lru_is_empty :: "('k, 'v) lru_cache \<Rightarrow> bool" where
  "lru_is_empty c = (lru_len c = 0)"

definition lru_clear :: "('k, 'v) lru_cache \<Rightarrow> ('k, 'v) lru_cache" where
  "lru_clear c =
     c\<lparr>lr_map := [], lr_entries := [], lr_free_list := [], lr_head := None, lr_tail := None, lr_size := 0\<rparr>"

record cache_stats =
  cs_size :: nat
  cs_capacity :: nat
  cs_hits :: u64
  cs_misses :: u64

definition lru_stats :: "('k, 'v) lru_cache \<Rightarrow> cache_stats" where
  "lru_stats c = \<lparr>cs_size = lr_size c, cs_capacity = lr_capacity c, cs_hits = lr_hits c, cs_misses = lr_misses c\<rparr>"

section \<open>The abstract cache\<close>

text \<open>Key-value pairs from the most to the least recently used.\<close>

definition spec_get :: "'k \<Rightarrow> ('k \<times> 'v) list \<Rightarrow> 'v option \<times> ('k \<times> 'v) list" where
  "spec_get key xs =
     (case map_of xs key of None \<Rightarrow> (None, xs) | Some v \<Rightarrow> (Some v, (key, v) # AList.delete key xs))"

definition spec_put :: "nat \<Rightarrow> 'k \<Rightarrow> 'v \<Rightarrow> ('k \<times> 'v) list \<Rightarrow> 'v option \<times> ('k \<times> 'v) list" where
  "spec_put capacity key v xs =
     (case map_of xs key of
        Some old \<Rightarrow> (Some old, (key, v) # AList.delete key xs)
      | None \<Rightarrow>
          if capacity \<le> length xs then (Some (snd (last xs)), (key, v) # butlast xs)
          else (None, (key, v) # xs))"

definition spec_remove :: "'k \<Rightarrow> ('k \<times> 'v) list \<Rightarrow> 'v option \<times> ('k \<times> 'v) list" where
  "spec_remove key xs = (map_of xs key, AList.delete key xs)"

section \<open>Linked segments\<close>

text \<open>The slots of a segment, between the slots \<open>p\<close> and \<open>n\<close>.\<close>

definition first_slot :: "(nat \<times> 'v) list \<Rightarrow> nat option \<Rightarrow> nat option" where
  "first_slot xs n = (case xs of [] \<Rightarrow> n | (i, _) # _ \<Rightarrow> Some i)"

definition last_slot :: "nat option \<Rightarrow> (nat \<times> 'v) list \<Rightarrow> nat option" where
  "last_slot p xs = (if xs = [] then p else Some (fst (last xs)))"

fun dll :: "(nat \<Rightarrow> 'v cache_entry option) \<Rightarrow> nat option \<Rightarrow> (nat \<times> 'v) list \<Rightarrow> nat option \<Rightarrow> bool" where
  "dll E p [] n = True"
| "dll E p ((i, v) # xs) n =
     (E i = Some \<lparr>ce_value = v, ce_prev = p, ce_next = first_slot xs n\<rparr> \<and> dll E (Some i) xs n)"

lemma slot_simps [simp]:
  "first_slot [] n = n" "first_slot ((i, v) # xs) n = Some i" "last_slot p [] = p"
  "last_slot p (xs @ [(i, v)]) = Some i" "last_slot p ((i, v) # xs) = last_slot (Some i) xs"
  "first_slot (xs @ ys) n = first_slot xs (first_slot ys n)"
  "last_slot p (xs @ ys) = last_slot (last_slot p xs) ys"
  by (auto simp: first_slot_def last_slot_def split: list.splits)

lemma dll_append: "dll E p (xs @ ys) n \<longleftrightarrow> dll E p xs (first_slot ys n) \<and> dll E (last_slot p xs) ys n"
  by (induction xs arbitrary: p) auto

lemma dll_other: "i \<notin> fst ` set xs \<Longrightarrow> dll (E(i := e)) p xs n = dll E p xs n"
  by (induction xs arbitrary: p) auto

lemma dll_change_prev:
  assumes "dll E p ((i, v) # xs) n" and "i \<notin> fst ` set xs"
  shows "dll (E(i := map_option (\<lambda>e. e\<lparr>ce_prev := q\<rparr>) (E i))) q ((i, v) # xs) n"
  using assms by (simp add: dll_other)

lemma dll_change_next:
  assumes "dll E p (xs @ [(i, v)]) n" and "i \<notin> fst ` set xs"
  shows "dll (E(i := map_option (\<lambda>e. e\<lparr>ce_next := m\<rparr>) (E i))) p (xs @ [(i, v)]) m"
  using assms by (simp add: dll_append dll_other)

section \<open>The list of a cache\<close>

definition slots :: "('k, 'v) lru_cache \<Rightarrow> nat \<Rightarrow> 'v cache_entry option" where
  "slots c i = (if i < length (lr_entries c) then lr_entries c ! i else None)"

definition set_slot :: "nat \<Rightarrow> ('v cache_entry \<Rightarrow> 'v cache_entry) \<Rightarrow> ('k, 'v) lru_cache \<Rightarrow> ('k, 'v) lru_cache" where
  "set_slot i f c = c\<lparr>lr_entries := (lr_entries c)[i := map_option f (lr_entries c ! i)]\<rparr>"

definition list_ok :: "('k, 'v) lru_cache \<Rightarrow> (nat \<times> 'v) list \<Rightarrow> bool" where
  "list_ok c ys \<longleftrightarrow> dll (slots c) None ys None \<and> distinct (map fst ys) \<and>
     lr_head c = first_slot ys None \<and> lr_tail c = last_slot None ys"

text \<open>Only the chain has changed.\<close>

definition relinked :: "('k, 'v) lru_cache \<Rightarrow> ('k, 'v) lru_cache \<Rightarrow> bool" where
  "relinked c c' \<longleftrightarrow> length (lr_entries c') = length (lr_entries c) \<and>
     c' = c\<lparr>lr_entries := lr_entries c', lr_head := lr_head c', lr_tail := lr_tail c'\<rparr>"

lemma slots_SomeD: "slots c i = Some e \<Longrightarrow> i < length (lr_entries c)"
  by (simp add: slots_def split: if_splits)

lemma entry_at_slots: "slots c i = Some e \<Longrightarrow> entry_at i c = Inr (Some e)"
  by (simp add: slots_def entry_at_def split: if_splits)

lemma update_entry_slots: "slots c i = Some e \<Longrightarrow> update_entry i f c = Inr (set_slot i f c)"
  by (simp add: slots_def update_entry_def set_slot_def split: if_splits)

lemma slots_set_slot [simp]: "slots (set_slot i f c) = (slots c)(i := map_option f (slots c i))"
  by (rule ext) (auto simp: slots_def set_slot_def)

lemma set_slot_fields [simp]:
  "lr_map (set_slot i f c) = lr_map c" "lr_free_list (set_slot i f c) = lr_free_list c"
  "lr_head (set_slot i f c) = lr_head c" "lr_tail (set_slot i f c) = lr_tail c"
  "lr_capacity (set_slot i f c) = lr_capacity c" "lr_size (set_slot i f c) = lr_size c"
  "length (lr_entries (set_slot i f c)) = length (lr_entries c)"
  by (simp_all add: set_slot_def)

lemma slots_fields [simp]:
  "slots (c\<lparr>lr_head := h\<rparr>) = slots c" "slots (c\<lparr>lr_tail := t\<rparr>) = slots c" "slots (c\<lparr>lr_hits := x\<rparr>) = slots c"
  "slots (c\<lparr>lr_map := m\<rparr>) = slots c" "slots (c\<lparr>lr_free_list := fl\<rparr>) = slots c" "slots (c\<lparr>lr_size := n\<rparr>) = slots c"
  "slots (c\<lparr>lr_misses := x\<rparr>) = slots c"
  by (auto simp: slots_def)

lemma relinked_refl [simp]: "relinked c c"
  by (simp add: relinked_def)

lemma relinked_set_slot [simp]: "relinked c (set_slot i f c')  \<longleftrightarrow> relinked c c'"
  by (cases c; cases c') (auto simp: relinked_def set_slot_def)

lemma relinked_ends [simp]: "relinked c (c'\<lparr>lr_head := h\<rparr>) \<longleftrightarrow> relinked c c'" "relinked c (c'\<lparr>lr_tail := t\<rparr>) \<longleftrightarrow> relinked c c'"
  by (cases c; cases c'; auto simp: relinked_def)+

lemma relinked_trans [trans]: "relinked a b \<Longrightarrow> relinked b c \<Longrightarrow> relinked a c"
  by (cases a; cases b; cases c) (auto simp: relinked_def)

lemma relinkedD:
  assumes "relinked c c'"
  shows "lr_map c' = lr_map c" "lr_free_list c' = lr_free_list c" "lr_capacity c' = lr_capacity c"
    "lr_size c' = lr_size c" "length (lr_entries c') = length (lr_entries c)"
  using assms by (cases c; cases c'; auto simp: relinked_def)+

lemma dll_slot: "dll E p xs n \<Longrightarrow> (i, v) \<in> set xs \<Longrightarrow> \<exists>e. E i = Some e \<and> ce_value e = v"
  by (induction xs arbitrary: p) auto

lemma dll_cong: "(\<And>j. j \<in> fst ` set xs \<Longrightarrow> E j = E' j) \<Longrightarrow> dll E p xs n = dll E' p xs n"
  by (induction xs arbitrary: p) auto

text \<open>Linking the front part of the list to what follows it, and the back part to what precedes it.\<close>

lemma link_next_ok:
  assumes "dll (slots c) None xs n" "distinct (map fst xs)" "lr_head c = first_slot xs n"
  shows "\<exists>c'. (case last_slot None xs of Some k \<Rightarrow> update_entry k (\<lambda>e. e\<lparr>ce_next := m\<rparr>) c | None \<Rightarrow> Inr (c\<lparr>lr_head := m\<rparr>)) = Inr c' \<and>
    dll (slots c') None xs m \<and> lr_head c' = first_slot xs m \<and> lr_tail c' = lr_tail c \<and> relinked c c' \<and>
    (\<forall>j. j \<notin> fst ` set xs \<longrightarrow> slots c' j = slots c j)"
proof (cases xs rule: rev_cases)
  case (snoc xs' x)
  obtain k u where x: "x = (k, u)" by (cases x)
  have "slots c k = Some \<lparr>ce_value = u, ce_prev = last_slot None xs', ce_next = n\<rparr>"
    using assms(1) snoc x by (simp add: dll_append)
  note upd = update_entry_slots [OF this]
  show ?thesis
    using dll_change_next [OF assms(1) [unfolded snoc x], of m] assms(2,3) by (simp add: snoc x upd first_slot_def split: list.splits)
qed simp

lemma link_prev_ok:
  assumes "dll (slots c) q ys None" "distinct (map fst ys)" "lr_tail c = last_slot q ys"
  shows "\<exists>c'. (case first_slot ys None of Some j \<Rightarrow> update_entry j (\<lambda>e. e\<lparr>ce_prev := p\<rparr>) c | None \<Rightarrow> Inr (c\<lparr>lr_tail := p\<rparr>)) = Inr c' \<and>
    dll (slots c') p ys None \<and> lr_tail c' = last_slot p ys \<and> lr_head c' = lr_head c \<and> relinked c c' \<and>
    (\<forall>j. j \<notin> fst ` set ys \<longrightarrow> slots c' j = slots c j)"
proof (cases ys)
  case (Cons y ys')
  obtain j w where y: "y = (j, w)" by (cases y)
  have "slots c j = Some \<lparr>ce_value = w, ce_prev = q, ce_next = first_slot ys' None\<rparr>" using assms(1) Cons y by simp
  note upd = update_entry_slots [OF this]
  show ?thesis
    using dll_change_prev [OF assms(1) [unfolded Cons y], of p] assms(2,3) by (simp add: Cons y upd)
qed simp

lemma remove_from_list_ok:
  assumes ok: "list_ok c (xs @ (i, v) # ys)"
  shows "\<exists>c' e. remove_from_list i c = Inr c' \<and> list_ok c' (xs @ ys) \<and> slots c' i = Some e \<and> ce_value e = v \<and> relinked c c'"
proof -
  let ?e = "\<lparr>ce_value = v, ce_prev = last_slot None xs, ce_next = first_slot ys None\<rparr>"
  have seg: "dll (slots c) None xs (Some i)" "slots c i = Some ?e" "dll (slots c) (Some i) ys None"
    and ends: "lr_head c = first_slot xs (Some i)" "lr_tail c = last_slot (Some i) ys"
    and dist: "distinct (map fst xs)" "distinct (map fst ys)" "i \<notin> fst ` set xs" "i \<notin> fst ` set ys" "fst ` set xs \<inter> fst ` set ys = {}"
    using ok by (auto simp: list_ok_def dll_append)
  obtain c1 where c1: "(case last_slot None xs of Some k \<Rightarrow> update_entry k (\<lambda>e. e\<lparr>ce_next := first_slot ys None\<rparr>) c
        | None \<Rightarrow> Inr (c\<lparr>lr_head := first_slot ys None\<rparr>)) = Inr c1" "dll (slots c1) None xs (first_slot ys None)"
      "lr_head c1 = first_slot xs (first_slot ys None)" "lr_tail c1 = lr_tail c" "relinked c c1" "\<forall>j. j \<notin> fst ` set xs \<longrightarrow> slots c1 j = slots c j"
    using link_next_ok [OF seg(1) dist(1) ends(1)] by blast
  have "dll (slots c1) (Some i) ys None" using seg(3) c1(6) dist(5) by (subst dll_cong [of ys "slots c1" "slots c"]) auto
  moreover have "lr_tail c1 = last_slot (Some i) ys" using c1(4) ends(2) by simp
  ultimately obtain c2 where c2: "(case first_slot ys None of Some j \<Rightarrow> update_entry j (\<lambda>e. e\<lparr>ce_prev := last_slot None xs\<rparr>) c1
        | None \<Rightarrow> Inr (c1\<lparr>lr_tail := last_slot None xs\<rparr>)) = Inr c2" "dll (slots c2) (last_slot None xs) ys None"
      "lr_tail c2 = last_slot (last_slot None xs) ys" "lr_head c2 = lr_head c1" "relinked c1 c2" "\<forall>j. j \<notin> fst ` set ys \<longrightarrow> slots c2 j = slots c1 j"
    using link_prev_ok [OF _ dist(2)] by blast
  have "dll (slots c2) None xs (first_slot ys None)" using c1(2) c2(6) dist(5) by (subst dll_cong [of xs "slots c2" "slots c1"]) auto
  then have "list_ok c2 (xs @ ys)" using c1(3) c2(2-4) dist by (simp add: list_ok_def dll_append)
  moreover have "remove_from_list i c = Inr c2" using c1(1) c2(1) by (simp add: remove_from_list_def entry_at_slots [OF seg(2)] cong: option.case_cong)
  moreover have "slots c2 i = Some ?e" using seg(2) c1(6) c2(6) dist(3,4) by simp
  ultimately show ?thesis using c1(5) c2(5) by (auto intro: relinked_trans)
qed

lemma add_to_front_ok:
  assumes ok: "list_ok c ys" and i: "slots c i = Some e" "ce_value e = v" "i \<notin> fst ` set ys"
  shows "\<exists>c'. add_to_front i c = Inr c' \<and> list_ok c' ((i, v) # ys) \<and> relinked c c'"
proof -
  let ?c = "set_slot i (\<lambda>entry. entry\<lparr>ce_prev := None, ce_next := lr_head c\<rparr>) c"
  note updi = update_entry_slots [OF i(1)]
  have ys: "dll (slots ?c) None ys None" "distinct (map fst ys)" "lr_head c = first_slot ys None" "lr_tail c = last_slot None ys"
    using ok i(3) by (simp_all add: list_ok_def dll_other)
  show ?thesis
  proof (cases ys)
    case Nil
    with ys i show ?thesis by (cases e) (simp add: add_to_front_def updi list_ok_def)
  next
    case (Cons y ys')
    obtain j w where y: "y = (j, w)" by (cases y)
    have hd: "lr_head c = Some j" using ys(3) by (simp add: Cons y)
    let ?c = "set_slot i (\<lambda>entry. entry\<lparr>ce_prev := None, ce_next := Some j\<rparr>) c"
    let ?c' = "set_slot j (\<lambda>entry. entry\<lparr>ce_prev := Some i\<rparr>) ?c"
    have ne: "i \<noteq> j" "j \<noteq> i" using i(3) by (auto simp: Cons y)
    have "slots ?c j = Some \<lparr>ce_value = w, ce_prev = None, ce_next = first_slot ys' None\<rparr>"
      using ys(1) by (simp add: Cons y hd del: slots_set_slot)
    note updj = update_entry_slots [OF this]
    have "dll (slots ?c') (Some i) ys None"
      using dll_change_prev [of "slots ?c" None j w ys' None "Some i"] ys(1,2)
      by (simp add: Cons y hd del: dll.simps slots_set_slot) simp
    moreover have "slots ?c' i = Some \<lparr>ce_value = v, ce_prev = None, ce_next = Some j\<rparr>"
      using i(1,2) ne by (cases e) simp
    ultimately have "dll (slots ?c') None ((i, v) # ys) None" by (simp add: Cons y del: slots_set_slot)
    moreover have "lr_tail c = last_slot (Some i) ys" "lr_tail c \<noteq> None" using ys(4) by (simp_all add: Cons y last_slot_def)
    moreover have "add_to_front i c = Inr (?c'\<lparr>lr_head := Some i, lr_tail := lr_tail c\<rparr>)"
      using updi updj \<open>lr_tail c \<noteq> None\<close> by (simp add: add_to_front_def hd del: slots_set_slot)
    ultimately show ?thesis
      using ys(2) i(3) by (simp add: list_ok_def del: dll.simps slots_set_slot)
  qed
qed

lemma move_to_front_ok:
  assumes ok: "list_ok c (xs @ (i, v) # ys)"
  shows "\<exists>c'. move_to_front i c = Inr c' \<and> list_ok c' ((i, v) # xs @ ys) \<and> relinked c c'"
proof (cases xs)
  case Nil
  with ok show ?thesis by (simp add: move_to_front_def list_ok_def)
next
  case (Cons x xs')
  have dist: "i \<notin> fst ` set (xs @ ys)" using ok by (auto simp: list_ok_def)
  then have "lr_head c \<noteq> Some i" using ok Cons by (cases x) (auto simp: list_ok_def)
  then have m: "move_to_front i c = and_then (remove_from_list i c) (add_to_front i)" by (simp add: move_to_front_def)
  obtain c1 e where c1: "remove_from_list i c = Inr c1" "list_ok c1 (xs @ ys)" "slots c1 i = Some e" "ce_value e = v" "relinked c c1"
    using remove_from_list_ok [OF ok] by blast
  obtain c2 where "add_to_front i c1 = Inr c2" "list_ok c2 ((i, v) # xs @ ys)" "relinked c1 c2"
    using add_to_front_ok [OF c1(2,3,4) dist] by blast
  with c1(1) relinked_trans [OF c1(5)] show ?thesis by (simp add: m)
qed

section \<open>Refinement\<close>

text \<open>A cache represents a list of keys with their slots and values: the slots are chained in this order,
  the map sends every key to its slot, and every slot is in the chain or on the free list.\<close>

definition represents_list :: "('k, 'v) lru_cache \<Rightarrow> ('k \<times> nat \<times> 'v) list \<Rightarrow> bool" where
  "represents_list c xs \<longleftrightarrow> list_ok c (map snd xs) \<and> distinct (map fst xs) \<and>
     hm_wf (lr_map c) \<and> (\<forall>key. hm_get (lr_map c) key = map_option fst (map_of xs key)) \<and>
     distinct (lr_free_list c) \<and> (\<forall>i \<in> set (lr_free_list c). i < length (lr_entries c)) \<and>
     set (lr_free_list c) \<inter> fst ` set (map snd xs) = {} \<and>
     length (lr_entries c) = length xs + length (lr_free_list c) \<and>
     lr_size c = length xs \<and> length (lr_entries c) \<le> lr_capacity c \<and> 0 < lr_capacity c"

lemmas represents_listD = represents_list_def [THEN iffD1, THEN conjunct1]
  represents_list_def [THEN iffD1, THEN conjunct2, THEN conjunct1]
  represents_list_def [THEN iffD1, THEN conjunct2, THEN conjunct2, THEN conjunct2, THEN conjunct1, THEN spec]

definition contents :: "('k \<times> nat \<times> 'v) list \<Rightarrow> ('k \<times> 'v) list" where
  "contents xs = map (\<lambda>(k, i, v). (k, v)) xs"

definition lru_rep :: "('k, 'v) lru_cache \<Rightarrow> ('k \<times> 'v) list \<Rightarrow> bool" where
  "lru_rep c kvs \<longleftrightarrow> (\<exists>xs. represents_list c xs \<and> kvs = contents xs)"

lemma contents_simps [simp]:
  "contents [] = []" "contents (xs @ ys) = contents xs @ contents ys" "contents ((k, i, v) # xs) = (k, v) # contents xs"
  "length (contents xs) = length xs" "map fst (contents xs) = map fst xs"
  by (auto simp: contents_def)

lemma map_of_contents: "map_of (contents xs) key = map_option snd (map_of xs key)"
  by (induction xs) auto

lemma delete_append [simp]: "AList.delete k (xs @ ys) = AList.delete k xs @ AList.delete k ys"
  by (simp add: AList.delete_eq)

lemma map_of_without:
  assumes "distinct (map fst (xs @ (key, x) # ys))"
  shows "map_of (xs @ ys) k = (if k = key then None else map_of (xs @ (key, x) # ys) k)"
    and "map_of (xs @ (key, x) # ys) key = Some x"
proof -
  have none: "map_of xs key = None" "map_of ys key = None"
    using assms by (simp_all add: map_of_eq_None_iff)
  then show "map_of (xs @ ys) k = (if k = key then None else map_of (xs @ (key, x) # ys) k)"
    by (simp add: map_add_def split: option.split)
  from none show "map_of (xs @ (key, x) # ys) key = Some x" by (simp add: map_add_def)
qed

lemma split_at_key:
  assumes "map_of xs key = Some (i, v)" and "distinct (map fst xs)"
  obtains as bs where "xs = as @ (key, i, v) # bs" "AList.delete key (contents xs) = contents as @ contents bs"
proof -
  obtain as bs where xs: "xs = as @ (key, i, v) # bs" using map_of_SomeD [OF assms(1)] by (auto dest: split_list)
  have "AList.delete key (contents xs) = contents as @ contents bs"
  proof -
    have "key \<notin> fst ` set (contents as)" "key \<notin> fst ` set (contents bs)"
      using assms(2) by (auto simp: xs contents_def image_iff split_beta)
    then show ?thesis by (simp add: xs)
  qed
  with xs show thesis by (rule that)
qed

lemma lru_repI: "represents_list c xs \<Longrightarrow> lru_rep c (contents xs)"
  by (auto simp: lru_rep_def)

lemma represents_relinked:
  assumes "represents_list c xs" and "relinked c c'" and "list_ok c' (map snd ys)" and "mset ys = mset xs"
  shows "represents_list c' ys"
proof -
  have "set ys = set xs" "length ys = length xs" "distinct (map fst ys)"
    using assms(4) assms(1) mset_eq_imp_distinct_iff [of "map fst ys" "map fst xs"]
    by (auto simp: represents_list_def dest: mset_eq_setD mset_eq_length)
  moreover have "map_of ys = map_of xs"
    using assms(1,4) calculation by (metis map_of_inject_set represents_list_def)
  ultimately show ?thesis
    using assms(1,3) relinkedD [OF assms(2)] unfolding represents_list_def by auto
qed

lemma lru_rep_new: "lru_rep (lru_new capacity) []"
  by (auto simp: lru_rep_def represents_list_def lru_new_def list_ok_def)

lemma represents_counters:
  "represents_list (c\<lparr>lr_hits := h\<rparr>) xs = represents_list c xs"
  "represents_list (c\<lparr>lr_misses := h\<rparr>) xs = represents_list c xs"
  by (simp_all add: represents_list_def list_ok_def)

lemma lru_get_refines:
  assumes "lru_rep c kvs"
  shows "\<exists>c'. lru_get key c = Inr (fst (spec_get key kvs), c') \<and> lru_rep c' (snd (spec_get key kvs)) \<and> lr_capacity c' = lr_capacity c"
proof -
  obtain xs where xs: "represents_list c xs" "kvs = contents xs" using assms by (auto simp: lru_rep_def)
  note get = represents_listD(3) [OF xs(1), of key]
  show ?thesis
  proof (cases "map_of xs key")
    case None
    have "lru_rep (c\<lparr>lr_misses := lr_misses c + 1\<rparr>) kvs" using xs unfolding lru_rep_def represents_counters by blast
    with None show ?thesis by (simp add: get lru_get_def spec_get_def xs(2) map_of_contents)
  next
    case (Some iv)
    obtain i v where iv: "iv = (i, v)" by (cases iv)
    obtain as bs where s: "xs = as @ (key, i, v) # bs" "AList.delete key (contents xs) = contents as @ contents bs"
      using split_at_key [OF Some [unfolded iv] represents_listD(2) [OF xs(1)]] by blast
    let ?c = "c\<lparr>lr_hits := lr_hits c + 1\<rparr>"
    have rep: "represents_list ?c xs" using xs(1) by (simp add: represents_counters)
    from represents_listD(1) [OF this] have ok: "list_ok ?c (map snd as @ (i, v) # map snd bs)" by (simp add: s)
    obtain c' where c': "move_to_front i ?c = Inr c'" "list_ok c' ((i, v) # map snd as @ map snd bs)" "relinked ?c c'"
      using move_to_front_ok [OF ok] by blast
    have "represents_list c' ((key, i, v) # as @ bs)"
      by (rule represents_relinked [OF rep c'(3)]) (simp_all add: c'(2) s)
    moreover have "entry_at i c' = Inr (Some \<lparr>ce_value = v, ce_prev = None, ce_next = first_slot (map snd as @ map snd bs) None\<rparr>)"
      using c'(2) by (intro entry_at_slots) (simp add: list_ok_def)
    moreover have "spec_get key kvs = (Some v, contents ((key, i, v) # as @ bs))"
      using Some iv s(2) by (simp add: spec_get_def xs(2) map_of_contents)
    moreover have "lru_get key c = Inr (Some v, c')"
      using calculation(2) Some iv c'(1) by (simp add: lru_get_def get)
    ultimately show ?thesis using relinkedD(3) [OF c'(3)] by (simp add: lru_repI del: contents_simps)
  qed
qed

lemma dll_change_value:
  assumes "dll E p (xs @ (i, v) # ys) n" and "i \<notin> fst ` set (xs @ ys)"
  shows "dll (E(i := map_option (\<lambda>e. e\<lparr>ce_value := w\<rparr>) (E i))) p (xs @ (i, w) # ys) n"
  using assms by (auto simp: dll_append dll_other image_Un)

lemma remove_from_list_map: "remove_from_list i c = Inr c' \<Longrightarrow> remove_from_list i (c\<lparr>lr_map := m\<rparr>) = Inr (c'\<lparr>lr_map := m\<rparr>)"
  by (cases c) (auto simp: remove_from_list_def entry_at_def update_entry_def split: if_splits option.splits)

lemma take_entry_map: "take_entry i c = Inr (e, c') \<Longrightarrow> take_entry i (c\<lparr>lr_map := m\<rparr>) = Inr (e, c'\<lparr>lr_map := m\<rparr>)"
  by (cases c) (auto simp: take_entry_def split: if_splits)

text \<open>Taking the slot of an entry that is no longer chained, and putting it on the free list.\<close>

lemma release_slot:
  assumes ok: "list_ok c (map snd xs)" and i: "slots c i = Some e" "i \<notin> fst ` set (map snd xs)"
  shows "\<exists>c'. take_entry i c = Inr (Some e, c') \<and> list_ok c' (map snd xs) \<and>
    c' = c\<lparr>lr_entries := lr_entries c'\<rparr> \<and> length (lr_entries c') = length (lr_entries c)"
proof -
  let ?c = "c\<lparr>lr_entries := (lr_entries c)[i := None]\<rparr>"
  have "slots ?c = (slots c)(i := None)" by (rule ext) (auto simp: slots_def)
  then have "list_ok ?c (map snd xs)" using ok i(2) by (simp add: list_ok_def dll_other)
  moreover have "take_entry i c = Inr (Some e, ?c)" using i(1) by (simp add: take_entry_def slots_def split: if_splits)
  ultimately show ?thesis by simp
qed

lemma unlink_ok:
  assumes rep: "represents_list c (xs @ (key, i, v) # ys)"
    and m: "hm_wf m" "\<And>k. hm_get m k = (if k = key then None else hm_get (lr_map c) k)"
  shows "\<exists>c1 c2 e. remove_from_list i c = Inr c1 \<and> take_entry i c1 = Inr (Some e, c2) \<and> ce_value e = v \<and>
    represents_list (c2\<lparr>lr_free_list := lr_free_list c2 @ [i], lr_size := lr_size c2 - 1, lr_map := m\<rparr>) (xs @ ys) \<and>
    lr_capacity c2 = lr_capacity c \<and> lr_map c2 = lr_map c \<and> lr_free_list c2 = lr_free_list c"
proof -
  have ok: "list_ok c (map snd xs @ (i, v) # map snd ys)" using represents_listD(1) [OF rep] by simp
  then have new: "i \<notin> fst ` set (map snd (xs @ ys))" by (simp add: list_ok_def image_image image_Un)
  obtain c1 e where c1: "remove_from_list i c = Inr c1" "list_ok c1 (map snd (xs @ ys))" "slots c1 i = Some e" "ce_value e = v" "relinked c c1"
    using remove_from_list_ok [OF ok] by auto
  note r1 = relinkedD [OF c1(5)]
  obtain c2 where c2: "take_entry i c1 = Inr (Some e, c2)" "list_ok c2 (map snd (xs @ ys))"
      "c2 = c1\<lparr>lr_entries := lr_entries c2\<rparr>" "length (lr_entries c2) = length (lr_entries c1)"
    using release_slot [OF c1(2,3) new] by blast
  have r2: "lr_map c2 = lr_map c" "lr_free_list c2 = lr_free_list c" "lr_size c2 = lr_size c" "lr_capacity c2 = lr_capacity c"
      "length (lr_entries c2) = length (lr_entries c)"
    using r1 c2(4) by (subst c2(3); simp)+
  let ?c = "c2\<lparr>lr_free_list := lr_free_list c2 @ [i], lr_size := lr_size c2 - 1, lr_map := m\<rparr>"
  have "i < length (lr_entries c)" using slots_SomeD [OF c1(3)] r1(5) by simp
  moreover have "list_ok ?c (map snd (xs @ ys))" using c2(2) by (simp add: list_ok_def)
  moreover have "hm_get m k = map_option fst (map_of (xs @ ys) k)" for k
    using m(2) [of k] represents_listD(3) [OF rep, of k] map_of_without(1) [OF represents_listD(2) [OF rep], of k]
    by (simp del: map_of_append)
  ultimately have "represents_list ?c (xs @ ys)"
    using rep m(1) r2 new unfolding represents_list_def by auto
  with c1 c2 r2 show ?thesis by blast
qed

lemma map_of_filter_value:
  "hm_wf m \<Longrightarrow> map_of (filter (\<lambda>(k, v). v \<noteq> t) m) key = (case map_of m key of Some v \<Rightarrow> if v = t then None else Some v | None \<Rightarrow> None)"
  by (induction m) (auto simp: map_of_eq_None_iff split: option.splits)

lemma evict_lru_ok:
  assumes rep: "represents_list c (xs @ [(key, i, v)])"
  shows "\<exists>c'. evict_lru c = Inr (Some v, c') \<and> represents_list c' xs \<and> lr_capacity c' = lr_capacity c"
proof -
  have tail: "lr_tail c = Some i" using represents_listD(1) [OF rep] by (simp add: list_ok_def)
  let ?m = "filter (\<lambda>(k, v). v \<noteq> i) (lr_map c)"
  have wf: "hm_wf (lr_map c)" using rep by (simp add: represents_list_def)
  have keys: "distinct (map fst (xs @ [(key, i, v)]))" and idx: "i \<notin> fst ` set (map snd xs)"
    using represents_listD(1,2) [OF rep] by (simp_all add: list_ok_def image_image)
  have "hm_get ?m k = (if k = key then None else hm_get (lr_map c) k)" for k
  proof -
    have other: "i' \<noteq> i" if "map_of xs k = Some (i', w)" for i' w using idx that by (force dest: map_of_SomeD)
    show ?thesis
    proof (cases "k = key")
      case True
      then show ?thesis
        using map_of_without(2) [OF keys] represents_listD(3) [OF rep, of k]
        by (simp add: map_of_filter_value [OF wf] del: map_of_append)
    next
      case False
      then have "hm_get (lr_map c) k = map_option fst (map_of xs k)"
        using map_of_without(1) [OF keys, of k] represents_listD(3) [OF rep, of k] by (simp del: map_of_append)
      with False other show ?thesis by (cases "map_of xs k") (auto simp: map_of_filter_value [OF wf])
    qed
  qed
  moreover have "hm_wf ?m" using wf by (simp add: distinct_map_filter)
  ultimately obtain c1 c2 e where "remove_from_list i c = Inr c1" "take_entry i c1 = Inr (Some e, c2)" "ce_value e = v"
      "represents_list (c2\<lparr>lr_free_list := lr_free_list c2 @ [i], lr_size := lr_size c2 - 1, lr_map := ?m\<rparr>) xs"
      "lr_capacity c2 = lr_capacity c" "lr_map c2 = lr_map c" "lr_free_list c2 = lr_free_list c"
    using unlink_ok [of c xs key i v "[]" ?m] rep by auto
  then show ?thesis by (simp add: evict_lru_def tail)
qed

lemma used_slot:
  assumes "represents_list c xs" "j \<in> fst ` set (map snd xs)"
  shows "j < length (lr_entries c)"
proof -
  obtain p where "p \<in> set (map snd xs)" "j = fst p" by (rule imageE [OF assms(2)])
  then have "(j, snd p) \<in> set (map snd xs)" by simp
  then show ?thesis
    using represents_listD(1) [OF assms(1), unfolded list_ok_def, THEN conjunct1] dll_slot slots_SomeD by metis
qed

text \<open>A slot is reserved for a new entry: it is outside the list, and the free slots stay apart from both.\<close>

lemma allocate_entry_fresh:
  assumes rep: "represents_list c xs" and room: "length xs < lr_capacity c"
  obtains i c1 where "allocate_entry v c = Inr (i, c1)"
    "slots c1 = (slots c)(i := Some \<lparr>ce_value = v, ce_prev = None, ce_next = None\<rparr>)" "i \<notin> fst ` set (map snd xs)"
    "lr_map c1 = lr_map c" "lr_head c1 = lr_head c" "lr_tail c1 = lr_tail c" "lr_capacity c1 = lr_capacity c" "lr_size c1 = lr_size c"
    "distinct (i # lr_free_list c1)" "\<forall>j \<in> set (lr_free_list c1). j < length (lr_entries c1)"
    "set (lr_free_list c1) \<inter> fst ` set (map snd xs) = {}" "length (lr_entries c1) = Suc (length xs) + length (lr_free_list c1)"
    "length (lr_entries c1) \<le> lr_capacity c"
proof -
  let ?e = "\<lparr>ce_value = v, ce_prev = None, ce_next = None\<rparr>"
  have D: "distinct (lr_free_list c)" "\<forall>i \<in> set (lr_free_list c). i < length (lr_entries c)"
      "set (lr_free_list c) \<inter> fst ` set (map snd xs) = {}" "length (lr_entries c) = length xs + length (lr_free_list c)"
      "length (lr_entries c) \<le> lr_capacity c"
    using rep unfolding represents_list_def by blast+
  show thesis
  proof (cases "lr_free_list c" rule: rev_cases)
    case Nil
    let ?c = "c\<lparr>lr_entries := lr_entries c @ [Some ?e]\<rparr>"
    have "slots ?c = (slots c)(length (lr_entries c) := Some ?e)" by (rule ext) (auto simp: slots_def nth_append)
    moreover have "length (lr_entries c) \<notin> fst ` set (map snd xs)" using used_slot [OF rep] by blast
    ultimately show thesis
      using that [of "length (lr_entries c)" ?c] Nil D room by (simp add: allocate_entry_def)
  next
    case (snoc fs i)
    let ?c = "c\<lparr>lr_free_list := fs, lr_entries := (lr_entries c)[i := Some ?e]\<rparr>"
    have i: "i < length (lr_entries c)" using D(2) snoc by simp
    then have "slots ?c = (slots c)(i := Some ?e)" by (intro ext) (auto simp: slots_def)
    then show thesis
      using that [of i ?c] snoc D i by (auto simp: allocate_entry_def Let_def)
  qed
qed

lemma allocate_entry_ok:
  assumes rep: "represents_list c xs" and room: "length xs < lr_capacity c" and key: "map_of xs key = None"
  shows "\<exists>i c1 c2. allocate_entry v c = Inr (i, c1) \<and>
    add_to_front i (c1\<lparr>lr_map := hm_insert key i (lr_map c1)\<rparr>) = Inr c2 \<and>
    represents_list (c2\<lparr>lr_size := lr_size c2 + 1\<rparr>) ((key, i, v) # xs) \<and> lr_capacity c2 = lr_capacity c"
proof -
  let ?e = "\<lparr>ce_value = v, ce_prev = None, ce_next = None\<rparr>"
  have D: "lr_size c = length xs" "hm_wf (lr_map c)" using rep unfolding represents_list_def by blast+
  obtain i c1 where c1: "allocate_entry v c = Inr (i, c1)" "slots c1 = (slots c)(i := Some ?e)" "i \<notin> fst ` set (map snd xs)"
      "lr_map c1 = lr_map c" "lr_head c1 = lr_head c" "lr_tail c1 = lr_tail c" "lr_capacity c1 = lr_capacity c" "lr_size c1 = lr_size c"
      "distinct (i # lr_free_list c1)" "\<forall>j \<in> set (lr_free_list c1). j < length (lr_entries c1)"
      "set (lr_free_list c1) \<inter> fst ` set (map snd xs) = {}" "length (lr_entries c1) = Suc (length xs) + length (lr_free_list c1)"
      "length (lr_entries c1) \<le> lr_capacity c"
    using allocate_entry_fresh [OF rep room, of v thesis] by simp
  let ?c1 = "c1\<lparr>lr_map := hm_insert key i (lr_map c1)\<rparr>"
  have "list_ok ?c1 (map snd xs)"
    using represents_listD(1) [OF rep] c1(2,3,5,6) by (simp add: list_ok_def dll_other)
  moreover have "slots ?c1 i = Some ?e" using c1(2) by simp
  ultimately obtain c2 where c2: "add_to_front i ?c1 = Inr c2" "list_ok c2 ((i, v) # map snd xs)" "relinked ?c1 c2"
    using add_to_front_ok [of ?c1 "map snd xs" i ?e v] c1(3) by auto
  note r = relinkedD [OF c2(3)]
  have "hm_get (hm_insert key i (lr_map c)) k = map_option fst (map_of ((key, i, v) # xs) k)" for k
    using represents_listD(3) [OF rep, of k] by (simp add: hm_lookup)
  moreover have "distinct (map fst ((key, i, v) # xs))"
    using represents_listD(2) [OF rep] key by (simp add: map_of_eq_None_iff)
  moreover have "list_ok (c2\<lparr>lr_size := lr_size c2 + 1\<rparr>) (map snd ((key, i, v) # xs))" using c2(2) by (simp add: list_ok_def)
  ultimately have "represents_list (c2\<lparr>lr_size := lr_size c2 + 1\<rparr>) ((key, i, v) # xs)"
    unfolding represents_list_def using c1 D r room by (auto simp: hm_lookup)
  with c1(1,7) c2(1) r(3) show ?thesis by auto
qed

lemma lru_put_present:
  assumes rep: "represents_list c xs" and kvs: "kvs = contents xs" and Some: "map_of xs key = Some iv"
  shows "\<exists>c'. lru_put key val c = Inr (fst (spec_put (lr_capacity c) key val kvs), c') \<and>
    lru_rep c' (snd (spec_put (lr_capacity c) key val kvs)) \<and> lr_capacity c' = lr_capacity c"
proof -
  obtain i v where iv: "iv = (i, v)" by (cases iv)
  obtain as bs where s: "xs = as @ (key, i, v) # bs" "AList.delete key (contents xs) = contents as @ contents bs"
    using split_at_key [OF Some [unfolded iv] represents_listD(2) [OF rep]] by blast
  let ?c = "set_slot i (\<lambda>entry. entry\<lparr>ce_value := val\<rparr>) c"
  have ok: "list_ok c (map snd as @ (i, v) # map snd bs)" using represents_listD(1) [OF rep] by (simp add: s)
  then obtain e where e: "slots c i = Some e" "ce_value e = v"
    using dll_slot [of "slots c" None "map snd as @ (i, v) # map snd bs" None i v] by (auto simp: list_ok_def)
  have ok': "list_ok ?c (map snd as @ (i, val) # map snd bs)"
    using ok dll_change_value [of "slots c" None "map snd as" i v "map snd bs" None val]
    by (auto simp: list_ok_def image_Un simp del: dll.simps)
  obtain c' where c': "move_to_front i ?c = Inr c'" "list_ok c' ((i, val) # map snd as @ map snd bs)" "relinked ?c c'"
    using move_to_front_ok [OF ok'] by blast
  have r: "relinked c c'" by (rule relinked_trans [OF _ c'(3)]) simp
  have "map_of ((key, i, val) # as @ bs) k = (if k = key then Some (i, val) else map_of xs k)" for k
    using map_of_without(1) [OF represents_listD(2) [OF rep, unfolded s], of k] by (simp add: s)
  then have "represents_list c' ((key, i, val) # as @ bs)"
    using rep c'(2) relinkedD [OF r] Some iv unfolding represents_list_def s by auto
  moreover have "spec_put (lr_capacity c) key val kvs = (Some v, contents ((key, i, val) # as @ bs))"
    using Some iv s(2) by (simp add: spec_put_def kvs map_of_contents)
  moreover have "lru_put key val c = Inr (Some v, c')"
    using Some iv e c'(1) by (simp add: lru_put_def represents_listD(3) [OF rep, of key] entry_at_slots update_entry_slots)
  ultimately show ?thesis using relinkedD(3) [OF r] by (simp add: lru_repI del: contents_simps)
qed

lemma make_room:
  assumes rep: "represents_list c xs" and None: "map_of xs key = None"
  obtains c1 evicted ys where "(if lr_capacity c \<le> lr_size c then evict_lru c else Inr (None, c)) = Inr (evicted, c1)"
    "represents_list c1 ys" "lr_capacity c1 = lr_capacity c" "length ys < lr_capacity c" "map_of ys key = None"
    "spec_put (lr_capacity c) key val (contents xs) = (evicted, (key, val) # contents ys)"
proof -
  have cap: "length xs \<le> lr_capacity c" "0 < lr_capacity c" and sz: "lr_size c = length xs"
    using rep by (auto simp: represents_list_def)
  show thesis
  proof (cases "lr_capacity c \<le> lr_size c")
    case True
    then have "xs \<noteq> []" using cap sz by auto
    then obtain ys k i v where ys: "xs = ys @ [(k, i, v)]" by (metis prod_cases3 rev_exhaust)
    obtain c1 where "evict_lru c = Inr (Some v, c1)" "represents_list c1 ys" "lr_capacity c1 = lr_capacity c"
      using evict_lru_ok [OF rep [unfolded ys]] by blast
    moreover have "map_of ys key = None" using None ys by (simp add: map_of_eq_None_iff)
    moreover have "spec_put (lr_capacity c) key val (contents xs) = (Some v, (key, val) # contents ys)"
    proof -
      have "map_of (contents xs) key = None" by (simp add: map_of_contents None)
      moreover have "lr_capacity c \<le> length (contents xs)" using True sz by simp
      ultimately show ?thesis by (simp add: spec_put_def) (simp add: ys)
    qed
    moreover have "length ys < lr_capacity c" using cap ys by simp
    ultimately show thesis using that [of "Some v" c1 ys] True by simp
  next
    case False
    then show thesis using that [of None c xs] rep None sz by (simp add: spec_put_def map_of_contents)
  qed
qed

lemma lru_put_absent:
  assumes rep: "represents_list c xs" and kvs: "kvs = contents xs" and None: "map_of xs key = None"
  shows "\<exists>c'. lru_put key val c = Inr (fst (spec_put (lr_capacity c) key val kvs), c') \<and>
    lru_rep c' (snd (spec_put (lr_capacity c) key val kvs)) \<and> lr_capacity c' = lr_capacity c"
proof -
  obtain c1 evicted ys where c1: "(if lr_capacity c \<le> lr_size c then evict_lru c else Inr (None, c)) = Inr (evicted, c1)"
      "represents_list c1 ys" "lr_capacity c1 = lr_capacity c" "length ys < lr_capacity c" "map_of ys key = None"
      "spec_put (lr_capacity c) key val kvs = (evicted, (key, val) # contents ys)"
    using make_room [OF rep None, of val thesis] by (simp add: kvs)
  obtain i c2 c3 where "allocate_entry val c1 = Inr (i, c2)" "add_to_front i (c2\<lparr>lr_map := hm_insert key i (lr_map c2)\<rparr>) = Inr c3"
      "represents_list (c3\<lparr>lr_size := lr_size c3 + 1\<rparr>) ((key, i, val) # ys)" "lr_capacity c3 = lr_capacity c1"
    using allocate_entry_ok [OF c1(2) _ c1(5), of val] c1(3,4) by auto
  moreover have "(key, val) # contents ys = contents ((key, i, val) # ys)" by simp
  ultimately show ?thesis
    using None c1(1,3,6) by (simp add: lru_put_def represents_listD(3) [OF rep, of key] lru_repI del: contents_simps)
qed

lemma lru_put_refines:
  assumes "lru_rep c kvs"
  shows "\<exists>c'. lru_put key val c = Inr (fst (spec_put (lr_capacity c) key val kvs), c') \<and>
    lru_rep c' (snd (spec_put (lr_capacity c) key val kvs)) \<and> lr_capacity c' = lr_capacity c"
proof -
  obtain xs where "represents_list c xs" "kvs = contents xs" using assms by (auto simp: lru_rep_def)
  then show ?thesis by (cases "map_of xs key") (simp_all only: lru_put_absent lru_put_present)
qed

lemma lru_remove_refines:
  assumes "lru_rep c kvs"
  shows "\<exists>c'. lru_remove key c = Inr (fst (spec_remove key kvs), c') \<and> lru_rep c' (snd (spec_remove key kvs)) \<and>
    lr_capacity c' = lr_capacity c"
proof -
  obtain xs where xs: "represents_list c xs" "kvs = contents xs" using assms by (auto simp: lru_rep_def)
  note get = represents_listD(3) [OF xs(1), of key]
  show ?thesis
  proof (cases "map_of xs key")
    case None
    then have "AList.delete key kvs = kvs" "map_of kvs key = None"
      by (simp_all add: xs(2) map_of_contents map_of_eq_None_iff [symmetric])
    with None assms show ?thesis by (simp add: lru_remove_def spec_remove_def get)
  next
    case (Some iv)
    obtain i v where iv: "iv = (i, v)" by (cases iv)
    obtain as bs where s: "xs = as @ (key, i, v) # bs" "AList.delete key (contents xs) = contents (as @ bs)"
      using split_at_key [OF Some [unfolded iv] represents_listD(2) [OF xs(1)]] by auto
    have wf: "hm_wf (hm_remove key (lr_map c))" using xs(1) by (simp add: represents_list_def distinct_delete)
    obtain c1 c2 e where u: "remove_from_list i c = Inr c1" "take_entry i c1 = Inr (Some e, c2)" "ce_value e = v"
        "represents_list (c2\<lparr>lr_free_list := lr_free_list c2 @ [i], lr_size := lr_size c2 - 1, lr_map := hm_remove key (lr_map c)\<rparr>) (as @ bs)"
        "lr_capacity c2 = lr_capacity c"
      using unlink_ok [OF xs(1) [unfolded s(1)] wf] by (auto simp: hm_lookup)
    have "remove_from_list i (c\<lparr>lr_map := m\<rparr>) = Inr (c1\<lparr>lr_map := m\<rparr>)" "take_entry i (c1\<lparr>lr_map := m\<rparr>) = Inr (Some e, c2\<lparr>lr_map := m\<rparr>)" for m
      using u(1,2) remove_from_list_map take_entry_map by blast+
    then have "lru_remove key c = Inr (Some v,
        c2\<lparr>lr_free_list := lr_free_list c2 @ [i], lr_size := lr_size c2 - 1, lr_map := hm_remove key (lr_map c)\<rparr>)"
      using Some iv u(3) by (cases c2) (simp add: lru_remove_def get)
    moreover have "spec_remove key kvs = (Some v, contents (as @ bs))"
      using Some iv s(2) by (simp add: spec_remove_def xs(2) map_of_contents)
    ultimately show ?thesis using lru_repI [OF u(4)] u(5) by simp
  qed
qed

lemma lru_clear_refines: "lru_rep c kvs \<Longrightarrow> lru_rep (lru_clear c) [] \<and> lr_capacity (lru_clear c) = lr_capacity c"
  by (auto simp: lru_rep_def represents_list_def lru_clear_def list_ok_def intro!: exI [of _ "[]"])

lemma lru_rep_observes:
  assumes "lru_rep c kvs"
  shows "lru_len c = length kvs \<and> length kvs \<le> lr_capacity c \<and> length (lr_entries c) \<le> lr_capacity c \<and>
    distinct (map fst kvs) \<and> lru_contains key c = (key \<in> fst ` set kvs)"
proof -
  obtain xs where xs: "represents_list c xs" "kvs = contents xs" using assms by (auto simp: lru_rep_def)
  have "lru_contains key c = (map_of kvs key \<noteq> None)"
    using represents_listD(3) [OF xs(1), of key] by (simp add: lru_contains_def xs(2) map_of_contents)
  then have "lru_contains key c = (key \<in> fst ` set kvs)" by (simp add: map_of_eq_None_iff)
  with xs show ?thesis unfolding represents_list_def by (simp add: lru_len_def)
qed

section \<open>Runs of operations\<close>

datatype ('k, 'v) lru_op = OpGet 'k | OpPut 'k 'v | OpRemove 'k | OpClear

fun lru_step :: "('k, 'v) lru_op \<Rightarrow> ('k, 'v) lru_cache \<Rightarrow> panic + 'v option \<times> ('k, 'v) lru_cache" where
  "lru_step (OpGet key) c = lru_get key c"
| "lru_step (OpPut key val) c = lru_put key val c"
| "lru_step (OpRemove key) c = lru_remove key c"
| "lru_step OpClear c = Inr (None, lru_clear c)"

fun spec_step :: "nat \<Rightarrow> ('k, 'v) lru_op \<Rightarrow> ('k \<times> 'v) list \<Rightarrow> 'v option \<times> ('k \<times> 'v) list" where
  "spec_step capacity (OpGet key) kvs = spec_get key kvs"
| "spec_step capacity (OpPut key val) kvs = spec_put capacity key val kvs"
| "spec_step capacity (OpRemove key) kvs = spec_remove key kvs"
| "spec_step capacity OpClear kvs = (None, [])"

fun lru_run :: "('k, 'v) lru_op list \<Rightarrow> ('k, 'v) lru_cache \<Rightarrow> panic + 'v option list \<times> ('k, 'v) lru_cache" where
  "lru_run [] c = Inr ([], c)"
| "lru_run (op # ops) c =
     and_then (lru_step op c) (\<lambda>(out, c). and_then (lru_run ops c) (\<lambda>(outs, c). Inr (out # outs, c)))"

fun spec_run :: "nat \<Rightarrow> ('k, 'v) lru_op list \<Rightarrow> ('k \<times> 'v) list \<Rightarrow> 'v option list \<times> ('k \<times> 'v) list" where
  "spec_run capacity [] kvs = ([], kvs)"
| "spec_run capacity (op # ops) kvs =
     (let (out, kvs) = spec_step capacity op kvs; (outs, kvs) = spec_run capacity ops kvs in (out # outs, kvs))"

lemma lru_step_refines:
  assumes "lru_rep c kvs"
  shows "\<exists>c'. lru_step op c = Inr (fst (spec_step (lr_capacity c) op kvs), c') \<and>
    lru_rep c' (snd (spec_step (lr_capacity c) op kvs)) \<and> lr_capacity c' = lr_capacity c"
  using lru_get_refines [OF assms] lru_put_refines [OF assms] lru_remove_refines [OF assms] lru_clear_refines [OF assms]
  by (cases op) simp_all

lemma lru_run_refines:
  "lru_rep c kvs \<Longrightarrow> \<exists>c'. lru_run ops c = Inr (fst (spec_run (lr_capacity c) ops kvs), c') \<and>
     lru_rep c' (snd (spec_run (lr_capacity c) ops kvs)) \<and> lr_capacity c' = lr_capacity c"
proof (induction ops arbitrary: c kvs)
  case (Cons op ops)
  obtain c1 where c1: "lru_step op c = Inr (fst (spec_step (lr_capacity c) op kvs), c1)"
      "lru_rep c1 (snd (spec_step (lr_capacity c) op kvs))" "lr_capacity c1 = lr_capacity c"
    using lru_step_refines [OF Cons.prems] by blast
  from Cons.IH [OF c1(2)] c1(1,3) show ?case by (auto simp: Let_def split_beta)
qed simp

section \<open>Properties\<close>

text \<open>Property C5: the linked cache implements the LRU list. For every capacity and every sequence of gets,
  puts, removals and clears, no slot access panics and the answers are those of a plain list that is
  reordered on use and drops its last pair when a new key exceeds the capacity. The size, the vector of
  slots and the list never exceed the capacity, and the keys the cache contains are those of the list.\<close>

theorem lru_cache_refines_list:
  "\<exists>c. lru_run ops (lru_new capacity) = Inr (fst (spec_run (max capacity 1) ops []), c) \<and>
     lru_len c = length (snd (spec_run (max capacity 1) ops [])) \<and> lru_len c \<le> max capacity 1 \<and>
     length (lr_entries c) \<le> max capacity 1 \<and> distinct (map fst (snd (spec_run (max capacity 1) ops []))) \<and>
     (\<forall>key. lru_contains key c = (key \<in> fst ` set (snd (spec_run (max capacity 1) ops []))))"
proof -
  have cap: "lr_capacity (lru_new capacity) = max capacity 1" by (simp add: lru_new_def)
  obtain c where c: "lru_run ops (lru_new capacity) = Inr (fst (spec_run (max capacity 1) ops []), c)"
      "lru_rep c (snd (spec_run (max capacity 1) ops []))" "lr_capacity c = max capacity 1"
    using lru_run_refines [OF lru_rep_new, of ops capacity] unfolding cap by blast
  from lru_rep_observes [OF c(2)] c(1,3) show ?thesis by simp
qed

end
