(* ===== verification/Cache_Stats.thy ===== *)
theory Cache_Stats
  imports Lru_Cache Float64
begin

text \<open>
  The statistics of the cache, \<open>CacheStats::hit_rate\<close> of \<^verbatim>\<open>src/storage/cache.rs\<close>: the share of the lookups that
  found their key, as a percentage in floating-point arithmetic.
\<close>

definition hit_rate :: "cache_stats \<Rightarrow> f64" where
  "hit_rate s =
     (let total = cs_hits s + cs_misses s
      in if total = 0 then F64 0 0
         else f64_mul (f64_div (f64_of_u64 (cs_hits s)) (f64_of_u64 total)) (f64_of_u64 100))"

section \<open>The counters\<close>

definition counters :: "('k, 'v) lru_cache \<Rightarrow> u64 \<times> u64" where
  "counters c = (lr_hits c, lr_misses c)"

lemma entry_counters:
  "update_entry i f c = Inr c' \<Longrightarrow> counters c' = counters c"
  "take_entry i c = Inr (e, c') \<Longrightarrow> counters c' = counters c"
  "allocate_entry v c = Inr (j, c') \<Longrightarrow> counters c' = counters c"
  by (auto simp: counters_def update_entry_def take_entry_def allocate_entry_def Let_def split: if_splits)

lemma counters_update [simp]:
  "counters (c\<lparr>lr_map := m\<rparr>) = counters c" "counters (c\<lparr>lr_head := h\<rparr>) = counters c" "counters (c\<lparr>lr_tail := t\<rparr>) = counters c"
  "counters (c\<lparr>lr_free_list := fl\<rparr>) = counters c" "counters (c\<lparr>lr_size := n\<rparr>) = counters c"
  by (simp_all add: counters_def)

lemma list_counters:
  "remove_from_list i c = Inr c' \<Longrightarrow> counters c' = counters c"
  "add_to_front i c = Inr c' \<Longrightarrow> counters c' = counters c"
proof -
  show "add_to_front i c = Inr c' \<Longrightarrow> counters c' = counters c"
    by (auto simp: add_to_front_def and_then_eq_Inr dest!: entry_counters(1) split: option.split_asm)
  show "counters c' = counters c" if "remove_from_list i c = Inr c'"
  proof (cases "entry_at i c")
    case (Inr slot)
    with that show ?thesis
      by (cases slot; cases "ce_prev (the slot)"; cases "ce_next (the slot)")
        (auto simp: remove_from_list_def and_then_eq_Inr dest!: entry_counters(1))
  qed (use that in \<open>simp add: remove_from_list_def\<close>)
qed

lemma move_counters: "move_to_front i c = Inr c' \<Longrightarrow> counters c' = counters c"
  by (auto simp: move_to_front_def and_then_eq_Inr dest!: list_counters split: if_splits)

lemma evict_counters: "evict_lru c = Inr (v, c') \<Longrightarrow> counters c' = counters c"
  by (auto simp: evict_lru_def and_then_eq_Inr dest!: list_counters entry_counters(2) split: option.split_asm)

lemma put_counters: "lru_put key val c = Inr (out, c') \<Longrightarrow> counters c' = counters c"
  by (auto simp: lru_put_def and_then_eq_Inr dest!: list_counters(2) entry_counters(1,3) move_counters evict_counters
      split: option.split_asm if_splits)

lemma remove_counters: "lru_remove key c = Inr (out, c') \<Longrightarrow> counters c' = counters c"
  by (auto simp: lru_remove_def and_then_eq_Inr dest!: list_counters(1) entry_counters(2) split: option.splits)

lemma get_counters:
  assumes rep: "lru_rep c kvs" and get: "lru_get key c = Inr (out, c')"
  shows "counters c' = (if out \<noteq> None then (lr_hits c + 1, lr_misses c) else (lr_hits c, lr_misses c + 1))"
proof -
  have "out = map_of kvs key" using lru_get_refines [OF rep, of key] get by (auto simp: spec_get_def split: option.splits)
  then have "out \<noteq> None \<longleftrightarrow> hm_contains (lr_map c) key"
    using lru_rep_observes [OF rep, of key] hm_contains_iff [of kvs key] unfolding lru_contains_def by argo
  then show ?thesis
    using get by (auto simp: lru_get_def and_then_eq_Inr counters_def dest!: move_counters [unfolded counters_def] split: option.splits)
qed

text \<open>The answers the lookups of a run got.\<close>

fun lookups :: "('k, 'v) lru_op list \<Rightarrow> 'v option list \<Rightarrow> 'v option list" where
  "lookups (OpGet key # ops) (out # outs) = out # lookups ops outs"
| "lookups (op # ops) (out # outs) = lookups ops outs"
| "lookups ops outs = []"

definition found :: "'v option list \<Rightarrow> nat" where
  "found outs = length (filter (\<lambda>out. out \<noteq> None) outs)"

definition missed :: "'v option list \<Rightarrow> nat" where
  "missed outs = length (filter (\<lambda>out. out = None) outs)"

lemma lookups_length: "length (lookups ops outs) \<le> length ops"
  by (induction ops outs rule: lookups.induct) simp_all

lemma found_missed: "found outs + missed outs = length outs"
  using sum_length_filter_compl [of "\<lambda>out. out = None" outs] by (simp add: found_def missed_def)

lemma step_counters:
  assumes rep: "lru_rep c kvs" and step: "lru_step op c = Inr (out, c')"
  shows "counters c' = (lr_hits c + word_of_nat (found (lookups [op] [out])), lr_misses c + word_of_nat (missed (lookups [op] [out])))"
proof (cases op)
  case (OpGet key)
  then show ?thesis using get_counters [OF rep, of key out c'] step by (simp add: found_def missed_def)
next
  case (OpPut key val)
  then show ?thesis using put_counters [of key val c out c'] step by (simp add: counters_def found_def missed_def)
next
  case (OpRemove key)
  then show ?thesis using remove_counters [of key c out c'] step by (simp add: counters_def found_def missed_def)
next
  case OpClear
  then show ?thesis using step by (auto simp: counters_def lru_clear_def found_def missed_def)
qed

lemma lookups_Cons: "lookups (op # ops) (out # outs) = lookups [op] [out] @ lookups ops outs"
  by (cases op) simp_all

lemma run_counters:
  assumes "lru_rep c kvs" "lru_run ops c = Inr (outs, c')"
  shows "counters c' = (lr_hits c + word_of_nat (found (lookups ops outs)), lr_misses c + word_of_nat (missed (lookups ops outs)))"
  using assms
proof (induction ops arbitrary: c kvs outs)
  case (Cons op ops)
  obtain out c1 outs' where run: "lru_step op c = Inr (out, c1)" "lru_run ops c1 = Inr (outs', c')" "outs = out # outs'"
    using Cons.prems(2) by (auto simp: and_then_eq_Inr)
  obtain kvs' where "lru_rep c1 kvs'" using lru_step_refines [OF Cons.prems(1), of op] run(1) by auto
  from Cons.IH [OF this run(2)] step_counters [OF Cons.prems(1) run(1)] show ?case
    by (simp add: run(3) lookups_Cons [of op ops] counters_def found_def missed_def)
qed (simp add: counters_def found_def missed_def)

section \<open>Properties\<close>

text \<open>The hit rate. After any sequence of fewer than 2^64 operations on a new cache the hit rate is a
  number between 0 and 100, 0 without lookups, and it is the percentage of the lookups that found their key, up to a
  relative error of 2^-50.\<close>

theorem hit_rate_percentage:
  assumes run: "lru_run ops (lru_new capacity) = Inr (outs, c)" and few: "length ops < 2 ^ 64"
  defines "rate \<equiv> f64_val (hit_rate (lru_stats c))"
    and "exact \<equiv> 100 * (of_nat (found (lookups ops outs)) / of_nat (length (lookups ops outs)))"
  shows "0 \<le> rate \<and> rate \<le> 100 \<and> \<bar>rate - exact\<bar> \<le> exact / 2 ^ 50"
proof -
  define h n where "h = found (lookups ops outs)" and "n = length (lookups ops outs)"
  have n: "h + missed (lookups ops outs) = n" by (simp add: h_def n_def found_missed)
  then have hn: "h \<le> n" "n < 2 ^ 64" using lookups_length [of ops outs] few by (simp_all add: n_def)
  have "cs_hits (lru_stats c) = word_of_nat h" "cs_misses (lru_stats c) = word_of_nat (missed (lookups ops outs))"
    using run_counters [OF lru_rep_new run] by (simp_all add: lru_stats_def lru_new_def counters_def h_def)
  moreover have "word_of_nat h + word_of_nat (missed (lookups ops outs)) = (word_of_nat n :: u64)" by (simp flip: n)
  moreover have "unat (word_of_nat h :: u64) = h" "unat (word_of_nat n :: u64) = n"
    using hn by (simp_all add: unsigned_of_nat take_bit_nat_eq_self)
  ultimately have rate: "hit_rate (lru_stats c) =
      (if n = 0 then F64 0 0 else f64_mul (f64_div (f64_ratio h 1) (f64_ratio n 1)) (f64_ratio 100 1))"
    by (auto simp: hit_rate_def f64_of_u64_def Let_def)
  show ?thesis
  proof (cases "n = 0")
    case True
    then show ?thesis using hn(1) by (simp add: rate_def rate exact_def f64_val_def flip: h_def n_def)
  next
    case False
    then show ?thesis
      using f64_percentage [of n h] hn(1) unfolding rate_def rate exact_def h_def [symmetric] n_def [symmetric] by simp
  qed
qed

end
