(* ===== verification/Tests_Storage.thy ===== *)
theory Tests_Storage
  imports Tests_Types Jmt_Refinement Cache_Stats Page_Store
begin

text \<open>
  The unit tests of the storage layer (\<^verbatim>\<open>src/storage\<close>) on the model. The tests of the Merkle tree pass for every hash
  function of the right output length without a collision among what the test hashes.
\<close>

section \<open>\<open>storage/page.rs\<close>\<close>

definition test_page_allocation :: bool where
  "test_page_allocation =
     (let (id1, s1) = allocate store_new; (id2, s2) = allocate s1; (id3, s3) = allocate s2
      in id1 = 1 \<and> id2 = 2 \<and> id3 = 3 \<and> store_page_count s3 = 3)"

text \<open>The statements \<open>let mut page = store.read_page(id).unwrap(); page.write(0, data); store.write_page(page)\<close>.\<close>

definition modify_page :: "page_id \<Rightarrow> bytes \<Rightarrow> page_store \<Rightarrow> page_store option" where
  "modify_page pid data s =
     (case read_page s pid of
        None \<Rightarrow> None
      | Some p \<Rightarrow> (case page_write 0 data p of Inl _ \<Rightarrow> None | Inr (_, p') \<Rightarrow> Some (write_page p' s)))"

definition test_page_read_write :: bool where
  "test_page_read_write =
     (let (pid, s) = allocate store_new; data = as_bytes ''Hello, Ryther!''
      in case modify_page pid data s of
           None \<Rightarrow> False
         | Some s' \<Rightarrow> (case read_page s' pid of None \<Rightarrow> False | Some p \<Rightarrow> page_read p 0 14 = Inr (Some data)))"

definition test_dirty_tracking :: bool where
  "test_dirty_tracking =
     (let (pid, s) = allocate store_new
      in dirty_pages s = [] \<and>
         (case modify_page pid (as_bytes ''test'') s of
            None \<Rightarrow> False
          | Some s' \<Rightarrow> dirty_pages s' = [pid] \<and> dirty_pages (store_flush s') = []))"

definition test_page_free :: bool where
  "test_page_free =
     (let (pid, s) = allocate store_new; (freed, s') = free_page pid s
      in page_exists s pid \<and> freed \<and> \<not> page_exists s' pid)"

definition test_async_page_store :: bool where
  "test_async_page_store = (let (pid, a) = async_allocate async_new in async_read_page a pid \<noteq> None)"

lemmas page_defs = allocate_def store_new_def write_back_def read_page_def write_page_def page_write_def page_read_def
  page_new_def modify_page_def as_bytes_def dirty_pages_def store_flush_def mark_clean_def page_exists_def free_page_def
  store_page_count_def async_allocate_def async_new_def async_read_page_def

lemma page_tests_pass:
  "test_page_allocation" "test_page_read_write" "test_dirty_tracking" "test_page_free" "test_async_page_store"
  by (simp_all add: test_page_allocation_def test_page_read_write_def test_dirty_tracking_def test_page_free_def
      test_async_page_store_def page_defs hm_map_values_def Let_def)

text \<open>The tests of the file together.\<close>

definition page_tests :: bool where
  "page_tests \<longleftrightarrow>
     test_page_allocation \<and> test_page_read_write \<and> test_dirty_tracking \<and> test_page_free \<and> test_async_page_store"

lemma all_page_tests_pass: "page_tests"
  by (simp add: page_tests_def page_tests_pass)

section \<open>\<open>storage/cache.rs\<close>\<close>

text \<open>A test puts its assertions on the answers of a sequence of calls on a new cache.\<close>

definition answers :: "nat \<Rightarrow> (string, int) lru_op list \<Rightarrow> int option list option" where
  "answers capacity ops = (case lru_run ops (lru_new capacity) of Inl _ \<Rightarrow> None | Inr (outs, c) \<Rightarrow> Some outs)"

definition cache_after :: "nat \<Rightarrow> (string, int) lru_op list \<Rightarrow> (string, int) lru_cache option" where
  "cache_after capacity ops = (case lru_run ops (lru_new capacity) of Inl _ \<Rightarrow> None | Inr (outs, c) \<Rightarrow> Some c)"

definition test_basic_put_get :: bool where
  "test_basic_put_get =
     (answers 10 [OpPut ''a'' 1, OpPut ''b'' 2, OpPut ''c'' 3, OpGet ''a'', OpGet ''b'', OpGet ''c'', OpGet ''d''] =
        Some [None, None, None, Some 1, Some 2, Some 3, None])"

definition test_lru_eviction :: bool where
  "test_lru_eviction =
     (map_option (drop 4) (answers 3 [OpPut ''a'' 1, OpPut ''b'' 2, OpPut ''c'' 3, OpPut ''d'' 4,
        OpGet ''a'', OpGet ''b'', OpGet ''c'', OpGet ''d'']) = Some [None, Some 2, Some 3, Some 4])"

definition test_access_updates_lru :: bool where
  "test_access_updates_lru =
     (map_option (drop 5) (answers 3 [OpPut ''a'' 1, OpPut ''b'' 2, OpPut ''c'' 3, OpGet ''a'', OpPut ''d'' 4,
        OpGet ''a'', OpGet ''b'', OpGet ''c'', OpGet ''d'']) = Some [Some 1, None, Some 3, Some 4])"

definition test_update_existing :: bool where
  "test_update_existing =
     (let ops = [OpPut ''a'' 1, OpPut ''a'' 2, OpGet ''a'']
      in map_option (drop 1) (answers 10 ops) = Some [Some 1, Some 2] \<and> map_option lru_len (cache_after 10 ops) = Some 1)"

definition test_remove :: bool where
  "test_remove =
     (let ops = [OpPut ''a'' 1, OpPut ''b'' 2, OpRemove ''a'', OpGet ''a'']
      in map_option (drop 2) (answers 10 ops) = Some [Some 1, None] \<and> map_option lru_len (cache_after 10 ops) = Some 1)"

definition test_stats :: bool where
  "test_stats =
     (case cache_after 10 [OpPut ''a'' 1, OpGet ''a'', OpGet ''a'', OpGet ''b''] of
        None \<Rightarrow> False
      | Some c \<Rightarrow> (let stats = lru_stats c in cs_hits stats = 2 \<and> cs_misses stats = 1 \<and> 66 < f64_val (hit_rate stats)))"

definition test_clear :: bool where
  "test_clear =
     (map_option lru_is_empty (cache_after 10 [OpPut ''a'' 1, OpPut ''b'' 2, OpClear]) = Some True \<and>
      map_option (drop 3) (answers 10 [OpPut ''a'' 1, OpPut ''b'' 2, OpClear, OpGet ''a'']) = Some [None])"

lemma cache_tests_pass:
  "test_basic_put_get" "test_lru_eviction" "test_access_updates_lru" "test_update_existing" "test_remove" "test_clear"
  by code_simp+

lemma test_stats_passes: "test_stats"
proof -
  obtain c where c: "cache_after 10 [OpPut ''a'' 1, OpGet ''a'', OpGet ''a'', OpGet ''b''] = Some c"
    "lr_hits c = 2" "lr_misses c = 1"
  proof
    let ?c = "the (cache_after 10 [OpPut ''a'' 1, OpGet ''a'', OpGet ''a'', OpGet ''b''])"
    show "cache_after 10 [OpPut ''a'' 1, OpGet ''a'', OpGet ''a'', OpGet ''b''] = Some ?c" by code_simp
    show "lr_hits ?c = 2" "lr_misses ?c = 1" by code_simp+
  qed
  then have "hit_rate (lru_stats c) = f64_mul (f64_div (f64_ratio 2 1) (f64_ratio 3 1)) (f64_ratio 100 1)"
    by (simp add: hit_rate_def lru_stats_def f64_of_u64_def)
  then have "66 < f64_val (hit_rate (lru_stats c))" using f64_percentage(2) [of 3 2] by (simp add: abs_if split: if_split_asm)
  with c show ?thesis by (simp add: test_stats_def Let_def lru_stats_def)
qed

text \<open>The tests of the file together.\<close>

definition cache_tests :: bool where
  "cache_tests \<longleftrightarrow>
     test_basic_put_get \<and> test_lru_eviction \<and> test_access_updates_lru \<and> test_update_existing \<and> test_remove \<and>
     test_stats \<and> test_clear"

lemma all_cache_tests_pass: "cache_tests"
  by (simp add: cache_tests_def cache_tests_pass test_stats_passes)

section \<open>\<open>storage/jmt.rs\<close>\<close>

definition test_empty_tree :: bool where
  "test_empty_tree \<longleftrightarrow> jmt_root_hash jmt_new = EMPTY_HASH \<and> jmt_node_count jmt_new = 0"

definition test_single_insert :: "hash_fn \<Rightarrow> bool" where
  "test_single_insert sha =
     (let key = make_key 1 100
      in case jmt_put sha key (u256_from_u64 42) jmt_new of
           Inl p \<Rightarrow> False
         | Inr (_, tree) \<Rightarrow> jmt_root_hash tree \<noteq> EMPTY_HASH \<and>
             (case jmt_get sha tree key of Inr (Some _) \<Rightarrow> True | _ \<Rightarrow> False))"

definition test_get_nonexistent :: "hash_fn \<Rightarrow> bool" where
  "test_get_nonexistent sha =
     (let key1 = make_key 1 100; key2 = make_key 2 200
      in case jmt_put sha key1 (u256_from_u64 42) jmt_new of
           Inl p \<Rightarrow> False
         | Inr (_, tree) \<Rightarrow> jmt_get sha tree key2 = Inr None)"

definition test_update_value :: "hash_fn \<Rightarrow> bool" where
  "test_update_value sha =
     (let key = make_key 1 100
      in case jmt_put sha key (u256_from_u64 10) jmt_new of
           Inl p \<Rightarrow> False
         | Inr (_, tree1) \<Rightarrow>
             (case jmt_put sha key (u256_from_u64 20) tree1 of
                Inl p \<Rightarrow> False
              | Inr (_, tree2) \<Rightarrow>
                  (case (jmt_get sha tree1 key, jmt_get sha tree2 key) of
                     (Inr hash1, Inr hash2) \<Rightarrow> hash1 \<noteq> hash2
                   | _ \<Rightarrow> False)))"

definition ten_keys :: "(state_key \<times> u256) list" where
  "ten_keys = map (\<lambda>i. (make_key (word_of_nat i) (word_of_nat i * 100), u256_from_u64 (word_of_nat i))) [0..<10]"

definition test_multiple_keys :: "hash_fn \<Rightarrow> bool" where
  "test_multiple_keys sha =
     (case jmt_put_all sha ten_keys jmt_new of
        Inl p \<Rightarrow> False
      | Inr tree \<Rightarrow> list_all (\<lambda>(key, _). case jmt_get sha tree key of Inr (Some _) \<Rightarrow> True | _ \<Rightarrow> False) ten_keys)"

definition test_proof_verification :: "hash_fn \<Rightarrow> bool" where
  "test_proof_verification sha =
     (let key = make_key 1 100; val = u256_from_u64 42
      in case jmt_put sha key val jmt_new of
           Inl p \<Rightarrow> False
         | Inr (_, tree) \<Rightarrow>
             (case get_proof sha tree key of
                Inl p \<Rightarrow> False
              | Inr proof \<Rightarrow> verify_inclusion sha proof (sha (u256_to_be_bytes val)) = Inr True))"

definition test_root_changes_with_updates :: "hash_fn \<Rightarrow> bool" where
  "test_root_changes_with_updates sha =
     (let root0 = jmt_root_hash jmt_new
      in case jmt_put sha (make_key 1 1) (u256_from_u64 1) jmt_new of
           Inl p \<Rightarrow> False
         | Inr (_, tree1) \<Rightarrow>
             (case jmt_put sha (make_key 2 2) (u256_from_u64 2) tree1 of
                Inl p \<Rightarrow> False
              | Inr (_, tree2) \<Rightarrow>
                  root0 \<noteq> jmt_root_hash tree1 \<and> jmt_root_hash tree1 \<noteq> jmt_root_hash tree2 \<and> root0 \<noteq> jmt_root_hash tree2))"

lemma first_put:
  "jmt_put sha key val jmt_new =
     (let n = Leaf (hash_key sha key) (sha (u256_to_be_bytes val)); h = jmt_node_hash sha n
      in Inr (h, \<lparr>jt_nodes = [(h, n)], jt_root = h, jt_version = 1\<rparr>))"
  by (simp add: jmt_put_def jmt_new_def put_recursive_leaf put_node_def Let_def)

lemma single_leaf_tests_pass:
  "test_empty_tree" "test_proof_verification sha"
  by (simp_all add: test_empty_tree_def test_proof_verification_def jmt_new_def jmt_root_hash_def jmt_node_count_def
      first_put [unfolded jmt_new_def] get_proof_def collect_proof_siblings.simps verify_inclusion_def Let_def)

text \<open>The leaf of a key and a value.\<close>

definition test_leaf :: "hash_fn \<Rightarrow> state_key \<Rightarrow> u64 \<Rightarrow> jmt_node" where
  "test_leaf sha key v = Leaf (hash_key sha key) (sha (u256_to_be_bytes (u256_from_u64 v)))"

lemma test_single_insert_passes:
  assumes "jmt_node_hash sha (test_leaf sha (make_key 1 100) 42) \<noteq> EMPTY_HASH"
  shows "test_single_insert sha"
  using assms by (simp add: test_single_insert_def first_put Let_def jmt_root_hash_def jmt_get_def test_leaf_def
      get_recursive.simps)

lemma test_get_nonexistent_passes:
  assumes "hash_key sha (make_key 1 100) \<noteq> hash_key sha (make_key 2 200)"
  shows "test_get_nonexistent sha"
  using assms by (simp add: test_get_nonexistent_def first_put Let_def jmt_get_def get_recursive.simps)

lemma test_update_value_passes:
  assumes "collision_free sha {test_leaf sha (make_key 1 100) 10, test_leaf sha (make_key 1 100) 20}"
    and "sha (u256_to_be_bytes (u256_from_u64 10)) \<noteq> sha (u256_to_be_bytes (u256_from_u64 20))"
  shows "test_update_value sha"
  using assms by (simp add: test_update_value_def first_put Let_def)
    (auto simp: jmt_get_def jmt_put_def put_recursive_leaf put_node_def Let_def get_recursive.simps test_leaf_def
      collision_free_def)

lemma test_multiple_keys_passes:
  assumes "\<forall>x. length (sha x) = 32" and "collision_free sha (run_nodes sha (hashed_ops sha ten_keys) TE)"
    and "inj_on sha (state_key_to_bytes ` fst ` set ten_keys)"
  shows "test_multiple_keys sha"
proof -
  have "length (sk_address k) = 20" if "k \<in> fst ` set ten_keys" for k
    using that by (auto simp: ten_keys_def make_key_def)
  then have keys: "keys_ok sha (insert k (fst ` set ten_keys))" if "k \<in> fst ` set ten_keys" for k
    using that assms(3) by (auto simp: keys_ok_def insert_absorb)
  have "\<exists>v. map_of (rev ten_keys) k = Some v" if "k \<in> fst ` set ten_keys" for k
    using that by (metis map_of_eq_None_iff not_None_eq set_rev)
  with run_lookup [OF assms(1,2) keys] show ?thesis
    by (fastforce simp: test_multiple_keys_def list_all_iff split: sum.split option.split)
qed

lemma test_root_changes_with_updates_passes:
  assumes "\<forall>x. length (sha x) = 32"
    and cf: "collision_free sha (run_nodes sha (hashed_ops sha [(make_key 1 1, u256_from_u64 1), (make_key 2 2, u256_from_u64 2)]) TE)"
    and ne: "hash_key sha (make_key 1 1) \<noteq> hash_key sha (make_key 2 2)"
  shows "test_root_changes_with_updates sha"
proof -
  let ?K = "run_nodes sha (hashed_ops sha [(make_key 1 1, u256_from_u64 1), (make_key 2 2, u256_from_u64 2)]) TE"
  let ?v = "\<lambda>n. sha (u256_to_be_bytes (u256_from_u64 n))"
  define t1 where "t1 = tput TE (hash_key sha (make_key 1 1)) (?v 1) 0"
  define t2 where "t2 = tput t1 (hash_key sha (make_key 2 2)) (?v 2) 0"
  have K: "nodes_of sha t1 \<subseteq> ?K" "nodes_of sha t2 \<subseteq> ?K" by (auto simp: hashed_ops_def t1_def t2_def)
  obtain j1 where j1: "jmt_put sha (make_key 1 1) (u256_from_u64 1) jmt_new = Inr (jt_root j1, j1)" "represents sha ?K j1 t1"
    using jmt_put_represents [OF cf assms(1) represents_new] K(1) unfolding t1_def by blast
  obtain j2 where j2: "jmt_put sha (make_key 2 2) (u256_from_u64 2) j1 = Inr (jt_root j2, j2)" "represents sha ?K j2 t2"
    using jmt_put_represents [OF cf assms(1) j1(2)] K(2) unfolding t2_def by blast
  have t: "t1 = TL (hash_key sha (make_key 1 1)) (?v 1)" "\<exists>l r. t2 = TN l r"
    using ne by (auto simp: t1_def t2_def tput.simps [of _ _ _ 0])
  then have ns: "node_of sha t1 \<in> ?K" "node_of sha t2 \<in> ?K" "node_of sha t1 \<noteq> node_of sha t2"
    using K node_of_in [of t1 sha] node_of_in [of t2 sha] by auto
  have "jmt_node_hash sha n \<noteq> EMPTY_HASH" if "n \<in> ?K" for n using cf that by (force simp: collision_free_def)
  moreover have "jmt_node_hash sha n \<noteq> jmt_node_hash sha m" if "n \<in> ?K" "m \<in> ?K" "n \<noteq> m" for n m
    using cf that by (auto simp: collision_free_def dest: inj_onD)
  ultimately have "trie_hash sha t1 \<noteq> EMPTY_HASH" "trie_hash sha t2 \<noteq> EMPTY_HASH" "trie_hash sha t1 \<noteq> trie_hash sha t2"
    using ns unfolding trie_hash_node by blast+
  then show ?thesis using j1 j2
    by (simp add: test_root_changes_with_updates_def Let_def jmt_root_hash_def represents_def) (simp add: jmt_new_def)
qed

text \<open>The tests of the file together.\<close>

definition jmt_tests :: "hash_fn \<Rightarrow> bool" where
  "jmt_tests sha \<longleftrightarrow>
     test_empty_tree \<and> test_single_insert sha \<and> test_get_nonexistent sha \<and> test_update_value sha \<and>
     test_multiple_keys sha \<and> test_proof_verification sha \<and> test_root_changes_with_updates sha"

lemma all_jmt_tests_pass:
  assumes "\<forall>x. length (sha x) = 32"
    and "jmt_node_hash sha (test_leaf sha (make_key 1 100) 42) \<noteq> EMPTY_HASH"
    and "hash_key sha (make_key 1 100) \<noteq> hash_key sha (make_key 2 200)"
    and "collision_free sha {test_leaf sha (make_key 1 100) 10, test_leaf sha (make_key 1 100) 20}"
    and "sha (u256_to_be_bytes (u256_from_u64 10)) \<noteq> sha (u256_to_be_bytes (u256_from_u64 20))"
    and "collision_free sha (run_nodes sha (hashed_ops sha ten_keys) TE)"
    and "inj_on sha (state_key_to_bytes ` fst ` set ten_keys)"
    and "collision_free sha (run_nodes sha (hashed_ops sha
      [(make_key 1 1, u256_from_u64 1), (make_key 2 2, u256_from_u64 2)]) TE)"
    and "hash_key sha (make_key 1 1) \<noteq> hash_key sha (make_key 2 2)"
  shows "jmt_tests sha"
  using assms by (simp add: jmt_tests_def single_leaf_tests_pass test_single_insert_passes test_get_nonexistent_passes test_update_value_passes test_multiple_keys_passes test_root_changes_with_updates_passes)

end
