(* ===== verification/Tests_Network.thy ===== *)
theory Tests_Network
  imports Tests_Consensus Transport Gossip
begin

text \<open>
  The unit tests of the network layer (\<^verbatim>\<open>src/network\<close>) on the model. The clock readings and the message identifiers are
  arguments, and the tests pass for all of them.
\<close>

section \<open>\<open>network/message.rs\<close>\<close>

definition test_message_serialization ::
    "(network_message \<Rightarrow> bytes option) \<Rightarrow> (bytes \<Rightarrow> network_message option) \<Rightarrow> bytes \<Rightarrow> bool" where
  "test_message_serialization serialize deserialize mid =
     (let msg = message_new mid (replicate 32 0x42) (Ping 12345); bs = to_bytes serialize msg
      in case from_bytes deserialize bs of
           None \<Rightarrow> False
         | Some recovered \<Rightarrow> nm_sender recovered = nm_sender msg \<and> nm_message_id recovered = nm_message_id msg)"

definition test_hello_message ::
    "(network_message \<Rightarrow> bytes option) \<Rightarrow> (bytes \<Rightarrow> network_message option) \<Rightarrow> bytes \<Rightarrow> bool" where
  "test_hello_message serialize deserialize mid =
     (let hello = \<lparr>hl_version = 1, hl_chain_id = 1, hl_genesis_hash = replicate 32 0xAB, hl_validator_id = None, hl_latest_round = 100\<rparr>;
          msg = message_new mid (replicate 32 0x42) (Hello hello); bs = to_bytes serialize msg
      in bs \<noteq> [] \<and>
         (case from_bytes deserialize bs of
            None \<Rightarrow> False
          | Some recovered \<Rightarrow>
              (case nm_payload recovered of Hello h \<Rightarrow> hl_chain_id h = 1 \<and> hl_latest_round h = 100 | _ \<Rightarrow> False)))"

definition test_unique_message_ids :: "bytes \<Rightarrow> bytes \<Rightarrow> bool" where
  "test_unique_message_ids mid1 mid2 \<longleftrightarrow>
     nm_message_id (message_new mid1 (replicate 32 0x42) (Ping 1)) \<noteq> nm_message_id (message_new mid2 (replicate 32 0x42) (Ping 2))"

lemma message_tests_pass:
  assumes "bincode_ok serialize deserialize" and "\<And>m. serialize m \<noteq> None \<and> serialize m \<noteq> Some []" and "mid1 \<noteq> mid2"
  shows "test_message_serialization serialize deserialize mid1" "test_hello_message serialize deserialize mid1"
    "test_unique_message_ids mid1 mid2"
proof -
  have r: "\<exists>b bs. serialize m = Some (b # bs) \<and> deserialize (b # bs) = Some m" for m
    using assms(1,2) unfolding bincode_ok_def by (metis neq_Nil_conv option.exhaust)
  show "test_message_serialization serialize deserialize mid1"
    using r [of "message_new mid1 (replicate 32 0x42) (Ping 12345)"]
    by (auto simp: test_message_serialization_def Let_def to_bytes_def from_bytes_def)
  show "test_hello_message serialize deserialize mid1"
    using r [of "message_new mid1 (replicate 32 0x42) (Hello \<lparr>hl_version = 1, hl_chain_id = 1,
        hl_genesis_hash = replicate 32 0xAB, hl_validator_id = None, hl_latest_round = 100\<rparr>)"]
    by (auto simp: test_hello_message_def Let_def to_bytes_def from_bytes_def) (simp add: message_new_def)
  show "test_unique_message_ids mid1 mid2" using assms(3) by (simp add: test_unique_message_ids_def message_new_def)
qed

text \<open>The tests of the file together.\<close>

definition message_tests :: "(network_message \<Rightarrow> bytes option) \<Rightarrow> (bytes \<Rightarrow> network_message option) \<Rightarrow> bytes \<Rightarrow> bytes \<Rightarrow> bool" where
  "message_tests serialize deserialize mid1 mid2 \<longleftrightarrow>
     test_message_serialization serialize deserialize mid1 \<and> test_hello_message serialize deserialize mid1 \<and>
     test_unique_message_ids mid1 mid2"

lemma all_message_tests_pass:
  assumes "bincode_ok serialize deserialize"
    and "\<And>m. serialize m \<noteq> None \<and> serialize m \<noteq> Some []"
    and "mid1 \<noteq> mid2"
  shows "message_tests serialize deserialize mid1 mid2"
  using assms by (simp add: message_tests_def message_tests_pass)

section \<open>\<open>network/peer.rs\<close>\<close>

definition make_addr :: "u16 \<Rightarrow> socket_addr" where
  "make_addr prt = SocketV4 [127, 0, 0, 1] prt"

definition make_peer_id :: "u8 \<Rightarrow> peer_id" where
  "make_peer_id i = (replicate 32 0)[0 := i]"

definition test_add_peer :: "nat \<Rightarrow> bool" where
  "test_add_peer now =
     (let (added, m) = add_peer now (make_peer_id 1) (make_addr 8000) (pm_new (make_peer_id 0) 100)
      in added \<and> peer_count m = 1)"

definition test_no_self_connect :: "nat \<Rightarrow> bool" where
  "test_no_self_connect now =
     (let local_id = make_peer_id 0; (added, m) = add_peer now local_id (make_addr 8000) (pm_new local_id 100)
      in \<not> added \<and> peer_count m = 0)"

definition test_connected_peers :: "nat \<Rightarrow> bool" where
  "test_connected_peers now =
     (let m1 = snd (add_peer now (make_peer_id 1) (make_addr 8001) (pm_new (make_peer_id 0) 100));
          m2 = snd (add_peer now (make_peer_id 2) (make_addr 8002) m1);
          m3 = set_state now (make_peer_id 1) Connected m2
      in connected_count m3 = 1)"

definition test_reputation :: "nat \<Rightarrow> bool" where
  "test_reputation now =
     (let pid = make_peer_id 1;
          m1 = snd (add_peer now pid (make_addr 8000) (pm_new (make_peer_id 0) 100));
          m2 = reward_peer pid 10 m1; m3 = penalize_peer pid 5 m2
      in map_option pi_reputation (get_peer m2 pid) = Some 10 \<and> map_option pi_reputation (get_peer m3 pid) = Some 5)"

definition test_max_peers :: "nat \<Rightarrow> bool" where
  "test_max_peers now =
     (let (r1, m1) = add_peer now (make_peer_id 1) (make_addr 8001) (pm_new (make_peer_id 0) 2);
          (r2, m2) = add_peer now (make_peer_id 2) (make_addr 8002) m1;
          (r3, m3) = add_peer now (make_peer_id 3) (make_addr 8003) m2
      in r1 \<and> r2 \<and> \<not> r3 \<and> peer_count m3 = 2)"

lemma make_peer_id_inject [simp]: "make_peer_id a = make_peer_id b \<longleftrightarrow> a = b"
  by (auto simp: make_peer_id_def dest: arg_cong [where f = "\<lambda>l. l ! 0"])

lemmas peer_defs = add_peer_def pm_new_def peer_count_def connected_count_def set_state_def with_peer_def hm_modify_def
  peer_info_new_def peer_touch_def reward_peer_def penalize_peer_def peer_reward_def peer_penalize_def get_peer_def

lemma peer_tests_pass:
  "test_add_peer now" "test_no_self_connect now" "test_connected_peers now" "test_max_peers now"
  by (simp_all add: test_add_peer_def test_no_self_connect_def test_connected_peers_def test_max_peers_def peer_defs Let_def)

lemma test_reputation_passes: "test_reputation now"
  by (simp add: test_reputation_def peer_defs Let_def i32_saturating_add_def i32_saturating_sub_def i32_saturate_def)

text \<open>The tests of the file together.\<close>

definition peer_tests :: "nat \<Rightarrow> bool" where
  "peer_tests now \<longleftrightarrow>
     test_add_peer now \<and> test_no_self_connect now \<and> test_connected_peers now \<and> test_reputation now \<and>
     test_max_peers now"

lemma all_peer_tests_pass: "peer_tests now"
  by (simp add: peer_tests_def peer_tests_pass test_reputation_passes)

section \<open>\<open>network/gossip.rs\<close>\<close>

definition test_gossip_creation :: bool where
  "test_gossip_creation = (pending_fetch_count (gossip_new (make_peer_id 0) gossip_config_default) = 0)"

definition five_peers :: "nat \<Rightarrow> peer_manager" where
  "five_peers now =
     fold (\<lambda>i m. set_state now (make_peer_id i) Connected (snd (add_peer now (make_peer_id i) (make_addr 8000) m)))
       [1, 2, 3, 4, 5] (pm_new (make_peer_id 0) 100)"

definition test_broadcast_event :: "hash_fn \<Rightarrow> nat \<Rightarrow> (nat \<Rightarrow> bytes) \<Rightarrow> bool" where
  "test_broadcast_event sha now mids =
     (let event = make_event sha 0 1 [];
          (messages, n) = broadcast_event mids event
            \<lparr>gn_gossip = gossip_new (make_peer_id 0) gossip_config_default, gn_peers = five_peers now, gn_dag = dag_new\<rparr>
      in messages \<noteq> [] \<and> dag_contains (gn_dag n) (ev_id event))"

definition test_deduplication :: "nat \<Rightarrow> bool" where
  "test_deduplication now =
     (let g = gossip_new (make_peer_id 0) gossip_config_default; msg_id = replicate 16 0xAB
      in \<not> is_seen g msg_id \<and> is_seen (mark_seen now msg_id g) msg_id)"

definition test_event_request_response :: "hash_fn \<Rightarrow> bytes \<Rightarrow> bool" where
  "test_event_request_response sha mid =
     (let event = make_event sha 1 1 [];
          n = \<lparr>gn_gossip = gossip_new (make_peer_id 0) gossip_config_default, gn_peers = pm_new (make_peer_id 0) 100,
               gn_dag = dag_insert event dag_new\<rparr>
      in case handle_event_request mid (make_peer_id 2) \<lparr>eq_event_ids = [ev_id event]\<rparr> n of
           None \<Rightarrow> False
         | Some response \<Rightarrow>
             (case nm_payload response of EventResponse resp \<Rightarrow> length (es_events resp) = 1 \<and> es_missing resp = [] | _ \<Rightarrow> False))"

lemma gossip_tests_pass: "test_gossip_creation" "test_deduplication now"
  by (simp_all add: test_gossip_creation_def test_deduplication_def pending_fetch_count_def gossip_new_def is_seen_def
      mark_seen_def Let_def)

lemma five_peers_connected: "length (connected_peers (five_peers now)) = 5"
  by (simp add: five_peers_def connected_peers_def peer_defs)

lemma test_broadcast_event_passes: "test_broadcast_event sha now mids"
proof -
  have "length (best_peers 8 (five_peers now)) = 5"
    using five_peers_connected [of now] by (simp add: best_peers_def connected_peers_def)
  then have "best_peers 8 (five_peers now) \<noteq> []" by auto
  then show ?thesis
    by (simp add: test_broadcast_event_def broadcast_event_def gossip_new_def gossip_config_default_def Let_def dag_contains_iff
        enumerate_eq_zip)
qed

lemma test_event_request_response_passes: "test_event_request_response sha mid"
  by (simp add: test_event_request_response_def handle_event_request_def Let_def message_new_def)

text \<open>The tests of the file together.\<close>

definition gossip_tests :: "hash_fn \<Rightarrow> nat \<Rightarrow> (nat \<Rightarrow> bytes) \<Rightarrow> bytes \<Rightarrow> bool" where
  "gossip_tests sha now mids mid \<longleftrightarrow>
     test_gossip_creation \<and> test_broadcast_event sha now mids \<and> test_deduplication now \<and>
     test_event_request_response sha mid"

lemma all_gossip_tests_pass: "gossip_tests sha now mids mid"
  by (simp add: gossip_tests_def gossip_tests_pass test_broadcast_event_passes test_event_request_response_passes)

section \<open>\<open>network/transport.rs\<close>\<close>

definition test_transport_creation :: bool where
  "test_transport_creation =
     (let transport = transport_new (make_peer_id 0) (transport_config_default\<lparr>tc_listen_addr := make_addr 0\<rparr>)
      in connection_count transport = 0 \<and> fst (take_receiver transport))"

text \<open>The operating system refuses the connection or does not answer in time.\<close>

definition test_connect_nonexistent :: "nat \<Rightarrow> io_error \<Rightarrow> bool" where
  "test_connect_nonexistent now e =
     (let config = transport_config_default\<lparr>tc_listen_addr := make_addr 0, tc_connect_timeout_ms := 100\<rparr>;
          n = (transport_new (make_peer_id 0) config, pm_new (make_peer_id 0) 100)
      in case fst (connect now (make_peer_id 1) (make_addr 59999) (Inl e) n) of Inl _ \<Rightarrow> True | Inr _ \<Rightarrow> False)"

lemma transport_tests_pass: "test_transport_creation" "test_connect_nonexistent now e"
  by (simp_all add: test_transport_creation_def test_connect_nonexistent_def transport_new_def connection_count_def
      take_receiver_def connect_def is_connected_def Let_def)

text \<open>The tests of the file together.\<close>

definition transport_tests :: "nat \<Rightarrow> io_error \<Rightarrow> bool" where
  "transport_tests now e \<longleftrightarrow>
     test_transport_creation \<and> test_connect_nonexistent now e"

lemma all_transport_tests_pass: "transport_tests now e"
  by (simp add: transport_tests_def transport_tests_pass)

end
