(* ===== verification/Tests_Node.thy ===== *)
theory Tests_Node
  imports Tests_Types Rpc
begin

text \<open>
  The unit tests of cryptography and node (\<^verbatim>\<open>src/crypto\<close>, \<^verbatim>\<open>src/node\<close>) on the model. What comes from other crates,
  clock readings and random numbers are arguments; a test passes for all that satisfy what the statement names. Left out
  are the tests whose outcome is decided by \<open>blst\<close> alone, by a random identifier or by derived serialization, and
  \<open>test_encrypt_decrypt_roundtrip\<close>, which asserts nothing.
\<close>

section \<open>\<open>crypto/bls.rs\<close>\<close>

definition test_sign_verify :: "('sk, 'pk, 'sg, 'ag) blst \<Rightarrow> bytes \<Rightarrow> bool" where
  "test_sign_verify b ikm =
     (case secret_key_generate b ikm of
        Inl p \<Rightarrow> False
      | Inr sk \<Rightarrow>
          (let pk = public_key b sk; message = as_bytes ''Hello, Ryther!''; signature = sign b sk message
           in verify b pk signature message = Inr ()))"

definition test_key_serialization :: "('sk, 'pk, 'sg, 'ag) blst \<Rightarrow> bytes \<Rightarrow> bool" where
  "test_key_serialization b ikm =
     (case secret_key_generate b ikm of
        Inl p \<Rightarrow> False
      | Inr sk \<Rightarrow>
          (let pk = public_key b sk; message = as_bytes ''Test message''
           in case (secret_key_from_bytes b (secret_key_to_bytes b sk), public_key_from_bytes b (public_key_to_bytes b pk)) of
                (Inr sk2, Inr pk2) \<Rightarrow> verify b pk2 (sign b sk2 message) message = Inr ()
              | _ \<Rightarrow> False))"

lemma bls_tests_pass:
  assumes "blst_ok b" and "bl_key_gen b ikm = Some sk" and "bl_sk_from_bytes b (bl_sk_to_bytes b sk) = Some sk"
  shows "test_sign_verify b ikm" "test_key_serialization b ikm"
  using assms by (simp_all add: blst_ok_def test_sign_verify_def test_key_serialization_def Let_def secret_key_generate_def
      public_key_def sign_def verify_def secret_key_from_bytes_def secret_key_to_bytes_def public_key_from_bytes_def
      public_key_to_bytes_def)

section \<open>\<open>crypto/threshold.rs\<close>\<close>

definition make_validators :: "nat \<Rightarrow> validator_id list" where
  "make_validators n = map (\<lambda>i. replicate 48 (word_of_nat i)) [0..<n]"

definition is_error :: "'e + 'a \<Rightarrow> bool" where
  "is_error r = (case r of Inl _ \<Rightarrow> True | Inr _ \<Rightarrow> False)"

definition test_threshold_params :: bool where
  "test_threshold_params \<longleftrightarrow>
     (case params_new 5 3 of Inl _ \<Rightarrow> False | Inr params \<Rightarrow> tp_total_shares params = 5 \<and> tp_threshold params = 3) \<and>
     is_error (params_new 5 0) \<and> is_error (params_new 5 6)"

definition test_bft_safe_params :: bool where
  "test_bft_safe_params \<longleftrightarrow> tp_threshold (bft_safe 4) = 3 \<and> tp_threshold (bft_safe 7) = 5"

definition test_shamir_split_reconstruct :: "(bytes \<Rightarrow> 'r) \<Rightarrow> 'r rng_fill \<Rightarrow> bool" where
  "test_shamir_split_reconstruct from_seed fill =
     (case params_new 5 3 of
        Inl _ \<Rightarrow> False
      | Inr params \<Rightarrow>
          (let sss = sss_with_seed from_seed params (replicate 32 42); secret = replicate 32 0xAB
           in case split_secret fill secret (make_validators 5) sss of
                Inl _ \<Rightarrow> False
              | Inr (shares, sss') \<Rightarrow>
                  length shares = 5 \<and>
                  (case reconstruct (take 3 shares) sss' of Inl _ \<Rightarrow> False | Inr reconstructed \<Rightarrow> length reconstructed = 32)))"

definition test_shamir_insufficient_shares :: "'r \<Rightarrow> bool" where
  "test_shamir_insufficient_shares rng =
     (case params_new 5 3 of
        Inl _ \<Rightarrow> False
      | Inr params \<Rightarrow>
          is_error (reconstruct
            [\<lparr>sh_index = 1, sh_value = replicate 32 1, sh_holder = replicate 48 0\<rparr>,
             \<lparr>sh_index = 2, sh_value = replicate 32 2, sh_holder = replicate 48 1\<rparr>] (sss_new params rng)))"

definition test_threshold_encryptor :: "'r rng_fill \<Rightarrow> hash_fn \<Rightarrow> bytes \<Rightarrow> bytes \<Rightarrow> 'r \<Rightarrow> bool" where
  "test_threshold_encryptor fill sha key nonce rng =
     (case params_new 5 3 of
        Inl _ \<Rightarrow> False
      | Inr params \<Rightarrow>
          (let plaintext = as_bytes ''Hello, Ryther!''
           in case encrypt fill sha key nonce plaintext (make_validators 5) (encryptor_new params rng) of
                Inl _ \<Rightarrow> False
              | Inr (encrypted, _) \<Rightarrow>
                  length (ep_ciphertext encrypted) = length plaintext \<and> length (ep_key_shares encrypted) = 5 \<and>
                  ep_commitment encrypted = sha plaintext))"

definition test_dkg_session :: "'r rng_fill \<Rightarrow> hash_fn \<Rightarrow> 'r \<Rightarrow> bool" where
  "test_dkg_session fill sha rng =
     (let dkg = dkg_new (replicate 32 0) (make_validators 4);
          (commitments, dkg') = generate_contribution fill sha rng dkg
      in length commitments = unat (tp_threshold (dkg_params dkg')) \<and> length (generate_shares dkg') = 4)"

lemma params_tests_pass: "test_threshold_params" "test_bft_safe_params" "test_shamir_insufficient_shares rng"
  by (simp_all add: test_threshold_params_def test_bft_safe_params_def test_shamir_insufficient_shares_def params_new_def
      is_error_def bft_safe_def reconstruct_def sss_new_def)

lemma length_draw: "length (fst (draw fill n rng)) = n"
  by (induction n arbitrary: rng) (simp_all add: Let_def case_prod_beta)

lemma test_threshold_encryptor_passes: "test_threshold_encryptor fill sha key nonce rng"
  by (simp add: test_threshold_encryptor_def params_new_def encrypt_def split_secret_def encryptor_new_def sss_new_def
      make_validators_def Let_def split: prod.split)

lemma make_validators_4: "make_validators 4 = [replicate 48 0, replicate 48 1, replicate 48 2, replicate 48 3]"
  by (simp add: make_validators_def upt_rec)

lemma test_dkg_session_passes: "test_dkg_session fill sha rng"
  by (simp add: test_dkg_session_def dkg_new_def bft_safe_def make_validators_4 generate_contribution_def
      generate_shares_def length_draw Let_def case_prod_beta)

lemma length_reconstruct:
  assumes "\<forall>share \<in> set shares. length (sh_value share) = 32" and "reconstruct shares sss = Inr secret"
  shows "length secret = 32"
proof -
  let ?used = "take (unat (tp_threshold (ss_params sss))) shares"
  let ?part = "\<lambda>i. field_mul_lambda (sh_value (?used ! i)) (case_prod compute_lambda (lagrange_ratio ?used i))"
  have "length (?part i) = 32" if "i < length ?used" for i
    using assms(1) that by (simp add: field_mul_lambda_parity)
  then have "length r = 32 \<Longrightarrow> set is \<subseteq> {0..<length ?used} \<Longrightarrow> length (fold (\<lambda>i r. field_add r (?part i)) is r) = 32" for "is" r
    by (induction "is" arbitrary: r) auto
  from this [of field_zero "[0..<length ?used]"] show ?thesis
    using assms(2) by (auto simp: reconstruct_def Let_def case_prod_beta split: if_splits)
qed

lemma test_shamir_split_reconstruct_passes:
  assumes "\<forall>r. length (fst (fill r)) = 32"
  shows "test_shamir_split_reconstruct from_seed fill"
proof -
  let ?params = "\<lparr>tp_total_shares = 5, tp_threshold = 3\<rparr>"
  let ?sss = "sss_with_seed from_seed ?params (replicate 32 42)"
  obtain cs rng where d: "draw fill 2 (ss_rng ?sss) = (cs, rng)" by fastforce
  define shares where "shares = map (\<lambda>i. \<lparr>sh_index = word_of_nat i + 1,
    sh_value = evaluate_polynomial (replicate 32 0xAB # cs) (word_of_nat i + 1), sh_holder = make_validators 5 ! i\<rparr>) [0..<5]"
  have split: "split_secret fill (replicate 32 0xAB) (make_validators 5) ?sss = Inr (shares, ?sss\<lparr>ss_rng := rng\<rparr>)"
    using d by (simp add: split_secret_def Let_def sss_with_seed_def make_validators_def shares_def
        del: evaluate_polynomial_simps upt_Suc)
  have "\<forall>c \<in> set cs. length c = 32" using draw_coefficients [OF assms] d by (metis fst_conv)
  then have "length (evaluate_polynomial (replicate 32 0xAB # cs) x) = 32" for x by (intro length_evaluate) auto
  then have len: "\<forall>share \<in> set (take 3 shares). length (sh_value share) = 32"
    by (auto simp: shares_def dest!: in_set_takeD simp del: evaluate_polynomial_simps)
  have "\<exists>secret. reconstruct (take 3 shares) (?sss\<lparr>ss_rng := rng\<rparr>) = Inr secret"
    by (simp add: reconstruct_def Let_def sss_with_seed_def shares_def del: evaluate_polynomial_simps)
  with length_reconstruct [OF len] split show ?thesis
    by (auto simp: test_shamir_split_reconstruct_def params_new_def Let_def shares_def)
qed

section \<open>\<open>node/config.rs\<close>\<close>

definition test_default_config :: "nat \<Rightarrow> bool" where
  "test_default_config num_cpus =
     (let config = node_config_default num_cpus
      in cc_chain_id (cfg_chain config) = 1 \<and> nc_max_peers (cfg_network config) = 50 \<and> rc_enabled (cfg_rpc config) \<and>
         \<not> is_validator config)"

lemma test_default_config_passes: "test_default_config num_cpus"
  by (simp add: test_default_config_def node_config_default_def chain_config_default_def network_config_default_def
      rpc_config_default_def is_validator_def)

section \<open>\<open>node/mempool.rs\<close>\<close>

definition make_pool_tx :: "u8 \<Rightarrow> u64 \<Rightarrow> encrypted_transaction \<times> u256" where
  "make_pool_tx i gas_price =
     (\<lparr>et_ciphertext = [i], et_capsule = capsule_default, et_commitment = replicate 32 i\<rparr>, u256_from_u64 gas_price)"

text \<open>\<open>pool.add(make_tx(i, price).0, make_tx(i, price).1)\<close>.\<close>

definition add_test_tx :: "nat \<Rightarrow> u8 \<Rightarrow> u64 \<Rightarrow> transaction_pool \<Rightarrow> (pool_error + unit) \<times> transaction_pool" where
  "add_test_tx now i gas_price pool = pool_add now (fst (make_pool_tx i gas_price)) (snd (make_pool_tx i gas_price)) pool"

definition test_add_transaction :: "nat \<Rightarrow> bool" where
  "test_add_transaction now = (let (r, pool) = add_test_tx now 1 1000 (pool_new 100) in r = Inr () \<and> pool_len pool = 1)"

definition test_duplicate_rejection :: "nat \<Rightarrow> bool" where
  "test_duplicate_rejection now =
     (let (r1, p1) = add_test_tx now 1 1000 (pool_new 100); (r2, p2) = add_test_tx now 1 1000 p1
      in r1 = Inr () \<and> r2 = Inl AlreadyKnown)"

definition test_best_by_price :: "nat \<Rightarrow> bool" where
  "test_best_by_price now =
     (let (r1, p1) = add_test_tx now 1 100 (pool_new 100); (r2, p2) = add_test_tx now 2 300 p1;
          (r3, p3) = add_test_tx now 3 200 p2; best = pool_best 2 p3
      in r1 = Inr () \<and> r2 = Inr () \<and> r3 = Inr () \<and> length best = 2 \<and>
         pt_gas_price (best ! 0) = u256_from_u64 300 \<and> pt_gas_price (best ! 1) = u256_from_u64 200)"

definition test_pool_capacity :: "nat \<Rightarrow> bool" where
  "test_pool_capacity now =
     (let (r1, p1) = add_test_tx now 1 100 (pool_new 2); (r2, p2) = add_test_tx now 2 200 p1;
          (r3, p3) = add_test_tx now 3 300 p2; (r4, p4) = add_test_tx now 4 50 p3
      in r1 = Inr () \<and> r2 = Inr () \<and> r3 = Inr () \<and> pool_len p3 = 2 \<and> r4 = Inl PoolFull)"

definition test_pool_remove :: "nat \<Rightarrow> bool" where
  "test_pool_remove now =
     (let commitment = et_commitment (fst (make_pool_tx 1 1000)); (r1, p1) = add_test_tx now 1 1000 (pool_new 100);
          p2 = snd (pool_remove commitment p1)
      in r1 = Inr () \<and> pool_contains commitment p1 \<and> pool_get commitment p2 = None)"

lemma u256_from_u64_less: "u256_from_u64 a < u256_from_u64 b \<longleftrightarrow> a < b"
  by (auto simp: less_u256_def u256_le_def u256_from_u64_def u256_limbs_def)

lemma u256_from_u64_eq: "u256_from_u64 a = u256_from_u64 b \<longleftrightarrow> a = b"
  by (simp add: u256_from_u64_def)

lemmas pool_defs = add_test_tx_def make_pool_tx_def pool_add_def pool_new_def evict_lowest_def pool_remove_def pool_best_def
  pool_len_def pool_get_def pool_contains_def less_prod_def' List.map_filter_simps u256_from_u64_less u256_from_u64_eq

lemma pool_tests_pass:
  "test_add_transaction now" "test_duplicate_rejection now" "test_best_by_price now" "test_pool_capacity now"
  "test_pool_remove now"
  by (simp_all add: test_add_transaction_def test_duplicate_rejection_def test_best_by_price_def test_pool_capacity_def
      test_pool_remove_def pool_defs Let_def)

text \<open>The tests of the file together.\<close>

definition mempool_tests :: "nat \<Rightarrow> bool" where
  "mempool_tests now \<longleftrightarrow>
     test_add_transaction now \<and> test_duplicate_rejection now \<and> test_best_by_price now \<and> test_pool_capacity now \<and>
     test_pool_remove now"

lemma all_mempool_tests_pass: "mempool_tests now"
  by (simp add: mempool_tests_def pool_tests_pass)

section \<open>\<open>node/node.rs\<close>\<close>

text \<open>The node of the tests is created with the default configuration, which has no validator key.\<close>

definition test_node_state ::
    "('sk, 'pk, 'sg, 'ag) node_env \<Rightarrow> nat \<Rightarrow> 'r \<Rightarrow> peer_id \<Rightarrow> u64 \<Rightarrow> bool" where
  "test_node_state env num_cpus rng pid unix_secs =
     (case node_new env num_cpus rng pid unix_secs (node_config_default num_cpus) of
        Inl _ \<Rightarrow> False | Inr node \<Rightarrow> nd_state node = Starting)"

definition test_node_stats ::
    "('sk, 'pk, 'sg, 'ag) node_env \<Rightarrow> nat \<Rightarrow> 'r \<Rightarrow> peer_id \<Rightarrow> u64 \<Rightarrow> bool" where
  "test_node_stats env num_cpus rng pid unix_secs =
     (case node_new env num_cpus rng pid unix_secs (node_config_default num_cpus) of
        Inl _ \<Rightarrow> False
      | Inr node \<Rightarrow> (let stats = node_stats_of node in ns_events_created stats = 0 \<and> ns_rounds_committed stats = 0))"

lemma node_tests_pass: "test_node_state env num_cpus rng pid unix_secs" "test_node_stats env num_cpus rng pid unix_secs"
  by (simp_all add: test_node_state_def test_node_stats_def node_new_def params_new_def load_validator_key_def
      node_config_default_def node_stats_of_def node_stats_default_def)

section \<open>\<open>node/blocks.rs\<close>\<close>

definition test_insert_and_get_block :: bool where
  "test_insert_and_get_block =
     (let block = block_genesis 1; hash = blk_hash block; store = insert_block block bstore_new
      in get_by_number store 0 \<noteq> None \<and> get_by_hash store hash \<noteq> None \<and> latest_number store = 0)"

definition test_latest_tracking :: "hash_fn \<Rightarrow> bool" where
  "test_latest_tracking sha =
     (let s0 = insert_block (block_genesis 1) bstore_new;
          s1 = insert_block (block_from_round sha 1 (replicate 32 0) (replicate 32 1) [] [] address_zero 0 100) s0;
          s2 = insert_block (block_from_round sha 2 (replicate 32 0) (replicate 32 2) [] [] address_zero 0 200) s1
      in latest_number s0 = 0 \<and> latest_number s1 = 1 \<and> latest_number s2 = 2)"

lemma block_store_tests_pass: "test_insert_and_get_block" "test_latest_tracking sha"
  by (simp_all add: test_insert_and_get_block_def test_latest_tracking_def insert_block_def bstore_new_def block_genesis_def
      block_from_round_def get_by_number_def get_by_hash_def latest_number_def Let_def)

text \<open>The tests of the file together.\<close>

definition block_store_tests :: "hash_fn \<Rightarrow> bool" where
  "block_store_tests sha \<longleftrightarrow>
     test_insert_and_get_block \<and> test_latest_tracking sha"

lemma all_block_store_tests_pass: "block_store_tests sha"
  by (simp add: block_store_tests_def block_store_tests_pass)

section \<open>\<open>node/rpc.rs\<close>\<close>

definition test_rpc_response_success :: bool where
  "test_rpc_response_success =
     (let response = rpc_success (JNumber (Some 1)) (JString ''result'')
      in rs_result response \<noteq> None \<and> rs_error response = None \<and> rs_jsonrpc response = ''2.0'')"

definition test_rpc_response_error :: bool where
  "test_rpc_response_error =
     (let response = rpc_fail (JNumber (Some 1)) (- 32600) ''Invalid Request''
      in rs_result response = None \<and> map_option re_code (rs_error response) = Some (- 32600))"

definition test_parse_hash_param :: "rpc_env \<Rightarrow> bool" where
  "test_parse_hash_param env =
     (parse_hash_param env (Some (JArray [JString (''0x'' @ replicate 64 (CHR ''0''))])) = Inr (replicate 32 0))"

definition test_parse_block_params :: "rpc_env \<Rightarrow> bool" where
  "test_parse_block_params env =
     (case parse_block_params env (Some (JArray [JString ''latest'', JBool True])) of
        Inr (Inr (BlockTag _, full_tx)) \<Rightarrow> full_tx
      | _ \<Rightarrow> False)"

definition test_eth_chain_id :: bool where
  "test_eth_chain_id = (rs_result (eth_chain_id (JNumber (Some 1))) \<noteq> None)"

definition test_web3_client_version :: bool where
  "test_web3_client_version =
     (case Option.bind (rs_result (web3_client_version (JNumber (Some 1)))) as_str of
        None \<Rightarrow> False | Some s \<Rightarrow> list_ex (\<lambda>i. take 6 (drop i s) = ''Ryther'') [0..<length s])"

lemma rpc_tests_pass:
  "test_rpc_response_success" "test_rpc_response_error" "test_parse_block_params env" "test_eth_chain_id"
  "test_web3_client_version"
  by code_simp+

lemma test_parse_hash_param_passes:
  assumes "rv_hex_decode env (replicate 64 (CHR ''0'')) = Some (replicate 32 0)"
  shows "test_parse_hash_param env"
proof -
  have "hex_text (replicate 64 (CHR ''0''))" by (simp add: hex_text_def)
  from trim_0x_prefixed [OF this] assms show ?thesis
    unfolding test_parse_hash_param_def parse_hash_param_def arg_def by simp
qed

text \<open>The tests of the file together.\<close>

definition rpc_tests :: "rpc_env \<Rightarrow> bool" where
  "rpc_tests env \<longleftrightarrow>
     test_rpc_response_success \<and> test_rpc_response_error \<and> test_parse_hash_param env \<and>
     test_parse_block_params env \<and> test_eth_chain_id \<and> test_web3_client_version"

lemma all_rpc_tests_pass:
  assumes "rv_hex_decode env (replicate 64 (CHR ''0'')) = Some (replicate 32 0)"
  shows "rpc_tests env"
  using assms by (simp add: rpc_tests_def rpc_tests_pass test_parse_hash_param_passes)

end
