(* ===== verification/Spec2Isabelle.thy ===== *)
theory Spec2Isabelle
  imports Page_Store Ryther_Main Node_Resources Node_Network Tests_Consensus Tests_Execution Tests_Storage Tests_Network
    Tests_Node
begin

text \<open>
  Verification of ryther-core, the node of a DAG-based blockchain: validators exchange signed events that form a DAG,
  commit the events of elected leaders round by round, and execute the committed transactions optimistically over a
  multi-version state that is persisted in a Jellyfish Merkle tree. File names are relative to \<^verbatim>\<open>src/\<close> of the crate.

  \<^bold>\<open>How the parts interact.\<close> The program (\<^verbatim>\<open>bin/ryther.rs\<close>) creates a node and, later, the RPC server. The node
  (\<^verbatim>\<open>node/node.rs\<close>) owns the event store, the commit detector, the executor with its state, the pool, the peer
  table, the gossip protocol and the transport. Its block producer creates an event from the store, publishes it by
  gossip over the transport, advances the commit detector on the store, and executes each committed round. Its message
  handler passes incoming messages to gossip, which fills the store and answers.

  \<^bold>\<open>Conventions.\<close> Integers are words of the source's width, with the wrapping arithmetic of a release build. A hash map
  is an association list in its iteration order, a hash set a list without repetitions, a B-tree map a sorted
  association list. Errors are values of sum types (\<open>Inl\<close> the error) and panics a datatype of their own, sequenced
  with \<open>and_then\<close>. State is a record that operations take and return; components behind locks and atomics that
  several tasks share are steps of transition systems. Instants, random numbers, outcomes of system calls, and
  functions of other crates (SHA-256, Keccak, \<open>blst\<close>, \<open>bincode\<close>, \<open>hex\<close>, \<open>serde_json\<close>, the random generator) are
  arguments; what is relied on of them is a hypothesis of the theorem that does, and its witness instantiates it.

  \<^bold>\<open>Values and consensus.\<close>
  \<^item> \<^verbatim>\<open>Ryther_Prelude\<close>: words, byte codecs (locale \<open>fixed_codec\<close>), hash maps, binary search, invariants of step
    relations (locale \<open>step_invariant\<close>) and of components (locale \<open>component\<close>).
  \<^item> \<^verbatim>\<open>Text_Format\<close>, \<^verbatim>\<open>Socket_Addr\<close>, \<^verbatim>\<open>Float64\<close>: what the program uses of the standard library beyond words and
    collections. Decimal and hexadecimal text with its parsers; socket addresses with parser and text, which are
    inverse; doubles as exact binary fractions with rounding to even, and the error of a quotient and of its text.
  \<^item> \<^verbatim>\<open>Core_Types\<close> (\<^verbatim>\<open>types/mod.rs\<close>): addresses, identifiers, 256-bit integers as four limbs with codec, sum, order and
    text forms.
  \<^item> \<^verbatim>\<open>Lamport_Clock\<close> (\<^verbatim>\<open>types/lamport.rs\<close>): the atomic clock; concurrent ticks and compare-and-swap loops as a step
    relation, in which the timestamps handed out increase until the 64-bit addition wraps.
  \<^item> \<^verbatim>\<open>Validator_Set\<close> (\<^verbatim>\<open>types/validator.rs\<close>): stakes, quorums and the quorum tracker; quorum intersection (locale
    \<open>weighted_quorums\<close>).
  \<^item> \<^verbatim>\<open>Transactions\<close> (\<^verbatim>\<open>types/transaction.rs\<close>): batches, their Merkle root and sequence numbers; the root binds the
    commitments.
  \<^item> \<^verbatim>\<open>Dag_Events\<close> (\<^verbatim>\<open>types/event.rs\<close>): events, identifiers, structural validation and the builder.
  \<^item> \<^verbatim>\<open>Dag_Store\<close> (\<^verbatim>\<open>dag/store.rs\<close>): the event table, its indices and breadth-first reachability, which decides paths;
    the contract of the store is the locale \<open>event_store\<close>.
  \<^item> \<^verbatim>\<open>Leader_Election\<close> (\<^verbatim>\<open>consensus/leader.rs\<close>): the weighted election; a member is elected, with a chance of exactly
    its stake.
  \<^item> \<^verbatim>\<open>Commit_Detector\<close> (\<^verbatim>\<open>consensus/commit.rs\<close>): the commit rule and the advancing loop; agreement between nodes while
    nobody equivocates, consecutive rounds, finality, termination, and a split by an equivocating leader.

  \<^bold>\<open>Execution and storage.\<close>
  \<^item> \<^verbatim>\<open>Version_Chain\<close> (\<^verbatim>\<open>types/state.rs\<close>), \<^verbatim>\<open>Mvcc_State\<close> (\<^verbatim>\<open>execution/mvcc.rs\<close>), \<^verbatim>\<open>Conflict_Detector\<close>
    (\<^verbatim>\<open>execution/conflict.rs\<close>): versioned reads and writes, finalization, validation of read sets.
  \<^item> \<^verbatim>\<open>Ryther_Vm\<close> (\<^verbatim>\<open>evm/vm.rs\<close>): value transfers with nonces and fees; conservation of value, no replay, and the
    cases where conservation fails.
  \<^item> \<^verbatim>\<open>Parallel_Executor\<close> (\<^verbatim>\<open>execution/executor.rs\<close>): batches with validation and retries; equal to serial execution for
    every virtual machine of the locale \<open>speculative_vm\<close>, of which the transfer layer is an instance.
  \<^item> \<^verbatim>\<open>Jmt\<close> (\<^verbatim>\<open>storage/jmt.rs\<close>), \<^verbatim>\<open>Trie_Spec\<close>, \<^verbatim>\<open>Jmt_Refinement\<close>: the Merkle tree over its node table, a functional
    trie as its specification (locale \<open>keyed_map\<close>), the refinement, and soundness and completeness of its proofs.
  \<^item> \<^verbatim>\<open>Lru_Cache\<close> (\<^verbatim>\<open>storage/cache.rs\<close>): the cache with its linked list in a vector, which refines a bounded recency
    list; \<^verbatim>\<open>Cache_Stats\<close>: its counters and the accuracy of its hit rate; \<^verbatim>\<open>Page_Store\<close> (\<^verbatim>\<open>storage/page.rs\<close>): pages in memory and in a file, with reopening.

  \<^bold>\<open>Network and node.\<close>
  \<^item> \<^verbatim>\<open>Peer_Manager\<close> (\<^verbatim>\<open>network/peer.rs\<close>), \<^verbatim>\<open>Wire_Messages\<close> (\<^verbatim>\<open>network/message.rs\<close>), \<^verbatim>\<open>Transport\<close>
    (\<^verbatim>\<open>network/transport.rs\<close>), \<^verbatim>\<open>Gossip\<close> (\<^verbatim>\<open>network/gossip.rs\<close>): the peer table and its bounds; framing and delivery of
    messages; announcing, requesting and storing events.
  \<^item> \<^verbatim>\<open>Threshold_Crypto\<close> (\<^verbatim>\<open>crypto/threshold.rs\<close>), \<^verbatim>\<open>Bls\<close> (\<^verbatim>\<open>crypto/bls.rs\<close>): secret sharing, threshold encryption, key
    generation; the wrappers of the signature scheme.
  \<^item> \<^verbatim>\<open>Mempool\<close> (\<^verbatim>\<open>node/mempool.rs\<close>): the pool with its price index; \<^verbatim>\<open>Blocks\<close> (\<^verbatim>\<open>types/block.rs\<close>),
    \<^verbatim>\<open>Block_Store\<close> (\<^verbatim>\<open>node/blocks.rs\<close>): blocks, receipts and log queries.
  \<^item> \<^verbatim>\<open>Node_Config\<close> (\<^verbatim>\<open>node/config.rs\<close>), \<^verbatim>\<open>Ryther_Node\<close> (\<^verbatim>\<open>node/node.rs\<close>): configuration; creation, start and stop,
    messages, event creation, commits and the producer loop, and the tasks of a node as \<open>background_step\<close>.
  \<^item> \<^verbatim>\<open>Node_Resources\<close>: a node changes its peer table and pool only through their operations and so keeps their bounds.
  \<^item> \<^verbatim>\<open>Node_Network\<close>: several nodes connected by byte streams; every stored event is authentic, and a run of seven
    steps takes a published event to a connected peer.
  \<^item> \<^verbatim>\<open>Rpc\<close>, \<^verbatim>\<open>Rpc_Server\<close> (\<^verbatim>\<open>node/rpc.rs\<close>), \<^verbatim>\<open>Ryther_Main\<close> (\<^verbatim>\<open>bin/ryther.rs\<close>): every request is answered, but for one form of
    block parameter; the routes and the page of metrics; the main task, which never gets to start the RPC server.

  \<^bold>\<open>The crate's own tests.\<close> \<^verbatim>\<open>Tests_Types\<close>, \<^verbatim>\<open>Tests_Consensus\<close>, \<^verbatim>\<open>Tests_Execution\<close>, \<^verbatim>\<open>Tests_Storage\<close>,
  \<^verbatim>\<open>Tests_Network\<close>, \<^verbatim>\<open>Tests_Node\<close>: the unit tests in the source files, as executable statements about the model, each
  with a lemma that it passes. They check the definitions against what the authors of the code expect of it; each
  theory says which tests it leaves out.

  \<^bold>\<open>Loops.\<close> No fuel is used. Loops over data are structural; the others are functions with a termination proof: the
  search over the store by the events not yet visited, the advancing loop by the rounds above \<open>last_committed\<close> (also
  when the round counter wraps), the descent of the tree by the bits left, the layers of a Merkle root and the bytes of
  a stream by length, the batch loop of the executor by its retries. Loops that run as long as the node does are one
  step of a transition system per iteration.

  \<^bold>\<open>Not modelled.\<close> Log output; the HTTP server, which is the crate \<open>axum\<close>, and the sockets of the operating system,
  whose outcomes are arguments; device errors of the page file; waiting for room in full channels; serialization by
  derived \<open>serde\<close> instances, which is code the build generates; the tests decided by
  it, by other crates or by the values of SHA-256; benchmarks.
\<close>

end
